(* ===== verification/Prelude.thy ===== *)
theory Prelude
  imports Main "HOL-Library.Word" "HOL-Library.Monad_Syntax" "HOL-Library.Multiset"
begin

unbundle bit_operations_syntax

text \<open>
  Shared vocabulary of the development.

  The Rust sources are modelled in their release profile (the one the build files select):
  arithmetic on machine integers wraps, \<^verbatim>\<open>debug_assert!\<close> is not compiled, and the panics that
  remain (slice indexing, \<^verbatim>\<open>expect\<close>, \<^verbatim>\<open>unwrap\<close>, \<^verbatim>\<open>panic!\<close>) are the value \<^term>\<open>None\<close> of an
  outer \<^typ>\<open>'a option\<close>.  A Rust \<^verbatim>\<open>Result\<close> is a sum with the error on the left, a Rust \<^verbatim>\<open>Option\<close>
  an inner \<^typ>\<open>'a option\<close>.
\<close>

section \<open>Types\<close>

type_synonym u8 = "8 word"
type_synonym u16 = "16 word"
type_synonym u32 = "32 word"
type_synonym u64 = "64 word"

text \<open>A computation that may panic: \<^term>\<open>None\<close> is the panic.\<close>

type_synonym 'a rs = "'a option"

section \<open>Collections of facts\<close>

named_theorems wf_intro \<open>introduction rules for the well-formedness invariants\<close>
named_theorems abs_simps \<open>how an operation acts on the abstract value of a state\<close>

section \<open>Slices\<close>

text \<open>Slice indexing: out of range is a panic.\<close>

definition idx :: "'a list \<Rightarrow> nat \<Rightarrow> 'a rs" where
  "idx xs i = (if i < length xs then Some (xs ! i) else None)"

definition upd :: "'a list \<Rightarrow> nat \<Rightarrow> 'a \<Rightarrow> 'a list rs" where
  "upd xs i x = (if i < length xs then Some (xs[i := x]) else None)"

lemma idx_Some_iff: "idx xs i = Some x \<longleftrightarrow> i < length xs \<and> x = xs ! i"
  by (auto simp: idx_def)

lemma idx_in [simp]: "i < length xs \<Longrightarrow> idx xs i = Some (xs ! i)"
  by (simp add: idx_def)

lemma upd_in [simp]: "i < length xs \<Longrightarrow> upd xs i x = Some (xs[i := x])"
  by (simp add: upd_def)

lemma upd_Some_iff: "upd xs i x = Some ys \<longleftrightarrow> i < length xs \<and> ys = xs[i := x]"
  by (auto simp: upd_def)

section \<open>Machine words\<close>

lemma word_pred_less: "w \<noteq> 0 \<Longrightarrow> w - 1 < (w :: 'a::len word)"
  by (simp add: word_less_nat_alt unat_minus_one unat_gt_0)

lemma unat_u64_less: "unat (w :: u64) < 2 ^ 64"
  by (rule order_less_le_trans [OF unsigned_less]) simp

lemma unat_of_nat_u64: "n < 2 ^ 64 \<Longrightarrow> unat (of_nat n :: u64) = n"
  by (simp add: unsigned_of_nat take_bit_eq_mod)

lemma unat_of_nat_u32: "n < 2 ^ 32 \<Longrightarrow> unat (of_nat n :: u32) = n"
  by (simp add: unsigned_of_nat take_bit_eq_mod)

lemma unat_u32_less: "unat (w :: u32) < 2 ^ 32"
  by (rule order_less_le_trans [OF unsigned_less]) simp

end
