(* ===== verification/Frame_Alloc.thy ===== *)
theory Frame_Alloc
  imports Prelude
begin

text \<open>
  The physical frame allocator, \<^verbatim>\<open>sys/memory/bitmap.rs\<close>: usable regions of the boot loader's
  memory map, one bit per 4 KiB frame, single-frame and contiguous allocation, and release.
  A frame is its start address.  The two crates the file calls (\<^verbatim>\<open>bit_field\<close> for single bits of
  a \<^verbatim>\<open>u64\<close>, \<^verbatim>\<open>x86_64\<close> for \<^verbatim>\<open>PhysFrame\<close>) are the parameter \<open>k\<close> of every definition.
\<close>

section \<open>Third-party operations\<close>

record crate_ops =
  bf_get_bit :: "u64 \<Rightarrow> nat \<Rightarrow> bool"
  bf_set_bit :: "u64 \<Rightarrow> nat \<Rightarrow> bool \<Rightarrow> u64"
  pf_containing_address :: "nat \<Rightarrow> nat"
  pf_add :: "nat \<Rightarrow> nat \<Rightarrow> nat"

section \<open>Usable regions\<close>

record usable_region =
  first_frame :: nat
  frame_count :: nat

definition frame_at :: "crate_ops \<Rightarrow> nat \<Rightarrow> nat" where
  "frame_at k addr = pf_containing_address k addr"

definition usable_region_new :: "crate_ops \<Rightarrow> nat \<Rightarrow> nat \<Rightarrow> usable_region" where
  "usable_region_new k start_addr end_addr =
     (let a = frame_at k start_addr; b = frame_at k (end_addr - 1)
      in \<lparr>first_frame = a, frame_count = (b - a) div 4096 + 1\<rparr>)"

definition last_frame :: "crate_ops \<Rightarrow> usable_region \<Rightarrow> nat" where
  "last_frame k r = pf_add k (first_frame r) (frame_count r - 1)"

definition region_contains :: "crate_ops \<Rightarrow> usable_region \<Rightarrow> nat \<Rightarrow> bool" where
  "region_contains k r frame \<longleftrightarrow> first_frame r \<le> frame \<and> frame \<le> last_frame k r"

definition region_offset :: "usable_region \<Rightarrow> nat \<Rightarrow> nat" where
  "region_offset r frame = (frame - first_frame r) div 4096"

section \<open>The allocator\<close>

definition MAX_REGIONS :: nat where
  "MAX_REGIONS = 32"

record frame_allocator =
  bitmap :: "u64 list"
  next_free_index :: nat
  usable_regions :: "usable_region option list"
  regions_count :: nat
  frames_count :: nat

record mem_entry =
  e_base :: nat
  e_length :: nat
  e_usable :: bool

definition map_frames :: "mem_entry list \<Rightarrow> nat" where
  "map_frames mm = sum_list (map (\<lambda>e. if e_usable e then e_length e div 4096 else 0) mm)"

definition bitmap_size_of :: "nat \<Rightarrow> nat" where
  "bitmap_size_of n = ((n + 63) div 64) * 8"

definition bitmap_storage_of :: "nat \<Rightarrow> nat" where
  "bitmap_storage_of n = (bitmap_size_of n + 4095) div 4096 * 4096"

text \<open>\<^verbatim>\<open>usable_regions[regions_count] = Some(r)\<close> and the two counters.\<close>

definition add_region :: "frame_allocator \<Rightarrow> usable_region \<Rightarrow> frame_allocator" where
  "add_region a r = a\<lparr>usable_regions := (usable_regions a)[regions_count a := Some r],
     regions_count := regions_count a + 1, frames_count := frames_count a + frame_count r\<rparr>"

text \<open>
  One usable entry of the memory map.  \<open>place_bitmap\<close> puts the bitmap at the start of the first
  entry that can hold it (\<open>addr\<close> is \<^verbatim>\<open>bitmap_addr\<close>); \<open>entry_start\<close> is \<^verbatim>\<open>usable_start\<close>;
  \<open>entry_consumed\<close> joins the \<^verbatim>\<open>continue\<close> for an entry the bitmap fills and the test that at least
  one frame is left.
\<close>

definition place_bitmap :: "nat \<Rightarrow> mem_entry \<Rightarrow> frame_allocator \<Rightarrow> nat option
    \<Rightarrow> frame_allocator \<times> nat option" where
  "place_bitmap n e a addr =
     (if addr = None \<and> e_length e \<ge> bitmap_storage_of n
      then (a\<lparr>bitmap := replicate (bitmap_size_of n div 8) 0\<rparr>, Some (e_base e))
      else (a, addr))"

definition entry_start :: "nat \<Rightarrow> mem_entry \<Rightarrow> nat option \<Rightarrow> nat" where
  "entry_start n e addr =
     (if addr = Some (e_base e) then e_base e + bitmap_storage_of n else e_base e)"

definition entry_consumed :: "nat \<Rightarrow> mem_entry \<Rightarrow> nat option \<Rightarrow> bool" where
  "entry_consumed n e addr \<longleftrightarrow>
     addr = Some (e_base e) \<and> e_base e + bitmap_storage_of n \<ge> e_base e + e_length e \<or>
     \<not> e_base e + e_length e - entry_start n e addr \<ge> 4096"

fun init_loop :: "crate_ops \<Rightarrow> nat \<Rightarrow> mem_entry list \<Rightarrow> frame_allocator \<Rightarrow> nat option
    \<Rightarrow> frame_allocator \<times> nat option" where
  "init_loop k n [] a addr = (a, addr)"
| "init_loop k n (e # es) a addr =
     (if \<not> e_usable e then init_loop k n es a addr
      else case place_bitmap n e a addr of (a', addr') \<Rightarrow>
        if entry_consumed n e addr' then init_loop k n es a' addr'
        else if regions_count a' \<ge> MAX_REGIONS then (a', addr')
        else init_loop k n es
               (add_region a' (usable_region_new k (entry_start n e addr')
                  (e_base e + e_length e))) addr')"

definition empty_allocator :: frame_allocator where
  "empty_allocator = \<lparr>bitmap = [], next_free_index = 0,
     usable_regions = replicate MAX_REGIONS None, regions_count = 0, frames_count = 0\<rparr>"

definition init :: "crate_ops \<Rightarrow> mem_entry list \<Rightarrow> frame_allocator rs" where
  "init k mm =
     (case init_loop k (map_frames mm) mm empty_allocator None of
        (a, None) \<Rightarrow> None
      | (a, Some _) \<Rightarrow> Some a)"

fun index_to_frame_loop :: "crate_ops \<Rightarrow> frame_allocator \<Rightarrow> nat \<Rightarrow> nat \<Rightarrow> nat \<Rightarrow> nat
    \<Rightarrow> nat option rs" where
  "index_to_frame_loop k a index 0 i base = Some None"
| "index_to_frame_loop k a index (Suc n) i base =
     do {
       slot \<leftarrow> idx (usable_regions a) i;
       case slot of
         None \<Rightarrow> index_to_frame_loop k a index n (Suc i) base
       | Some r \<Rightarrow>
           (if index < base + frame_count r
            then Some (Some (pf_add k (first_frame r) (index - base)))
            else index_to_frame_loop k a index n (Suc i) (base + frame_count r))
     }"

definition index_to_frame :: "crate_ops \<Rightarrow> frame_allocator \<Rightarrow> nat \<Rightarrow> nat option rs" where
  "index_to_frame k a index =
     (if index \<ge> frames_count a then Some None
      else index_to_frame_loop k a index (regions_count a) 0 0)"

fun frame_to_index_loop :: "crate_ops \<Rightarrow> frame_allocator \<Rightarrow> nat \<Rightarrow> nat \<Rightarrow> nat \<Rightarrow> nat
    \<Rightarrow> nat option rs" where
  "frame_to_index_loop k a frame 0 i base = Some None"
| "frame_to_index_loop k a frame (Suc n) i base =
     do {
       slot \<leftarrow> idx (usable_regions a) i;
       case slot of
         None \<Rightarrow> frame_to_index_loop k a frame n (Suc i) base
       | Some r \<Rightarrow>
           (if region_contains k r frame then Some (Some (base + region_offset r frame))
            else frame_to_index_loop k a frame n (Suc i) (base + frame_count r))
     }"

definition frame_to_index :: "crate_ops \<Rightarrow> frame_allocator \<Rightarrow> nat \<Rightarrow> nat option rs" where
  "frame_to_index k a frame = frame_to_index_loop k a frame (regions_count a) 0 0"

definition is_frame_allocated :: "crate_ops \<Rightarrow> frame_allocator \<Rightarrow> nat \<Rightarrow> bool rs" where
  "is_frame_allocated k a index =
     do { w \<leftarrow> idx (bitmap a) (index div 64); Some (bf_get_bit k w (index mod 64)) }"

definition set_frame_allocated :: "crate_ops \<Rightarrow> frame_allocator \<Rightarrow> nat \<Rightarrow> bool
    \<Rightarrow> frame_allocator rs" where
  "set_frame_allocated k a index allocated =
     do {
       w \<leftarrow> idx (bitmap a) (index div 64);
       bm \<leftarrow> upd (bitmap a) (index div 64) (bf_set_bit k w (index mod 64) allocated);
       Some (a\<lparr>bitmap := bm\<rparr>)
     }"

section \<open>Statistics\<close>

definition count_ones :: "u64 \<Rightarrow> nat" where
  "count_ones w = length (filter (bit w) [0..<64])"

definition total_frames :: "frame_allocator \<Rightarrow> nat" where
  "total_frames a = frames_count a"

fun count_words :: "frame_allocator \<Rightarrow> nat \<Rightarrow> nat \<Rightarrow> nat \<Rightarrow> nat rs" where
  "count_words a 0 i used = Some used"
| "count_words a (Suc n) i used =
     do { w \<leftarrow> idx (bitmap a) i; count_words a n (Suc i) (used + count_ones w) }"

definition allocated_frames :: "frame_allocator \<Rightarrow> nat rs" where
  "allocated_frames a =
     (if frames_count a = 0 then Some 0
      else do {
        used \<leftarrow> count_words a (frames_count a div 64) 0 0;
        if frames_count a mod 64 \<noteq> 0
        then do {
          w \<leftarrow> idx (bitmap a) (frames_count a div 64);
          Some (used + count_ones (w AND (push_bit (frames_count a mod 64) 1 - 1)))
        }
        else Some used
      })"

definition free_frames :: "frame_allocator \<Rightarrow> nat rs" where
  "free_frames a = do { used \<leftarrow> allocated_frames a; Some (total_frames a - used) }"

section \<open>Single frames\<close>

fun allocate_frame_loop :: "crate_ops \<Rightarrow> frame_allocator \<Rightarrow> nat \<Rightarrow> nat
    \<Rightarrow> (nat option \<times> frame_allocator) rs" where
  "allocate_frame_loop k a 0 i = Some (None, a)"
| "allocate_frame_loop k a (Suc n) i =
     (let index = (next_free_index a + i) mod frames_count a
      in do {
        used \<leftarrow> is_frame_allocated k a index;
        if \<not> used
        then do {
          a' \<leftarrow> set_frame_allocated k a index True;
          let a'' = a'\<lparr>next_free_index := index + 1\<rparr>;
          f \<leftarrow> index_to_frame k a'' index;
          Some (f, a'')
        }
        else allocate_frame_loop k a n (Suc i)
      })"

definition allocate_frame :: "crate_ops \<Rightarrow> frame_allocator
    \<Rightarrow> (nat option \<times> frame_allocator) rs" where
  "allocate_frame k a = allocate_frame_loop k a (frames_count a) 0"

definition deallocate_frame :: "crate_ops \<Rightarrow> frame_allocator \<Rightarrow> nat \<Rightarrow> frame_allocator rs" where
  "deallocate_frame k a frame =
     do {
       i \<leftarrow> frame_to_index k a frame;
       case i of
         None \<Rightarrow> Some a
       | Some index \<Rightarrow>
           do {
             used \<leftarrow> is_frame_allocated k a index;
             if used
             then do {
               a' \<leftarrow> set_frame_allocated k a index False;
               Some (a'\<lparr>next_free_index := min (next_free_index a') index\<rparr>)
             }
             else Some a
           }
     }"

section \<open>Contiguous runs\<close>

fun run_is_free :: "crate_ops \<Rightarrow> frame_allocator \<Rightarrow> nat \<Rightarrow> nat \<Rightarrow> bool rs" where
  "run_is_free k a s 0 = Some True"
| "run_is_free k a s (Suc n) =
     do { used \<leftarrow> is_frame_allocated k a s;
          if used then Some False else run_is_free k a (Suc s) n }"

fun mark_run :: "crate_ops \<Rightarrow> frame_allocator \<Rightarrow> nat \<Rightarrow> nat \<Rightarrow> frame_allocator rs" where
  "mark_run k a s 0 = Some a"
| "mark_run k a s (Suc n) =
     do { a' \<leftarrow> set_frame_allocated k a s True; mark_run k a' (Suc s) n }"

text \<open>
  \<open>scan_starts\<close> is the loop over \<^verbatim>\<open>start_off\<close> with \<open>n\<close> offsets left, \<open>scan_region\<close> its two passes
  (from the hint to the end, then from the beginning to the hint).
\<close>

fun scan_starts :: "crate_ops \<Rightarrow> frame_allocator \<Rightarrow> usable_region \<Rightarrow> nat \<Rightarrow> nat \<Rightarrow> nat \<Rightarrow> nat
    \<Rightarrow> (nat \<times> frame_allocator) option rs" where
  "scan_starts k a r base num_pages start_off 0 = Some None"
| "scan_starts k a r base num_pages start_off (Suc n) =
     do {
       ok \<leftarrow> run_is_free k a (base + start_off) num_pages;
       if \<not> ok then scan_starts k a r base num_pages (Suc start_off) n
       else do {
         a' \<leftarrow> mark_run k a (base + start_off) num_pages;
         Some (Some (pf_add k (first_frame r) start_off,
                     a'\<lparr>next_free_index := base + start_off + num_pages\<rparr>))
       }
     }"

definition scan_region :: "crate_ops \<Rightarrow> frame_allocator \<Rightarrow> usable_region \<Rightarrow> nat \<Rightarrow> nat \<Rightarrow> nat
    \<Rightarrow> (nat \<times> frame_allocator) option rs" where
  "scan_region k a r base region_len num_pages =
     (let max_start = region_len - num_pages;
          start0 = (if base \<le> next_free_index a \<and> next_free_index a < base + region_len
                    then min (next_free_index a - base) max_start else 0)
      in do {
        hit \<leftarrow> scan_starts k a r base num_pages start0 (max_start + 1 - start0);
        case hit of
          Some x \<Rightarrow> Some (Some x)
        | None \<Rightarrow> scan_starts k a r base num_pages 0 (min start0 (max_start + 1))
      })"

fun contiguous_loop :: "crate_ops \<Rightarrow> frame_allocator \<Rightarrow> nat \<Rightarrow> nat \<Rightarrow> nat \<Rightarrow> nat
    \<Rightarrow> (nat option \<times> frame_allocator) rs" where
  "contiguous_loop k a num_pages 0 i base = Some (None, a)"
| "contiguous_loop k a num_pages (Suc n) i base =
     do {
       slot \<leftarrow> idx (usable_regions a) i;
       case slot of
         None \<Rightarrow> contiguous_loop k a num_pages n (Suc i) base
       | Some r \<Rightarrow>
           (if frame_count r < num_pages
            then contiguous_loop k a num_pages n (Suc i) (base + frame_count r)
            else do {
              hit \<leftarrow> scan_region k a r base (frame_count r) num_pages;
              case hit of
                Some (f, a') \<Rightarrow> Some (Some f, a')
              | None \<Rightarrow> contiguous_loop k a num_pages n (Suc i) (base + frame_count r)
            })
     }"

definition allocate_contiguous :: "crate_ops \<Rightarrow> frame_allocator \<Rightarrow> nat
    \<Rightarrow> (nat option \<times> frame_allocator) rs" where
  "allocate_contiguous k a num_pages =
     (if num_pages = 0 then Some (None, a)
      else contiguous_loop k a num_pages (regions_count a) 0 0)"

text \<open>
  \<^verbatim>\<open>(max + 1).saturating_sub(region_start) / 0x1000\<close>: the addition wraps at 64 bits, the
  subtraction saturates at 0.
\<close>

definition max_pages_by_addr :: "nat \<Rightarrow> nat \<Rightarrow> nat" where
  "max_pages_by_addr max_addr region_start = ((max_addr + 1) mod 2 ^ 64 - region_start) div 4096"

fun contiguous_below_loop :: "crate_ops \<Rightarrow> frame_allocator \<Rightarrow> nat \<Rightarrow> nat \<Rightarrow> nat \<Rightarrow> nat \<Rightarrow> nat
    \<Rightarrow> (nat option \<times> frame_allocator) rs" where
  "contiguous_below_loop k a num_pages max_addr 0 i base = Some (None, a)"
| "contiguous_below_loop k a num_pages max_addr (Suc n) i base =
     do {
       slot \<leftarrow> idx (usable_regions a) i;
       case slot of
         None \<Rightarrow> contiguous_below_loop k a num_pages max_addr n (Suc i) base
       | Some r \<Rightarrow>
           (if frame_count r < num_pages \<or> first_frame r > max_addr
            then contiguous_below_loop k a num_pages max_addr n (Suc i) (base + frame_count r)
            else
              let limited = min (frame_count r) (max_pages_by_addr max_addr (first_frame r))
              in if limited < num_pages
                 then contiguous_below_loop k a num_pages max_addr n (Suc i) (base + frame_count r)
                 else do {
                   hit \<leftarrow> scan_region k a r base limited num_pages;
                   case hit of
                     Some (f, a') \<Rightarrow> Some (Some f, a')
                   | None \<Rightarrow> contiguous_below_loop k a num_pages max_addr n (Suc i)
                                (base + frame_count r)
                 })
     }"

definition allocate_contiguous_below :: "crate_ops \<Rightarrow> frame_allocator \<Rightarrow> nat \<Rightarrow> nat
    \<Rightarrow> (nat option \<times> frame_allocator) rs" where
  "allocate_contiguous_below k a num_pages max_addr =
     (if num_pages = 0 then Some (None, a)
      else contiguous_below_loop k a num_pages max_addr (regions_count a) 0 0)"


section \<open>What the crates promise\<close>

locale frame_crates =
  fixes k :: crate_ops
  assumes get_bit: "i < 64 \<Longrightarrow> bf_get_bit k w i = bit w i"
    and set_bit: "i < 64 \<Longrightarrow> j < 64 \<Longrightarrow> bit (bf_set_bit k w i v) j = (if i = j then v else bit w j)"
    and containing: "pf_containing_address k addr = addr - addr mod 4096"
    and frame_add: "pf_add k f n = f + 4096 * n"

section \<open>The abstract pool\<close>

definition region_frames :: "usable_region \<Rightarrow> nat list" where
  "region_frames r = map (\<lambda>j. first_frame r + 4096 * j) [0..<frame_count r]"

definition regions :: "frame_allocator \<Rightarrow> usable_region list" where
  "regions a = map the (take (regions_count a) (usable_regions a))"

definition pool :: "frame_allocator \<Rightarrow> nat list" where
  "pool a = concat (map region_frames (regions a))"

definition bit_at :: "frame_allocator \<Rightarrow> nat \<Rightarrow> bool" where
  "bit_at a i = bit (bitmap a ! (i div 64)) (i mod 64)"

definition used :: "frame_allocator \<Rightarrow> nat set" where
  "used a = {pool a ! i | i. i < frames_count a \<and> bit_at a i}"

definition region_ok :: "usable_region \<Rightarrow> bool" where
  "region_ok r \<longleftrightarrow> 0 < frame_count r \<and> first_frame r mod 4096 = 0"

definition fa_wf :: "frame_allocator \<Rightarrow> bool" where
  "fa_wf a \<longleftrightarrow>
     regions_count a \<le> length (usable_regions a) \<and>
     (\<forall>i<regions_count a. usable_regions a ! i \<noteq> None) \<and>
     (\<forall>r\<in>set (regions a). region_ok r) \<and>
     distinct (pool a) \<and>
     frames_count a = length (pool a) \<and>
     frames_count a \<le> 64 * length (bitmap a)"

lemma length_region_frames [simp]: "length (region_frames r) = frame_count r"
  by (simp add: region_frames_def)

lemma nth_region_frames [simp]:
  "j < frame_count r \<Longrightarrow> region_frames r ! j = first_frame r + 4096 * j"
  by (simp add: region_frames_def)

lemma length_regions: "fa_wf a \<Longrightarrow> length (regions a) = regions_count a"
  by (simp add: regions_def fa_wf_def)

lemma slot_region:
  assumes "fa_wf a" "i < regions_count a"
  shows "idx (usable_regions a) i = Some (Some (regions a ! i))"
  using assms by (auto simp: fa_wf_def regions_def)

text \<open>Frames of the regions before region \<open>i\<close>: the \<^verbatim>\<open>base\<close> of the loops.\<close>

definition base_of :: "usable_region list \<Rightarrow> nat \<Rightarrow> nat" where
  "base_of rs i = sum_list (map frame_count (take i rs))"

lemma base_of_0 [simp]: "base_of rs 0 = 0"
  by (simp add: base_of_def)

lemma base_of_Suc: "i < length rs \<Longrightarrow> base_of rs (Suc i) = base_of rs i + frame_count (rs ! i)"
  by (simp add: base_of_def take_Suc_conv_app_nth)

lemma base_of_all: "base_of rs (length rs) = length (concat (map region_frames rs))"
  by (simp add: base_of_def length_concat comp_def)

lemma base_of_mono: "i \<le> j \<Longrightarrow> base_of rs i \<le> base_of rs j"
  unfolding base_of_def
  by (metis append_take_drop_id le_add1 map_append min.absorb1 sum_list_append take_take)

lemma nth_concat_region:
  "i < length rs \<Longrightarrow> j < frame_count (rs ! i) \<Longrightarrow>
     concat (map region_frames rs) ! (base_of rs i + j) = first_frame (rs ! i) + 4096 * j"
proof (induction rs arbitrary: i)
  case Nil
  then show ?case by simp
next
  case (Cons r rs)
  then show ?case
    by (cases i) (auto simp: nth_append base_of_def add.assoc)
qed

lemma base_of_bound:
  assumes "i < length rs" "j < frame_count (rs ! i)"
  shows "base_of rs i + j < length (concat (map region_frames rs))"
proof -
  have "base_of rs i + j < base_of rs (Suc i)" using assms by (simp add: base_of_Suc)
  also have "\<dots> \<le> base_of rs (length rs)" using assms by (intro base_of_mono) simp
  finally show ?thesis by (simp only: base_of_all)
qed


section \<open>Indices and frames\<close>

context frame_crates
begin

lemma index_to_frame_loop_pool:
  assumes "fa_wf a" "n + i = regions_count a" "base_of (regions a) i \<le> index"
    "index < length (pool a)"
  shows "index_to_frame_loop k a index n i (base_of (regions a) i) = Some (Some (pool a ! index))"
  using assms
proof (induction n arbitrary: i)
  case 0
  then have "base_of (regions a) i = length (pool a)"
    by (simp add: pool_def base_of_all flip: length_regions)
  with 0 show ?case by simp
next
  case (Suc n)
  define r where "r = regions a ! i"
  have i: "i < regions_count a" using Suc.prems by simp
  have slot: "idx (usable_regions a) i = Some (Some r)"
    using slot_region [OF \<open>fa_wf a\<close> i] by (simp add: r_def)
  have len: "i < length (regions a)" using i Suc.prems(1) by (simp add: length_regions)
  have next_base: "base_of (regions a) (Suc i) = base_of (regions a) i + frame_count r"
    using len by (simp add: base_of_Suc r_def)
  show ?case
  proof (cases "index < base_of (regions a) i + frame_count r")
    case True
    with Suc.prems(3) len have "pool a ! index = first_frame r + 4096 * (index - base_of (regions a) i)"
      using nth_concat_region [of i "regions a" "index - base_of (regions a) i"]
      by (simp add: pool_def r_def)
    with True slot show ?thesis by (simp add: frame_add)
  next
    case False
    then have "index_to_frame_loop k a index n (Suc i) (base_of (regions a) (Suc i)) =
        Some (Some (pool a ! index))"
      using Suc.IH [of "Suc i"] Suc.prems next_base by simp
    with False slot next_base show ?thesis by simp
  qed
qed

lemma index_to_frame_pool:
  "fa_wf a \<Longrightarrow> index < frames_count a \<Longrightarrow> index_to_frame k a index = Some (Some (pool a ! index))"
  using index_to_frame_loop_pool [of a "regions_count a" 0 index]
  by (simp add: index_to_frame_def fa_wf_def)

lemma region_contains_iff:
  assumes "region_ok r" "f mod 4096 = 0"
  shows "region_contains k r f \<longleftrightarrow> f \<in> set (region_frames r)"
proof
  assume c: "region_contains k r f"
  then have le: "first_frame r \<le> f" "f \<le> first_frame r + 4096 * (frame_count r - 1)"
    by (auto simp: region_contains_def last_frame_def frame_add)
  from assms have "4096 dvd f - first_frame r"
    by (auto simp: region_ok_def mod_eq_0_iff_dvd)
  then obtain j where j: "f = first_frame r + 4096 * j"
    using le(1) by (metis dvd_def le_add_diff_inverse)
  moreover from j le(2) assms(1) have "j < frame_count r" by (auto simp: region_ok_def)
  ultimately show "f \<in> set (region_frames r)" by (auto simp: region_frames_def)
qed (auto simp: region_contains_def last_frame_def frame_add region_frames_def)

lemma region_offset_frame:
  assumes "f \<in> set (region_frames r)"
  shows "region_offset r f < frame_count r" "first_frame r + 4096 * region_offset r f = f"
  using assms by (auto simp: region_offset_def region_frames_def)

lemma frame_to_index_loop_pool:
  assumes "fa_wf a" "n + i = regions_count a" "f mod 4096 = 0"
  shows "case frame_to_index_loop k a f n i (base_of (regions a) i) of
      None \<Rightarrow> False
    | Some None \<Rightarrow> \<forall>r\<in>set (drop i (regions a)). f \<notin> set (region_frames r)
    | Some (Some j) \<Rightarrow> j < length (pool a) \<and> pool a ! j = f"
  using assms(2)
proof (induction n arbitrary: i)
  case 0
  then show ?case using assms(1) by (simp add: length_regions)
next
  case (Suc n)
  define r where "r = regions a ! i"
  have i: "i < regions_count a" using Suc.prems by simp
  have slot: "idx (usable_regions a) i = Some (Some r)"
    using slot_region [OF \<open>fa_wf a\<close> i] by (simp add: r_def)
  have len: "i < length (regions a)" using i assms(1) by (simp add: length_regions)
  have rok: "region_ok r" using assms(1) len by (auto simp: fa_wf_def r_def)
  have next_base: "base_of (regions a) (Suc i) = base_of (regions a) i + frame_count r"
    using len by (simp add: base_of_Suc r_def)
  have dr: "drop i (regions a) = r # drop (Suc i) (regions a)"
    using len by (simp add: Cons_nth_drop_Suc r_def)
  show ?case
  proof (cases "f \<in> set (region_frames r)")
    case True
    note off = region_offset_frame [OF True]
    have "pool a ! (base_of (regions a) i + region_offset r f) = f"
      using nth_concat_region [OF len, of "region_offset r f"] off by (simp add: pool_def r_def)
    moreover have "base_of (regions a) i + region_offset r f < length (pool a)"
      using base_of_bound [OF len, of "region_offset r f"] off(1) by (simp only: pool_def r_def)
    ultimately show ?thesis
      using slot True region_contains_iff [OF rok assms(3)] by simp
  next
    case False
    then show ?thesis
      using slot region_contains_iff [OF rok assms(3)] Suc.IH [of "Suc i"] Suc.prems next_base dr
      by (auto split: option.splits)
  qed
qed

lemma frame_to_index_pool:
  assumes "fa_wf a" "f mod 4096 = 0"
  obtains (outside) "frame_to_index k a f = Some None" "f \<notin> set (pool a)"
    | (inside) j where "frame_to_index k a f = Some (Some j)" "j < length (pool a)" "pool a ! j = f"
  using frame_to_index_loop_pool [OF assms(1) _ assms(2), of "regions_count a" 0] that
  by (auto simp: frame_to_index_def pool_def split: option.splits)

end

section \<open>Bits\<close>

lemma word_index_bound: "i < 64 * length bm \<Longrightarrow> i div 64 < length bm" for i :: nat
  by (simp add: less_mult_imp_div_less mult.commute)

lemma fa_wf_bit_index: "fa_wf a \<Longrightarrow> i < length (pool a) \<Longrightarrow> i div 64 < length (bitmap a)"
  by (rule word_index_bound) (simp add: fa_wf_def)

text \<open>Everything the invariant and the pool depend on, apart from the bits themselves.\<close>

definition same_pool :: "frame_allocator \<Rightarrow> frame_allocator \<Rightarrow> bool" where
  "same_pool a b \<longleftrightarrow> usable_regions b = usable_regions a \<and> regions_count b = regions_count a
     \<and> frames_count b = frames_count a \<and> length (bitmap b) = length (bitmap a)"

lemma same_pool_refl [simp]: "same_pool a a"
  by (simp add: same_pool_def)

lemma same_pool_trans: "same_pool a b \<Longrightarrow> same_pool b c \<Longrightarrow> same_pool a c"
  by (simp add: same_pool_def)

lemma same_pool_next [simp]: "same_pool a (b\<lparr>next_free_index := n\<rparr>) = same_pool a b"
  by (simp add: same_pool_def)

lemma same_poolD:
  assumes "same_pool a b"
  shows "pool b = pool a" "regions b = regions a" "frames_count b = frames_count a"
    "regions_count b = regions_count a" "fa_wf b = fa_wf a"
  using assms by (auto simp: same_pool_def pool_def regions_def fa_wf_def)

lemma bit_at_next [simp]: "bit_at (a\<lparr>next_free_index := n\<rparr>) i = bit_at a i"
  by (simp add: bit_at_def)

context frame_crates
begin

lemma is_frame_allocated_bit:
  "i div 64 < length (bitmap a) \<Longrightarrow> is_frame_allocated k a i = Some (bit_at a i)"
  by (simp add: is_frame_allocated_def bit_at_def get_bit)

lemma set_frame_allocated_bit:
  assumes "i div 64 < length (bitmap a)"
  obtains b where "set_frame_allocated k a i v = Some b" "same_pool a b"
    "next_free_index b = next_free_index a"
    "\<And>j. j div 64 < length (bitmap a) \<Longrightarrow> bit_at b j = (if j = i then v else bit_at a j)"
proof
  let ?b = "a\<lparr>bitmap := (bitmap a)[i div 64 := bf_set_bit k (bitmap a ! (i div 64)) (i mod 64) v]\<rparr>"
  show "set_frame_allocated k a i v = Some ?b"
    using assms by (simp add: set_frame_allocated_def)
  show "same_pool a ?b" "next_free_index ?b = next_free_index a"
    by (simp_all add: same_pool_def)
  fix j
  assume "j div 64 < length (bitmap a)"
  moreover have "j = i" if "j div 64 = i div 64" "j mod 64 = i mod 64"
    using that by (metis div_mult_mod_eq)
  ultimately show "bit_at ?b j = (if j = i then v else bit_at a j)"
    using assms by (cases "j div 64 = i div 64") (auto simp: bit_at_def set_bit)
qed

end


section \<open>Taking and releasing indices\<close>

text \<open>\<open>took a b s n\<close>: the \<open>n\<close> bits from \<open>s\<close> on were clear in \<open>a\<close> and \<open>b\<close> is \<open>a\<close> with them set.\<close>

definition run_free :: "frame_allocator \<Rightarrow> nat \<Rightarrow> nat \<Rightarrow> bool" where
  "run_free a s n \<longleftrightarrow> (\<forall>j<n. \<not> bit_at a (s + j))"

definition took :: "frame_allocator \<Rightarrow> frame_allocator \<Rightarrow> nat \<Rightarrow> nat \<Rightarrow> bool" where
  "took a b s n \<longleftrightarrow> same_pool a b \<and> run_free a s n \<and> s + n \<le> length (pool a) \<and>
     (\<forall>j<length (pool a). bit_at b j = (s \<le> j \<and> j < s + n \<or> bit_at a j))"

lemma took_wf: "took a b s n \<Longrightarrow> fa_wf a \<Longrightarrow> fa_wf b \<and> pool b = pool a"
  using same_poolD(1,5) [of a b] by (simp add: took_def)

lemma took_used:
  assumes "fa_wf a" "took a b s n"
  shows "used b = used a \<union> (\<lambda>j. pool a ! (s + j)) ` {..<n}"
    "(\<lambda>j. pool a ! (s + j)) ` {..<n} \<subseteq> set (pool a) - used a"
proof -
  have len: "frames_count a = length (pool a)" and dist: "distinct (pool a)"
    using assms(1) by (auto simp: fa_wf_def)
  have sp: "same_pool a b" and bnd: "s + n \<le> length (pool a)"
    and bits: "\<And>j. j < length (pool a) \<Longrightarrow> bit_at b j = (s \<le> j \<and> j < s + n \<or> bit_at a j)"
    using assms(2) by (auto simp: took_def)
  have "used b = {pool a ! j | j. j < length (pool a) \<and> (s \<le> j \<and> j < s + n \<or> bit_at a j)}"
    using bits len by (auto simp: used_def same_poolD [OF sp])
  also have "\<dots> = used a \<union> {pool a ! j | j. s \<le> j \<and> j < s + n}"
    using bnd len by (auto simp: used_def)
  also have "{pool a ! j | j. s \<le> j \<and> j < s + n} = (\<lambda>j. pool a ! (s + j)) ` {..<n}" (is "?L = ?R")
  proof
    show "?L \<subseteq> ?R"
      by (auto simp: image_iff) (metis add_less_cancel_left le_add_diff_inverse lessThan_iff)
  qed auto
  finally show "used b = used a \<union> (\<lambda>j. pool a ! (s + j)) ` {..<n}" .
  show "(\<lambda>j. pool a ! (s + j)) ` {..<n} \<subseteq> set (pool a) - used a"
  proof safe
    fix j
    assume j: "j < n"
    then show "pool a ! (s + j) \<in> set (pool a)" using bnd by simp
    assume "pool a ! (s + j) \<in> used a"
    then obtain i where "pool a ! (s + j) = pool a ! i" "i < length (pool a)" "bit_at a i"
      by (auto simp: used_def len)
    with dist j bnd have "bit_at a (s + j)" by (simp add: nth_eq_iff_index_eq)
    with j assms(2) show False by (simp add: took_def run_free_def)
  qed
qed

lemma release_used:
  assumes "fa_wf a" "same_pool a b" "i < length (pool a)"
    "\<And>j. j < length (pool a) \<Longrightarrow> bit_at b j = (if j = i then False else bit_at a j)"
  shows "used b = used a - {pool a ! i}"
  using assms
  by (auto simp: used_def same_poolD [OF assms(2)] fa_wf_def nth_eq_iff_index_eq split: if_splits)

lemma used_iff:
  "fa_wf a \<Longrightarrow> i < length (pool a) \<Longrightarrow> pool a ! i \<in> used a \<longleftrightarrow> bit_at a i"
  by (auto simp: used_def fa_wf_def nth_eq_iff_index_eq)

context frame_crates
begin

lemma run_is_free_iff:
  "fa_wf a \<Longrightarrow> s + n \<le> length (pool a) \<Longrightarrow> run_is_free k a s n = Some (run_free a s n)"
proof (induction n arbitrary: s)
  case 0
  then show ?case by (simp add: run_free_def)
next
  case (Suc n)
  have "run_free a s (Suc n) \<longleftrightarrow> \<not> bit_at a s \<and> run_free a (Suc s) n"
    by (auto simp: run_free_def less_Suc_eq_0_disj)
  with Suc show ?case
    by (simp add: is_frame_allocated_bit fa_wf_bit_index)
qed

lemma mark_run_took:
  assumes "fa_wf a" "run_free a s n" "s + n \<le> length (pool a)"
  obtains b where "mark_run k a s n = Some b" "took a b s n"
  using assms
proof (induction n arbitrary: a s thesis)
  case 0
  then have "took a a s 0" by (auto simp: took_def run_free_def)
  with 0(1) show ?case by simp
next
  case (Suc n)
  have s: "s div 64 < length (bitmap a)"
    using Suc.prems by (intro fa_wf_bit_index) auto
  obtain c where c: "set_frame_allocated k a s True = Some c" "same_pool a c"
    "\<And>j. j div 64 < length (bitmap a) \<Longrightarrow> bit_at c j = (if j = s then True else bit_at a j)"
    using set_frame_allocated_bit [OF s] by blast
  have wf_c: "fa_wf c" and pool_c: "pool c = pool a"
    using c(2) Suc.prems by (simp_all add: same_poolD)
  have bit_c: "bit_at c j = (j = s \<or> bit_at a j)" if "j < length (pool a)" for j
    using c(3) [OF fa_wf_bit_index [OF Suc.prems(2) that]] by simp
  have free_c: "run_free c (Suc s) n"
    using Suc.prems(3,4) bit_c by (auto simp: run_free_def)
  obtain b where b: "mark_run k c (Suc s) n = Some b" "took c b (Suc s) n"
    using Suc.IH [OF _ wf_c free_c] Suc.prems(4) pool_c by auto
  have bit_b: "bit_at b j = (Suc s \<le> j \<and> j < Suc s + n \<or> bit_at c j)" if "j < length (pool a)" for j
    using b(2) that pool_c by (simp add: took_def)
  have "took a b s (Suc n)"
    unfolding took_def
  proof (intro conjI allI impI)
    show "same_pool a b" using b(2) c(2) by (auto simp: took_def intro: same_pool_trans)
    fix j
    assume "j < length (pool a)"
    then show "bit_at b j = (s \<le> j \<and> j < s + Suc n \<or> bit_at a j)"
      using bit_b bit_c by auto
  qed (use Suc.prems in auto)
  moreover have "mark_run k a s (Suc n) = Some b" using b c by simp
  ultimately show ?case using Suc.prems(1) by blast
qed

end

section \<open>Allocating one frame\<close>

lemma mod_cover:
  fixes N x m :: nat
  assumes "x < N"
  shows "\<exists>t<N. (m + t) mod N = x"
proof (intro exI conjI)
  let ?t = "(x + (N - m mod N)) mod N"
  show "?t < N" using assms by simp
  have "(m + ?t) mod N = (m mod N + (x + (N - m mod N))) mod N"
    by (simp add: mod_simps)
  also have "m mod N + (x + (N - m mod N)) = x + N"
    using mod_less_divisor [of N m] assms by linarith
  finally show "(m + ?t) mod N = x" using assms by simp
qed

context frame_crates
begin

lemma allocate_frame_loop_result:
  assumes "fa_wf a" "0 < frames_count a"
  shows "\<exists>r b. allocate_frame_loop k a n i = Some (r, b) \<and>
     (case r of
        None \<Rightarrow> b = a \<and> (\<forall>t<n. bit_at a ((next_free_index a + i + t) mod frames_count a))
      | Some f \<Rightarrow> \<exists>index<frames_count a. f = pool a ! index \<and> took a b index 1)"
proof (induction n arbitrary: i)
  case 0
  then show ?case by simp
next
  case (Suc n)
  let ?index = "(next_free_index a + i) mod frames_count a"
  have idx: "?index < frames_count a" using assms(2) by simp
  then have idx_len: "?index < length (pool a)" using assms(1) by (simp add: fa_wf_def)
  then have word: "?index div 64 < length (bitmap a)" by (rule fa_wf_bit_index [OF assms(1)])
  show ?case
  proof (cases "bit_at a ?index")
    case True
    then have eq: "allocate_frame_loop k a (Suc n) i = allocate_frame_loop k a n (Suc i)"
      by (simp add: is_frame_allocated_bit [OF word])
    have "bit_at a ((next_free_index a + i + t) mod frames_count a)"
      if "\<forall>t<n. bit_at a ((next_free_index a + Suc i + t) mod frames_count a)" "t < Suc n" for t
      using that True by (cases t) auto
    with Suc.IH [of "Suc i"] show ?thesis
      unfolding eq by (fastforce split: option.splits)
  next
    case False
    obtain b where b: "set_frame_allocated k a ?index True = Some b" "same_pool a b"
      "\<And>j. j div 64 < length (bitmap a) \<Longrightarrow> bit_at b j = (if j = ?index then True else bit_at a j)"
      using set_frame_allocated_bit [OF word] by blast
    let ?b = "b\<lparr>next_free_index := Suc ?index\<rparr>"
    have sp: "same_pool a ?b" using b(2) by simp
    have "index_to_frame k ?b ?index = Some (Some (pool a ! ?index))"
      using index_to_frame_pool [of ?b ?index] assms(1) idx by (simp add: same_poolD [OF sp])
    then have "allocate_frame_loop k a (Suc n) i = Some (Some (pool a ! ?index), ?b)"
      using False b(1) by (simp add: is_frame_allocated_bit [OF word] Let_def)
    moreover have "took a ?b ?index 1"
      using sp False idx_len b(3) fa_wf_bit_index [OF assms(1)]
      by (auto simp: took_def run_free_def)
    ultimately show ?thesis using idx by auto
  qed
qed

lemma allocate_frame_result:
  assumes "fa_wf a"
  obtains (full) "allocate_frame k a = Some (None, a)" "used a = set (pool a)"
    | (fresh) f b where "allocate_frame k a = Some (Some f, b)" "fa_wf b" "pool b = pool a"
        "f \<in> set (pool a) - used a" "used b = insert f (used a)"
proof (cases "frames_count a = 0")
  case True
  with assms have "used a = set (pool a)" "allocate_frame k a = Some (None, a)"
    by (auto simp: used_def fa_wf_def allocate_frame_def)
  then show ?thesis by (rule full [rotated])
next
  case False
  obtain r b where rb: "allocate_frame k a = Some (r, b)"
    and cases: "case r of
        None \<Rightarrow> b = a \<and> (\<forall>t<frames_count a. bit_at a ((next_free_index a + 0 + t) mod frames_count a))
      | Some f \<Rightarrow> \<exists>index<frames_count a. f = pool a ! index \<and> took a b index 1"
    using allocate_frame_loop_result [OF assms, of "frames_count a" 0] False
    unfolding allocate_frame_def by blast
  show ?thesis
  proof (cases r)
    case None
    have "bit_at a x" if "x < frames_count a" for x
      using mod_cover [OF that, of "next_free_index a"] cases None by auto
    then have "used a = set (pool a)"
      using assms by (auto simp: used_def fa_wf_def set_conv_nth)
    with None rb cases show ?thesis by (intro full) auto
  next
    case (Some f)
    then obtain index where "f = pool a ! index" "took a b index 1" using cases by auto
    with rb Some assms show ?thesis
      using took_used [OF assms] took_wf by (intro fresh [of f b]) fastforce+
  qed
qed

lemma deallocate_frame_result:
  assumes "fa_wf a" "f mod 4096 = 0"
  obtains b where "deallocate_frame k a f = Some b" "fa_wf b" "pool b = pool a"
    "used b = used a - {f}"
  using assms
proof (cases rule: frame_to_index_pool)
  case outside
  moreover have "used a \<subseteq> set (pool a)" using assms(1) by (auto simp: used_def fa_wf_def)
  ultimately show ?thesis using assms(1) by (intro that [of a]) (auto simp: deallocate_frame_def)
next
  case (inside j)
  have word: "j div 64 < length (bitmap a)" by (rule fa_wf_bit_index [OF assms(1) inside(2)])
  show ?thesis
  proof (cases "bit_at a j")
    case False
    then have "f \<notin> used a" using used_iff [OF assms(1) inside(2)] inside(3) by simp
    with False inside assms(1) show ?thesis
      by (intro that [of a]) (auto simp: deallocate_frame_def is_frame_allocated_bit [OF word])
  next
    case True
    obtain b where b: "set_frame_allocated k a j False = Some b" "same_pool a b"
      "\<And>j'. j' div 64 < length (bitmap a) \<Longrightarrow> bit_at b j' = (if j' = j then False else bit_at a j')"
      using set_frame_allocated_bit [OF word] by blast
    let ?b = "b\<lparr>next_free_index := min (next_free_index b) j\<rparr>"
    have sp: "same_pool a ?b" using b(2) by simp
    have "used ?b = used a - {f}"
      using release_used [OF assms(1) sp inside(2)] b(3) fa_wf_bit_index [OF assms(1)] inside(3)
      by simp
    with True inside b(1) sp assms(1) show ?thesis
      by (intro that [of ?b])
        (auto simp: deallocate_frame_def is_frame_allocated_bit [OF word] same_poolD)
  qed
qed

end


section \<open>Contiguous runs\<close>

context frame_crates
begin

lemma scan_starts_result:
  assumes "fa_wf a" "base + off + n + num \<le> Suc (length (pool a))"
  shows "case scan_starts k a r base num off n of
      None \<Rightarrow> False
    | Some None \<Rightarrow> \<forall>q. off \<le> q \<and> q < off + n \<longrightarrow> \<not> run_free a (base + q) num
    | Some (Some (f, b)) \<Rightarrow>
        \<exists>q. off \<le> q \<and> q < off + n \<and> f = first_frame r + 4096 * q \<and> took a b (base + q) num"
  using assms(2)
proof (induction n arbitrary: off)
  case 0
  then show ?case by auto
next
  case (Suc n)
  have free: "run_is_free k a (base + off) num = Some (run_free a (base + off) num)"
    using Suc.prems by (intro run_is_free_iff [OF assms(1)]) simp
  show ?case
  proof (cases "run_free a (base + off) num")
    case True
    obtain b where b: "mark_run k a (base + off) num = Some b" "took a b (base + off) num"
      using mark_run_took [OF assms(1) True] Suc.prems by auto
    from b(2) have "took a (b\<lparr>next_free_index := m\<rparr>) (base + off) num" for m
      by (simp add: took_def)
    with b(1) free True show ?thesis by (auto simp: frame_add)
  next
    case False
    have "\<not> run_free a (base + q) num"
      if "\<forall>q. Suc off \<le> q \<and> q < Suc off + n \<longrightarrow> \<not> run_free a (base + q) num"
        "off \<le> q" "q < off + Suc n" for q
      using that False by (cases "q = off") auto
    with Suc.IH [of "Suc off"] Suc.prems free False show ?thesis
      by (fastforce split: option.splits)
  qed
qed

lemma scan_region_result:
  assumes "fa_wf a" "base + region_len \<le> length (pool a)" "num \<le> region_len"
  shows "case scan_region k a r base region_len num of
      None \<Rightarrow> False
    | Some None \<Rightarrow> \<forall>q. q + num \<le> region_len \<longrightarrow> \<not> run_free a (base + q) num
    | Some (Some (f, b)) \<Rightarrow>
        \<exists>q. q + num \<le> region_len \<and> f = first_frame r + 4096 * q \<and> took a b (base + q) num"
proof -
  define max_start where "max_start = region_len - num"
  define start0 where "start0 = (if base \<le> next_free_index a \<and> next_free_index a < base + region_len
     then min (next_free_index a - base) max_start else 0)"
  have le: "start0 \<le> max_start" by (simp add: start0_def)
  define first where "first = scan_starts k a r base num start0 (max_start + 1 - start0)"
  define again where "again = scan_starts k a r base num 0 (min start0 (max_start + 1))"
  have eq: "scan_region k a r base region_len num =
      do { hit \<leftarrow> first; case hit of Some x \<Rightarrow> Some (Some x) | None \<Rightarrow> again }"
    unfolding scan_region_def Let_def first_def again_def start0_def max_start_def by (rule refl)
  have q_iff: "q + num \<le> region_len \<longleftrightarrow> q \<le> max_start" for q
    using assms(3) by (auto simp: max_start_def)
  have 1: "case first of None \<Rightarrow> False
    | Some None \<Rightarrow> \<forall>q. start0 \<le> q \<and> q \<le> max_start \<longrightarrow> \<not> run_free a (base + q) num
    | Some (Some (f, b)) \<Rightarrow>
        \<exists>q\<le>max_start. f = first_frame r + 4096 * q \<and> took a b (base + q) num"
    using scan_starts_result [OF assms(1), of base start0 "max_start + 1 - start0" num r] assms(2,3) le
    by (fastforce simp: first_def max_start_def split: option.splits)
  have 2: "case again of None \<Rightarrow> False
    | Some None \<Rightarrow> (\<forall>q < start0. \<not> run_free a (base + q) num)
    | Some (Some (f, b)) \<Rightarrow>
        \<exists>q\<le>max_start. f = first_frame r + 4096 * q \<and> took a b (base + q) num"
    using scan_starts_result [OF assms(1), of base 0 "min start0 (max_start + 1)" num r] assms(2,3) le
    by (fastforce simp: again_def max_start_def split: option.splits)
  show ?thesis
    using 1 2 unfolding eq q_iff
    by (auto split: option.splits) (meson not_le)
qed

end

text \<open>The run of \<open>n\<close> frames that starts at frame \<open>f\<close>.\<close>

definition frame_run :: "nat \<Rightarrow> nat \<Rightarrow> nat set" where
  "frame_run f n = (\<lambda>j. f + 4096 * j) ` {..<n}"

lemma pool_run:
  assumes "i < length (regions a)" "q + n \<le> frame_count (regions a ! i)"
  shows "(\<lambda>j. pool a ! (base_of (regions a) i + q + j)) ` {..<n} =
    frame_run (first_frame (regions a ! i) + 4096 * q) n"
proof -
  have "pool a ! (base_of (regions a) i + q + j) = first_frame (regions a ! i) + 4096 * q + 4096 * j"
    if "j < n" for j
    using nth_concat_region [OF assms(1), of "q + j"] assms(2) that by (simp add: pool_def add.assoc)
  then show ?thesis by (auto simp: frame_run_def)
qed

lemma region_end_bound:
  assumes "fa_wf a" "i < length (regions a)"
  shows "base_of (regions a) i + frame_count (regions a ! i) \<le> length (pool a)"
proof -
  have "base_of (regions a) (Suc i) \<le> base_of (regions a) (length (regions a))"
    using assms(2) by (intro base_of_mono) simp
  then show ?thesis using assms(2) by (simp add: base_of_Suc base_of_all pool_def)
qed

lemma run_free_frames:
  assumes "fa_wf a" "i < length (regions a)" "q + n \<le> frame_count (regions a ! i)"
  shows "run_free a (base_of (regions a) i + q) n \<longleftrightarrow>
    frame_run (first_frame (regions a ! i) + 4096 * q) n \<inter> used a = {}"
proof -
  have "base_of (regions a) i + q + j < length (pool a)" if "j < n" for j
    using region_end_bound [OF assms(1,2)] assms(3) that by simp
  then show ?thesis
    unfolding pool_run [OF assms(2,3), symmetric] run_free_def
    using used_iff [OF assms(1)] by auto
qed

text \<open>
  The abstract effect of a contiguous allocation of \<open>n\<close> frames: a free run \<open>f\<close> of the pool that
  lies in one region and satisfies \<open>P\<close> was taken.
\<close>

definition free_run :: "frame_allocator \<Rightarrow> (nat \<Rightarrow> bool) \<Rightarrow> nat \<Rightarrow> nat \<Rightarrow> bool" where
  "free_run a P n f \<longleftrightarrow> P f \<and> frame_run f n \<inter> used a = {} \<and>
     (\<exists>r\<in>set (regions a). \<exists>q. f = first_frame r + 4096 * q \<and> q + n \<le> frame_count r)"

definition run_taken :: "frame_allocator \<Rightarrow> (nat \<Rightarrow> bool) \<Rightarrow> nat \<Rightarrow> nat \<Rightarrow> frame_allocator \<Rightarrow> bool" where
  "run_taken a P n f b \<longleftrightarrow> free_run a P n f \<and> fa_wf b \<and> pool b = pool a \<and> regions b = regions a
     \<and> frame_run f n \<subseteq> set (pool a) \<and> used b = used a \<union> frame_run f n"

lemma took_run_taken:
  assumes "fa_wf a" "i < length (regions a)" "q + n \<le> frame_count (regions a ! i)"
    "took a b (base_of (regions a) i + q) n" "P (first_frame (regions a ! i) + 4096 * q)"
  shows "run_taken a P n (first_frame (regions a ! i) + 4096 * q) b"
proof -
  let ?f = "first_frame (regions a ! i) + 4096 * q"
  have img: "(\<lambda>j. pool a ! (base_of (regions a) i + q + j)) ` {..<n} = frame_run ?f n"
    by (rule pool_run [OF assms(2,3)])
  note u = took_used [OF assms(1,4), unfolded img]
  have "regions b = regions a" using assms(4) by (simp add: took_def same_poolD)
  moreover have "regions a ! i \<in> set (regions a)" using assms(2) by simp
  ultimately show ?thesis
    using u took_wf [OF assms(4,1)] assms(3,5) unfolding run_taken_def free_run_def by blast
qed


lemma no_free_run:
  assumes "\<forall>r\<in>set (regions a). \<forall>q. q + n \<le> frame_count r \<and> P (first_frame r + 4096 * q) \<longrightarrow>
      frame_run (first_frame r + 4096 * q) n \<inter> used a \<noteq> {}"
  shows "\<not> free_run a P n f"
  using assms by (auto simp: free_run_def)

text \<open>
  What a search over the regions from \<open>i\<close> on must return: both contiguous searches have it.
\<close>

definition search_ok :: "frame_allocator \<Rightarrow> (nat \<Rightarrow> bool) \<Rightarrow> nat \<Rightarrow> nat
    \<Rightarrow> (nat option \<times> frame_allocator) rs \<Rightarrow> bool" where
  "search_ok a P num i res = (case res of
      None \<Rightarrow> False
    | Some (None, b) \<Rightarrow> b = a \<and> (\<forall>r\<in>set (drop i (regions a)). \<forall>q.
        q + num \<le> frame_count r \<and> P (first_frame r + 4096 * q) \<longrightarrow>
        frame_run (first_frame r + 4096 * q) num \<inter> used a \<noteq> {})
    | Some (Some f, b) \<Rightarrow> run_taken a P num f b)"

lemma search_ok_skip:
  assumes "i < length (regions a)" "search_ok a P num (Suc i) res"
    "\<And>q. q + num \<le> frame_count (regions a ! i) \<Longrightarrow> P (first_frame (regions a ! i) + 4096 * q) \<Longrightarrow>
       frame_run (first_frame (regions a ! i) + 4096 * q) num \<inter> used a \<noteq> {}"
  shows "search_ok a P num i res"
proof -
  have "drop i (regions a) = regions a ! i # drop (Suc i) (regions a)"
    using assms(1) by (simp add: Cons_nth_drop_Suc)
  then show ?thesis
    using assms(2,3) by (auto simp: search_ok_def split: option.splits)
qed

lemma search_ok_cases:
  assumes "search_ok a P num 0 res"
  obtains "res = Some (None, a)" "\<And>f. \<not> free_run a P num f"
    | f b where "res = Some (Some f, b)" "run_taken a P num f b"
proof -
  obtain r b where res: "res = Some (r, b)"
    using assms by (cases res) (auto simp: search_ok_def)
  show ?thesis
  proof (cases r)
    case None
    with assms res no_free_run [of a num P] that(1) show ?thesis by (simp add: search_ok_def)
  next
    case (Some f)
    with assms res that(2) show ?thesis by (simp add: search_ok_def)
  qed
qed

lemma search_ok_end: "length (regions a) \<le> i \<Longrightarrow> search_ok a P num i (Some (None, a))"
  by (simp add: search_ok_def)

context frame_crates
begin

text \<open>One region of either search: \<open>len\<close> of its frames are admissible.\<close>

lemma scan_region_step:
  assumes wf: "fa_wf a" and i: "i < length (regions a)"
    and num: "num \<le> len" "len \<le> frame_count (regions a ! i)"
    and P: "\<And>q. q + num \<le> frame_count (regions a ! i) \<Longrightarrow>
      P (first_frame (regions a ! i) + 4096 * q) \<longleftrightarrow> q + num \<le> len"
    and rest: "search_ok a P num (Suc i) rest"
  shows "search_ok a P num i
    (do { hit \<leftarrow> scan_region k a (regions a ! i) (base_of (regions a) i) len num;
          case hit of Some (f, b) \<Rightarrow> Some (Some f, b) | None \<Rightarrow> rest })"
proof -
  have bnd: "base_of (regions a) i + len \<le> length (pool a)"
    using region_end_bound [OF wf i] num by simp
  note scan = scan_region_result [OF wf bnd num(1), of "regions a ! i"]
  show ?thesis
  proof (cases "scan_region k a (regions a ! i) (base_of (regions a) i) len num")
    case None
    with scan show ?thesis by simp
  next
    case (Some hit)
    show ?thesis
    proof (cases hit)
      case None
      have "frame_run (first_frame (regions a ! i) + 4096 * q) num \<inter> used a \<noteq> {}"
        if "q + num \<le> frame_count (regions a ! i)" "P (first_frame (regions a ! i) + 4096 * q)" for q
        using scan that P run_free_frames [OF wf i that(1)] \<open>scan_region _ _ _ _ _ _ = Some hit\<close> None
        by auto
      then show ?thesis
        using search_ok_skip [OF i rest] \<open>scan_region _ _ _ _ _ _ = Some hit\<close> None by simp
    next
      case (Some fb)
      obtain f b where fb: "fb = (f, b)" by (cases fb)
      with scan Some \<open>scan_region _ _ _ _ _ _ = Some hit\<close> obtain q where
        q: "q + num \<le> len" "f = first_frame (regions a ! i) + 4096 * q"
          "took a b (base_of (regions a) i + q) num"
        by auto
      then have "run_taken a P num f b"
        using took_run_taken [OF wf i _ q(3)] num P by simp
      with Some fb \<open>scan_region _ _ _ _ _ _ = Some hit\<close> show ?thesis by (simp add: search_ok_def)
    qed
  qed
qed

lemma contiguous_loop_ok:
  assumes "fa_wf a" "n + i = regions_count a"
  shows "search_ok a (\<lambda>_. True) num i (contiguous_loop k a num n i (base_of (regions a) i))"
  using assms(2)
proof (induction n arbitrary: i)
  case 0
  then show ?case using assms(1) by (simp add: search_ok_end length_regions)
next
  case (Suc n)
  have len: "i < length (regions a)" using Suc.prems assms(1) by (simp add: length_regions)
  have slot: "idx (usable_regions a) i = Some (Some (regions a ! i))"
    using slot_region [OF assms(1)] Suc.prems by simp
  have IH: "search_ok a (\<lambda>_. True) num (Suc i)
      (contiguous_loop k a num n (Suc i) (base_of (regions a) i + frame_count (regions a ! i)))"
    using Suc.IH [of "Suc i"] Suc.prems len by (simp add: base_of_Suc)
  show ?case
  proof (cases "frame_count (regions a ! i) < num")
    case True
    with search_ok_skip [OF len IH] slot show ?thesis by simp
  next
    case False
    with scan_region_step [OF assms(1) len _ order_refl _ IH] slot show ?thesis by simp
  qed
qed

lemma max_pages_iff:
  assumes "max_addr + 1 < 2 ^ 64" "first \<le> max_addr"
  shows "m \<le> max_pages_by_addr max_addr first \<longleftrightarrow> first + 4096 * m \<le> max_addr + 1"
  using assms by (auto simp: max_pages_by_addr_def less_eq_div_iff_mult_less_eq)

lemma contiguous_below_loop_ok:
  assumes "fa_wf a" "n + i = regions_count a" "max_addr + 1 < 2 ^ 64" "0 < num"
  shows "search_ok a (\<lambda>f. f + 4096 * num \<le> max_addr + 1) num i
    (contiguous_below_loop k a num max_addr n i (base_of (regions a) i))"
  using assms(2)
proof (induction n arbitrary: i)
  case 0
  then show ?case using assms(1) by (simp add: search_ok_end length_regions)
next
  case (Suc n)
  let ?P = "\<lambda>f. f + 4096 * num \<le> max_addr + 1"
  let ?r = "regions a ! i"
  let ?len = "min (frame_count ?r) (max_pages_by_addr max_addr (first_frame ?r))"
  have len: "i < length (regions a)" using Suc.prems assms(1) by (simp add: length_regions)
  have slot: "idx (usable_regions a) i = Some (Some ?r)"
    using slot_region [OF assms(1)] Suc.prems by simp
  have IH: "search_ok a ?P num (Suc i)
      (contiguous_below_loop k a num max_addr n (Suc i) (base_of (regions a) i + frame_count ?r))"
    using Suc.IH [of "Suc i"] Suc.prems len by (simp add: base_of_Suc)
  consider (short) "frame_count ?r < num" | (high) "first_frame ?r > max_addr"
    | (fits) "num \<le> frame_count ?r" "first_frame ?r \<le> max_addr"
    by linarith
  then show ?case
  proof cases
    case short
    with search_ok_skip [OF len IH] slot show ?thesis by simp
  next
    case high
    with search_ok_skip [OF len IH] slot assms(4) show ?thesis by simp
  next
    case fits
    have P: "?P (first_frame ?r + 4096 * q) \<longleftrightarrow> q + num \<le> ?len" if "q + num \<le> frame_count ?r" for q
      using max_pages_iff [OF assms(3) fits(2), of "q + num"] that by (simp add: algebra_simps)
    show ?thesis
    proof (cases "?len < num")
      case True
      then have "\<not> ?P (first_frame ?r + 4096 * q)" if "q + num \<le> frame_count ?r" for q
        using P [OF that] by (auto simp: min_less_iff_disj)
      with search_ok_skip [OF len IH] True fits slot show ?thesis
        by (simp add: Let_def min_less_iff_disj)
    next
      case False
      with scan_region_step [OF assms(1) len _ _ P IH] fits slot show ?thesis
        by (simp add: Let_def)
    qed
  qed
qed

lemma allocate_contiguous_result:
  assumes "fa_wf a" "0 < num"
  obtains (none) "allocate_contiguous k a num = Some (None, a)"
        "\<And>f. \<not> free_run a (\<lambda>_. True) num f"
    | (run) f b where "allocate_contiguous k a num = Some (Some f, b)"
        "run_taken a (\<lambda>_. True) num f b"
proof -
  have "search_ok a (\<lambda>_. True) num 0 (allocate_contiguous k a num)"
    using contiguous_loop_ok [OF assms(1), of "regions_count a" 0 num] assms(2)
    by (simp add: allocate_contiguous_def)
  then show ?thesis
    using none run by (rule search_ok_cases)
qed

lemma allocate_contiguous_below_result:
  assumes "fa_wf a" "0 < num" "max_addr + 1 < 2 ^ 64"
  obtains (none) "allocate_contiguous_below k a num max_addr = Some (None, a)"
        "\<And>f. \<not> free_run a (\<lambda>f. f + 4096 * num \<le> max_addr + 1) num f"
    | (run) f b where "allocate_contiguous_below k a num max_addr = Some (Some f, b)"
        "run_taken a (\<lambda>f. f + 4096 * num \<le> max_addr + 1) num f b"
proof -
  have "search_ok a (\<lambda>f. f + 4096 * num \<le> max_addr + 1) num 0
      (allocate_contiguous_below k a num max_addr)"
    using contiguous_below_loop_ok [OF assms(1) _ assms(3,2), of "regions_count a" 0] assms(2)
    by (simp add: allocate_contiguous_below_def)
  then show ?thesis
    using none run by (rule search_ok_cases)
qed

end


section \<open>Initialisation\<close>

text \<open>
  What the boot loader promises of its memory map: usable entries are page-aligned and do not
  overlap each other.
\<close>

definition entries_apart :: "mem_entry \<Rightarrow> mem_entry \<Rightarrow> bool" where
  "entries_apart e d \<longleftrightarrow>
     e_base e + e_length e \<le> e_base d \<or> e_base d + e_length d \<le> e_base e"

fun mem_map_ok :: "mem_entry list \<Rightarrow> bool" where
  "mem_map_ok [] \<longleftrightarrow> True"
| "mem_map_ok (e # es) \<longleftrightarrow>
     (e_usable e \<longrightarrow> e_base e mod 4096 = 0 \<and> e_length e mod 4096 = 0 \<and>
        list_all (\<lambda>d. e_usable d \<longrightarrow> entries_apart e d) es) \<and> mem_map_ok es"

definition frame_in_entry :: "nat \<Rightarrow> mem_entry \<Rightarrow> bool" where
  "frame_in_entry f e \<longleftrightarrow> e_usable e \<and> e_base e \<le> f \<and> f + 4096 \<le> e_base e + e_length e"

text \<open>The frames of the pool keep clear of the bitmap, which lies at \<open>p\<close>.\<close>

definition clear_of_bitmap :: "nat \<Rightarrow> frame_allocator \<Rightarrow> nat \<Rightarrow> bool" where
  "clear_of_bitmap n a p \<longleftrightarrow>
     (\<forall>f\<in>set (pool a). f + 4096 \<le> p \<or> p + bitmap_storage_of n \<le> f)"

definition init_inv :: "nat \<Rightarrow> mem_entry list \<Rightarrow> frame_allocator \<Rightarrow> nat option \<Rightarrow> bool" where
  "init_inv n done a addr \<longleftrightarrow>
     length (usable_regions a) = MAX_REGIONS \<and> regions_count a \<le> MAX_REGIONS \<and>
     (\<forall>i<regions_count a. usable_regions a ! i \<noteq> None) \<and>
     (\<forall>r\<in>set (regions a). region_ok r) \<and>
     distinct (pool a) \<and> frames_count a = length (pool a) \<and> frames_count a \<le> map_frames done \<and>
     (\<forall>f\<in>set (pool a). \<exists>e\<in>set done. frame_in_entry f e) \<and>
     (case addr of None \<Rightarrow> True
      | Some p \<Rightarrow> bitmap a = replicate (bitmap_size_of n div 8) 0 \<and> clear_of_bitmap n a p \<and>
          (\<exists>e\<in>set done. e_usable e \<and> e_base e = p \<and> bitmap_storage_of n \<le> e_length e))"

lemma map_frames_snoc:
  "map_frames (ds @ [e]) = map_frames ds + (if e_usable e then e_length e div 4096 else 0)"
  by (simp add: map_frames_def)

lemma init_inv_skip: "init_inv n ds a addr \<Longrightarrow> init_inv n (ds @ [e]) a addr"
  by (simp add: init_inv_def map_frames_snoc bex_Un split: option.splits)

lemma frame_apart:
  "frame_in_entry f d \<Longrightarrow> entries_apart d e \<Longrightarrow> f + 4096 \<le> e_base e \<or> e_base e + e_length e \<le> f"
  unfolding frame_in_entry_def entries_apart_def by linarith

lemma init_inv_empty: "init_inv n [] empty_allocator None"
  by (simp add: init_inv_def empty_allocator_def regions_def pool_def map_frames_def)

lemma init_inv_frame:
  assumes "init_inv n ds a addr" "f \<in> set (pool a)"
  obtains d where "d \<in> set ds" "e_usable d" "frame_in_entry f d"
proof -
  have "\<forall>f\<in>set (pool a). \<exists>e\<in>set ds. frame_in_entry f e"
    using assms(1) by (simp add: init_inv_def)
  with assms(2) obtain d where "d \<in> set ds" "frame_in_entry f d" by blast
  then show ?thesis by (intro that [of d]) (simp_all add: frame_in_entry_def)
qed

lemma init_inv_place:
  assumes "init_inv n ds a None" "e_usable e" "bitmap_storage_of n \<le> e_length e"
    "\<forall>d\<in>set ds. e_usable d \<longrightarrow> entries_apart d e"
  shows "init_inv n (ds @ [e]) (a\<lparr>bitmap := replicate (bitmap_size_of n div 8) 0\<rparr>) (Some (e_base e))"
proof -
  let ?a = "a\<lparr>bitmap := replicate (bitmap_size_of n div 8) 0\<rparr>"
  have same: "regions ?a = regions a" "pool ?a = pool a"
    by (simp_all add: regions_def pool_def)
  have "f + 4096 \<le> e_base e \<or> e_base e + bitmap_storage_of n \<le> f" if f: "f \<in> set (pool a)" for f
  proof -
    obtain d where d: "d \<in> set ds" "e_usable d" "frame_in_entry f d"
      using assms(1) f by (rule init_inv_frame)
    then have "entries_apart d e" using assms(4) by blast
    from frame_apart [OF d(3) this] show ?thesis using assms(3) by linarith
  qed
  then have "clear_of_bitmap n ?a (e_base e)" by (simp add: clear_of_bitmap_def same)
  with init_inv_skip [OF assms(1), of e] assms(2,3) show ?thesis
    by (simp add: init_inv_def same)
qed

lemma push_region:
  assumes "regions_count a < length (usable_regions a)"
  shows "regions (add_region a r) = regions a @ [r]"
    "pool (add_region a r) = pool a @ region_frames r"
proof -
  show "regions (add_region a r) = regions a @ [r]"
    using assms by (simp add: regions_def add_region_def take_Suc_conv_app_nth)
  then show "pool (add_region a r) = pool a @ region_frames r" by (simp add: pool_def)
qed

lemma add_region_simps [simp]:
  "length (usable_regions (add_region a r)) = length (usable_regions a)"
  "regions_count (add_region a r) = Suc (regions_count a)"
  "frames_count (add_region a r) = frames_count a + frame_count r"
  "bitmap (add_region a r) = bitmap a"
  by (simp_all add: add_region_def)

lemma add_region_slots:
  assumes "regions_count a < length (usable_regions a)" "\<forall>i<regions_count a. usable_regions a ! i \<noteq> None"
  shows "\<forall>i<regions_count (add_region a r). usable_regions (add_region a r) ! i \<noteq> None"
  using assms by (auto simp: add_region_def nth_list_update less_Suc_eq)

lemma pages_between:
  fixes s e :: nat
  assumes "s mod 4096 = 0" "e mod 4096 = 0" "s + 4096 \<le> e"
  shows "((e - 1) - (e - 1) mod 4096 - s) div 4096 + 1 = (e - s) div 4096"
proof -
  obtain m where m: "s = 4096 * m" using assms(1) by (auto simp: mod_eq_0_iff_dvd elim: dvdE)
  obtain l where l: "e = 4096 * l" using assms(2) by (auto simp: mod_eq_0_iff_dvd elim: dvdE)
  have "m < l" using m l assms(3) by simp
  then obtain d where d: "l = m + Suc d" using less_iff_Suc_add by auto
  have "e - 1 = 4096 * (m + d) + 4095" using l d by simp
  moreover have "(4096 * (m + d) + 4095) mod 4096 = 4095" unfolding mod_mult_self4 by simp
  ultimately have "(e - 1) - (e - 1) mod 4096 = 4096 * (m + d)" by simp
  then show ?thesis using m l d by simp
qed

context frame_crates
begin

lemma new_region:
  fixes s e :: nat
  assumes "s mod 4096 = 0" "e mod 4096 = 0" "s + 4096 \<le> e"
  defines "r \<equiv> usable_region_new k s e"
  shows "first_frame r = s" "frame_count r = (e - s) div 4096" "region_ok r"
    "\<And>f. f \<in> set (region_frames r) \<Longrightarrow> s \<le> f \<and> f + 4096 \<le> e"
proof -
  show first: "first_frame r = s"
    using assms(1) by (simp add: r_def usable_region_new_def frame_at_def containing Let_def)
  show count: "frame_count r = (e - s) div 4096"
    using pages_between [OF assms(1-3)] assms(1)
    by (simp add: r_def usable_region_new_def frame_at_def containing Let_def)
  then show "region_ok r" using first assms(1,3) by (simp add: region_ok_def div_greater_zero_iff)
  fix f
  assume "f \<in> set (region_frames r)"
  then obtain j where j: "f = s + 4096 * j" "j < (e - s) div 4096"
    using first count by (auto simp: region_frames_def)
  then have "4096 * Suc j \<le> 4096 * ((e - s) div 4096)" by simp
  also have "\<dots> \<le> e - s" by (rule times_div_less_eq_dividend)
  finally have "4096 * Suc j \<le> e - s" .
  with j assms(3) show "s \<le> f \<and> f + 4096 \<le> e" by simp
qed


text \<open>
  Recording what is left of entry \<open>e\<close>, from \<open>s\<close> on: the invariant already holds with \<open>e\<close> among
  the entries seen, and the frames recorded so far lie outside \<open>e\<close>.
\<close>

lemma init_inv_region:
  fixes s :: nat
  assumes inv: "init_inv n (ds @ [e]) a addr"
    and room: "regions_count a < MAX_REGIONS"
    and e: "e_usable e" "e_base e mod 4096 = 0" "e_length e mod 4096 = 0"
    and old: "\<forall>f\<in>set (pool a). \<exists>d\<in>set ds. frame_in_entry f d" "frames_count a \<le> map_frames ds"
    and apart: "\<forall>d\<in>set ds. e_usable d \<longrightarrow> entries_apart d e"
    and s: "s mod 4096 = 0" "e_base e \<le> s" "s + 4096 \<le> e_base e + e_length e"
    and clear: "\<And>p. addr = Some p \<Longrightarrow> p + bitmap_storage_of n \<le> s \<or> e_base e + e_length e \<le> p"
  defines "r \<equiv> usable_region_new k s (e_base e + e_length e)"
  shows "init_inv n (ds @ [e]) (add_region a r) addr" (is "init_inv n _ ?b addr")
proof -
  have end_al: "(e_base e + e_length e) mod 4096 = 0"
    using e(2,3) by (metis mod_0 mod_add_eq add_0)
  note r = new_region [OF s(1) end_al s(3), folded r_def]
  have slots: "regions_count a < length (usable_regions a)"
    using inv room by (simp add: init_inv_def)
  note push = push_region [OF slots, of r]
  have in_e: "frame_in_entry f e" if "f \<in> set (region_frames r)" for f
    using r(4) [OF that] s(2) e(1) by (auto simp: frame_in_entry_def)
  have "f \<notin> set (pool a)" if f: "f \<in> set (region_frames r)" for f
  proof
    assume "f \<in> set (pool a)"
    then obtain d where "d \<in> set ds" "frame_in_entry f d" using old(1) by blast
    with apart have "f + 4096 \<le> e_base e \<or> e_base e + e_length e \<le> f"
      by (intro frame_apart [of f d e]) (simp_all add: frame_in_entry_def)
    with in_e [OF f] show False by (simp add: frame_in_entry_def)
  qed
  moreover have "distinct (region_frames r)"
    by (simp add: region_frames_def distinct_map inj_on_def)
  ultimately have dist: "distinct (pool ?b)"
    using inv by (auto simp: push init_inv_def)
  have "(e_base e + e_length e - s) div 4096 \<le> e_length e div 4096"
    using s(2) by (intro div_le_mono) simp
  then have count: "frames_count ?b \<le> map_frames (ds @ [e])"
    using old(2) e(1) r(2) by (simp add: map_frames_snoc)
  have clr: "clear_of_bitmap n ?b p" if p: "addr = Some p" for p
  proof -
    have "clear_of_bitmap n a p" using inv p by (simp add: init_inv_def)
    moreover have "f + 4096 \<le> p \<or> p + bitmap_storage_of n \<le> f" if "f \<in> set (region_frames r)" for f
      using clear [OF p] r(4) [OF that] by linarith
    ultimately show ?thesis by (auto simp: clear_of_bitmap_def push)
  qed
  have slots_ok: "\<forall>i<regions_count ?b. usable_regions ?b ! i \<noteq> None"
    using inv by (intro add_region_slots [OF slots]) (simp add: init_inv_def)
  have frames: "\<forall>f\<in>set (pool ?b). \<exists>d\<in>set (ds @ [e]). frame_in_entry f d"
    using old(1) in_e by (auto simp: push)
  have regs: "\<forall>r\<in>set (regions ?b). region_ok r"
    using inv r(3) by (auto simp: push init_inv_def)
  have addr: "case addr of None \<Rightarrow> True
      | Some p \<Rightarrow> bitmap ?b = replicate (bitmap_size_of n div 8) 0 \<and> clear_of_bitmap n ?b p \<and>
          (\<exists>e\<in>set (ds @ [e]). e_usable e \<and> e_base e = p \<and> bitmap_storage_of n \<le> e_length e)"
    using inv clr by (simp add: init_inv_def split: option.splits)
  have "length (usable_regions ?b) = MAX_REGIONS" "regions_count ?b \<le> MAX_REGIONS"
    "frames_count ?b = length (pool ?b)"
    using inv room by (simp_all add: init_inv_def push)
  with slots_ok frames regs addr dist count show ?thesis unfolding init_inv_def by blast
qed

lemma place_bitmap_inv:
  assumes "init_inv n ds a addr" "e_usable e" "\<forall>d\<in>set ds. e_usable d \<longrightarrow> entries_apart d e"
    "place_bitmap n e a addr = (a1, addr1)"
  shows "init_inv n (ds @ [e]) a1 addr1"
  using init_inv_skip [OF assms(1)] init_inv_place [OF _ assms(2) _ assms(3)] assms(1,4)
  by (auto simp: place_bitmap_def split: if_splits)

lemma place_bitmap_pool:
  "place_bitmap n e a addr = (a1, addr1) \<Longrightarrow> pool a1 = pool a \<and> frames_count a1 = frames_count a"
  by (auto simp: place_bitmap_def pool_def regions_def split: if_splits)

lemma entry_start_aligned:
  assumes "e_base e mod 4096 = 0"
  shows "entry_start n e addr mod 4096 = 0" "e_base e \<le> entry_start n e addr"
proof -
  have "4096 dvd bitmap_storage_of n" by (simp add: bitmap_storage_of_def)
  with assms show "entry_start n e addr mod 4096 = 0" by (auto simp: entry_start_def mod_eq_0_iff_dvd)
qed (simp add: entry_start_def)

lemma entry_start_clear:
  assumes "init_inv n ds a addr" "\<forall>d\<in>set ds. e_usable d \<longrightarrow> entries_apart d e"
    "place_bitmap n e a addr = (a1, addr1)" "addr1 = Some p"
  shows "p + bitmap_storage_of n \<le> entry_start n e addr1 \<or> e_base e + e_length e \<le> p"
proof (cases "p = e_base e")
  case True
  with assms(4) show ?thesis by (simp add: entry_start_def)
next
  case False
  with assms(3,4) have "addr = Some p" by (auto simp: place_bitmap_def split: if_splits)
  with assms(1) obtain d where
    d: "d \<in> set ds" "e_usable d" "e_base d = p" "bitmap_storage_of n \<le> e_length d"
    by (auto simp: init_inv_def)
  with assms(2) have "entries_apart d e" by blast
  with d False assms(4) show ?thesis unfolding entries_apart_def entry_start_def by auto
qed

lemma init_loop_inv:
  assumes "init_inv n ds a addr" "mem_map_ok es"
    "\<forall>d\<in>set ds. \<forall>e\<in>set es. e_usable d \<longrightarrow> e_usable e \<longrightarrow> entries_apart d e"
    "init_loop k n es a addr = (b, addr')"
  shows "\<exists>ds'. set ds' \<subseteq> set (ds @ es) \<and> map_frames ds' \<le> map_frames (ds @ es) \<and> init_inv n ds' b addr'"
  using assms
proof (induction es arbitrary: ds a addr)
  case Nil
  then show ?case by (intro exI [of _ ds]) simp
next
  case (Cons e es)
  have apart_rest: "\<forall>d\<in>set (ds @ [e]). \<forall>c\<in>set es. e_usable d \<longrightarrow> e_usable c \<longrightarrow> entries_apart d c"
    using Cons.prems(2,3) by (auto simp: list_all_iff)
  have IH: "\<exists>ds'. set ds' \<subseteq> set (ds @ e # es) \<and> map_frames ds' \<le> map_frames (ds @ e # es)
      \<and> init_inv n ds' b addr'"
    if "init_inv n (ds @ [e]) a1 addr1" "init_loop k n es a1 addr1 = (b, addr')" for a1 addr1
    using Cons.IH [OF that(1) _ apart_rest that(2)] Cons.prems(2) by simp
  show ?case
  proof (cases "e_usable e")
    case False
    with Cons.prems show ?thesis by (intro IH [OF init_inv_skip]) auto
  next
    case True
    obtain a1 addr1 where place: "place_bitmap n e a addr = (a1, addr1)" by fastforce
    have apart: "\<forall>d\<in>set ds. e_usable d \<longrightarrow> entries_apart d e" using Cons.prems(3) True by simp
    have inv1: "init_inv n (ds @ [e]) a1 addr1"
      by (rule place_bitmap_inv [OF Cons.prems(1) True apart place])
    note loop = Cons.prems(4) [unfolded init_loop.simps place, simplified True, simplified]
    consider (skip) "entry_consumed n e addr1"
      | (full) "\<not> entry_consumed n e addr1" "MAX_REGIONS \<le> regions_count a1"
      | (add) "\<not> entry_consumed n e addr1" "regions_count a1 < MAX_REGIONS" by linarith
    then show ?thesis
    proof cases
      case skip
      with loop show ?thesis by (intro IH [OF inv1]) simp
    next
      case full
      with loop have "b = a1" "addr' = addr1" by simp_all
      moreover have "map_frames (ds @ [e]) \<le> map_frames (ds @ e # es)" by (simp add: map_frames_def)
      ultimately show ?thesis using inv1 by (intro exI [of _ "ds @ [e]"]) auto
    next
      case add
      have al: "e_base e mod 4096 = 0" "e_length e mod 4096 = 0" using Cons.prems(2) True by simp_all
      have old: "\<forall>f\<in>set (pool a1). \<exists>d\<in>set ds. frame_in_entry f d" "frames_count a1 \<le> map_frames ds"
        using Cons.prems(1) place_bitmap_pool [OF place] by (simp_all add: init_inv_def)
      have fits: "entry_start n e addr1 + 4096 \<le> e_base e + e_length e"
        using add(1) unfolding entry_consumed_def by linarith
      show ?thesis
        using loop add init_inv_region [OF inv1 add(2) True al old apart entry_start_aligned [OF al(1)]
            fits entry_start_clear [OF Cons.prems(1) apart place]]
        by (intro IH) simp_all
    qed
  qed
qed

lemma init_inv_wf:
  assumes "init_inv n ds a (Some p)" "map_frames ds \<le> n"
  shows "fa_wf a" "used a = {}" "clear_of_bitmap n a p"
proof -
  have bm: "bitmap a = replicate ((n + 63) div 64) 0"
    using assms(1) by (simp add: init_inv_def bitmap_size_of_def)
  have cnt: "frames_count a \<le> n" "frames_count a = length (pool a)"
    using assms by (auto simp: init_inv_def)
  have "n \<le> 64 * ((n + 63) div 64)" by linarith
  then show "fa_wf a" using assms(1) cnt bm by (simp add: init_inv_def fa_wf_def)
  have "\<not> bit_at a i" if "i < frames_count a" for i
  proof -
    have "(i + 64) div 64 \<le> (n + 63) div 64" using that cnt(1) by (intro div_le_mono) simp
    then have "i div 64 < (n + 63) div 64" by simp
    then show ?thesis by (simp add: bit_at_def bm)
  qed
  then show "used a = {}" by (auto simp: used_def)
  show "clear_of_bitmap n a p" using assms(1) by (simp add: init_inv_def)
qed

lemma init_result:
  assumes "mem_map_ok mm" "init k mm = Some a"
  obtains p where "fa_wf a" "used a = {}" "clear_of_bitmap (map_frames mm) a p"
    "\<exists>e\<in>set mm. e_usable e \<and> e_base e = p \<and> bitmap_storage_of (map_frames mm) \<le> e_length e"
    "\<forall>f\<in>set (pool a). \<exists>e\<in>set mm. frame_in_entry f e"
proof -
  obtain p where loop: "init_loop k (map_frames mm) mm empty_allocator None = (a, Some p)"
    using assms(2) by (auto simp: init_def split: prod.splits option.splits)
  obtain ds where ds: "set ds \<subseteq> set mm" "map_frames ds \<le> map_frames mm"
    "init_inv (map_frames mm) ds a (Some p)"
    using init_loop_inv [OF init_inv_empty assms(1) _ loop] by auto
  note wf = init_inv_wf [OF ds(3,2)]
  have "\<exists>e\<in>set ds. e_usable e \<and> e_base e = p \<and> bitmap_storage_of (map_frames mm) \<le> e_length e"
    "\<forall>f\<in>set (pool a). \<exists>e\<in>set ds. frame_in_entry f e"
    using ds(3) by (simp_all add: init_inv_def)
  with ds(1) have "\<exists>e\<in>set mm. e_usable e \<and> e_base e = p \<and> bitmap_storage_of (map_frames mm) \<le> e_length e"
    "\<forall>f\<in>set (pool a). \<exists>e\<in>set mm. frame_in_entry f e"
    by blast+
  with wf show ?thesis by (rule that)
qed

end


section \<open>Counting\<close>

lemma count_ones_card: "count_ones w = card {j. j < 64 \<and> bit w j}"
  by (simp add: count_ones_def length_filter_conv_card) (metis (no_types, lifting) add_0 nth_upt)

lemma bits_of_word:
  assumes "i < length (bitmap a)" "m \<le> 64"
  shows "card {j. 64 * i \<le> j \<and> j < 64 * i + m \<and> bit_at a j} = card {j. j < m \<and> bit (bitmap a ! i) j}"
proof -
  have "{j. 64 * i \<le> j \<and> j < 64 * i + m \<and> bit_at a j} =
      (\<lambda>j. 64 * i + j) ` {j. j < m \<and> bit (bitmap a ! i) j}" (is "?L = ?R")
  proof
    show "?L \<subseteq> ?R"
    proof
      fix x
      assume x: "x \<in> ?L"
      then obtain j where "x = 64 * i + j" "j < m" by (auto simp: le_iff_add)
      with x assms(2) show "x \<in> ?R" by (auto simp: bit_at_def)
    qed
  qed (use assms(2) in \<open>auto simp: bit_at_def\<close>)
  then show ?thesis by (simp add: card_image)
qed

lemma count_words_card:
  assumes "i + n \<le> length (bitmap a)"
  shows "count_words a n i u = Some (u + card {j. 64 * i \<le> j \<and> j < 64 * (i + n) \<and> bit_at a j})"
  using assms
proof (induction n arbitrary: i u)
  case 0
  have "{j. 64 * i \<le> j \<and> j < 64 * i \<and> bit_at a j} = {}" by auto
  then show ?case by simp
next
  case (Suc n)
  let ?A = "{j. 64 * i \<le> j \<and> j < 64 * i + 64 \<and> bit_at a j}"
  let ?B = "{j. 64 * Suc i \<le> j \<and> j < 64 * (Suc i + n) \<and> bit_at a j}"
  have "{j. 64 * i \<le> j \<and> j < 64 * (i + Suc n) \<and> bit_at a j} = ?A \<union> ?B" by auto
  moreover have "card (?A \<union> ?B) = card ?A + card ?B" by (rule card_Un_disjoint) auto
  moreover have "card ?A = count_ones (bitmap a ! i)"
    using bits_of_word [of i a 64] Suc.prems by (simp add: count_ones_card)
  ultimately show ?case using Suc by (simp add: add.assoc)
qed

lemma masked_ones:
  assumes "m < 64"
  shows "count_ones (w AND (push_bit m 1 - 1)) = card {j. j < m \<and> bit w j}"
proof -
  have "push_bit m 1 - 1 = (mask m :: u64)" by (simp add: mask_eq_exp_minus_1)
  then have "{j. j < 64 \<and> bit (w AND (push_bit m 1 - 1)) j} = {j. j < m \<and> bit w j}"
    using assms by (auto simp: bit_and_iff bit_mask_iff)
  then show ?thesis by (simp add: count_ones_card)
qed

lemma allocated_frames_used:
  assumes "fa_wf a"
  shows "allocated_frames a = Some (card (used a))"
proof -
  let ?N = "frames_count a" and ?A = "{j. j < frames_count a \<and> bit_at a j}"
  have len: "?N = length (pool a)" "distinct (pool a)" "?N \<le> 64 * length (bitmap a)"
    using assms by (auto simp: fa_wf_def)
  have "inj_on (nth (pool a)) ?A" using len by (auto simp: inj_on_def nth_eq_iff_index_eq)
  moreover have "used a = nth (pool a) ` ?A" by (auto simp: used_def)
  ultimately have card_used: "card (used a) = card ?A" by (simp add: card_image)
  let ?full = "{j. j < 64 * (?N div 64) \<and> bit_at a j}"
  let ?rest = "{j. 64 * (?N div 64) \<le> j \<and> j < 64 * (?N div 64) + ?N mod 64 \<and> bit_at a j}"
  have split: "?A = ?full \<union> ?rest" using mult_div_mod_eq [of 64 ?N] by auto
  have "card (?full \<union> ?rest) = card ?full + card ?rest" by (rule card_Un_disjoint) auto
  with split card_used have total: "card (used a) = card ?full + card ?rest" by simp
  have words: "count_words a (?N div 64) 0 0 = Some (card ?full)"
    using count_words_card [of 0 "?N div 64" a 0] len(3) by simp
  show ?thesis
  proof (cases "?N mod 64 = 0")
    case True
    then have "?rest = {}" by auto
    with True words total show ?thesis by (auto simp: allocated_frames_def card_used)
  next
    case False
    have idx: "?N div 64 < length (bitmap a)"
      using len(3) False by (metis div_less_iff_less_mult div_mult_mod_eq le_neq_implies_less
          mod_mult_self1_is_0 mult.commute zero_less_numeral)
    have "card ?rest = card {j. j < ?N mod 64 \<and> bit (bitmap a ! (?N div 64)) j}"
      by (rule bits_of_word [OF idx]) simp
    also have "\<dots> = count_ones (bitmap a ! (?N div 64) AND (push_bit (?N mod 64) 1 - 1))"
      by (rule masked_ones [symmetric]) simp
    finally have "card ?rest = \<dots>" .
    moreover have "?N \<noteq> 0" using False by (intro notI) simp
    ultimately show ?thesis using False words total idx by (simp add: allocated_frames_def)
  qed
qed

section \<open>The documented crate behaviour\<close>

definition std_crates :: crate_ops where
  "std_crates = \<lparr>bf_get_bit = bit, bf_set_bit = (\<lambda>w i v. if v then set_bit i w else unset_bit i w),
     pf_containing_address = (\<lambda>a. a - a mod 4096), pf_add = (\<lambda>f n. f + 4096 * n)\<rparr>"

interpretation std: frame_crates std_crates
  by unfold_locales (auto simp: std_crates_def bit_set_bit_iff bit_unset_bit_iff)


section \<open>Properties\<close>

text \<open>
  C3. Allocating a frame never panics, keeps the allocator well-formed and its pool fixed, and
  either returns a frame of the pool that was not in use and is in use afterwards, with every other
  frame as it was, or returns nothing, and then every frame of the pool was in use.
\<close>

theorem allocate_frame_correct:
  assumes "frame_crates k" "fa_wf a"
  shows "\<exists>r b. allocate_frame k a = Some (r, b) \<and> fa_wf b \<and> pool b = pool a \<and>
    (case r of
       None \<Rightarrow> b = a \<and> used a = set (pool a)
     | Some f \<Rightarrow> f \<in> set (pool a) - used a \<and> used b = insert f (used a))"
  using assms(2) by (cases rule: frame_crates.allocate_frame_result [OF assms]) auto

text \<open>
  C15. Releasing a page-aligned frame never panics and removes exactly that frame from the frames in
  use; a frame outside the pool, and a frame that is not in use, leave the frames in use unchanged.
\<close>

theorem deallocate_frame_correct:
  assumes "frame_crates k" "fa_wf a" "f mod 4096 = 0"
  shows "\<exists>b. deallocate_frame k a f = Some b \<and> fa_wf b \<and> pool b = pool a \<and> used b = used a - {f}"
  by (rule frame_crates.deallocate_frame_result [OF assms]) blast

text \<open>
  C16. A contiguous allocation of at least one page never panics; it takes a run of free frames that
  lies inside one usable region and marks exactly that run, or it returns nothing and changes
  nothing, and then no usable region has a free run of that length.
\<close>

theorem allocate_contiguous_correct:
  assumes "frame_crates k" "fa_wf a" "0 < n"
  shows "\<exists>r b. allocate_contiguous k a n = Some (r, b) \<and>
    (case r of
       None \<Rightarrow> b = a \<and> (\<forall>f. \<not> free_run a (\<lambda>_. True) n f)
     | Some f \<Rightarrow> run_taken a (\<lambda>_. True) n f b)"
  by (cases rule: frame_crates.allocate_contiguous_result [OF assms]) auto


text \<open>
  C18. Initialisation from a page-aligned, non-overlapping memory map yields a well-formed allocator
  with no frame in use, whose frames all lie in usable entries and none of which overlaps the pages
  the bitmap occupies at the start of a usable entry.
\<close>

theorem init_correct:
  assumes "frame_crates k" "mem_map_ok mm" "init k mm = Some a"
  shows "fa_wf a \<and> used a = {} \<and> (\<forall>f\<in>set (pool a). \<exists>e\<in>set mm. frame_in_entry f e) \<and>
    (\<exists>p. clear_of_bitmap (map_frames mm) a p \<and>
      (\<exists>e\<in>set mm. e_usable e \<and> e_base e = p \<and> bitmap_storage_of (map_frames mm) \<le> e_length e))"
  by (rule frame_crates.init_result [OF assms]) blast

text \<open>
  The number of allocated frames the allocator reports is the number of frames in use, and the
  reported free frames are the rest of the pool.
\<close>

theorem frame_counts_correct:
  assumes "fa_wf a"
  shows "allocated_frames a = Some (card (used a)) \<and>
    free_frames a = Some (card (set (pool a) - used a))"
proof -
  have "used a \<subseteq> set (pool a)" using assms by (auto simp: used_def fa_wf_def)
  moreover have "finite (used a)" using calculation by (rule finite_subset) simp
  ultimately have "card (set (pool a) - used a) = length (pool a) - card (used a)"
    using assms by (simp add: card_Diff_subset distinct_card fa_wf_def)
  then show ?thesis
    using allocated_frames_used [OF assms] assms by (simp add: free_frames_def total_frames_def fa_wf_def)
qed

section \<open>Witnesses\<close>

text \<open>A memory map with a reserved hole, and the allocator it gives.\<close>

definition demo_map :: "mem_entry list" where
  "demo_map = [\<lparr>e_base = 4096, e_length = 8192, e_usable = True\<rparr>,
     \<lparr>e_base = 12288, e_length = 4096, e_usable = False\<rparr>,
     \<lparr>e_base = 16384, e_length = 12288, e_usable = True\<rparr>]"

definition demo_alloc :: frame_allocator where
  "demo_alloc = \<lparr>bitmap = [0], next_free_index = 0,
     usable_regions = (replicate MAX_REGIONS None)
       [0 := Some \<lparr>first_frame = 8192, frame_count = 1\<rparr>,
        1 := Some \<lparr>first_frame = 16384, frame_count = 3\<rparr>],
     regions_count = 2, frames_count = 4\<rparr>"

lemma demo_init: "init std_crates demo_map = Some demo_alloc"
  by (simp add: init_def demo_map_def demo_alloc_def std_crates_def map_frames_def
      empty_allocator_def place_bitmap_def bitmap_storage_of_def bitmap_size_of_def
      entry_consumed_def entry_start_def add_region_def usable_region_new_def frame_at_def
      MAX_REGIONS_def)

lemma demo_map_ok: "mem_map_ok demo_map"
  by (simp add: demo_map_def entries_apart_def)

lemma demo_wf: "fa_wf demo_alloc"
  by (rule std.init_result [OF demo_map_ok demo_init])

theorem allocate_frame_correct_witness:
  "\<exists>r b. allocate_frame std_crates demo_alloc = Some (r, b) \<and> fa_wf b \<and> pool b = pool demo_alloc \<and>
    (case r of
       None \<Rightarrow> b = demo_alloc \<and> used demo_alloc = set (pool demo_alloc)
     | Some f \<Rightarrow> f \<in> set (pool demo_alloc) - used demo_alloc \<and> used b = insert f (used demo_alloc))"
  by (rule allocate_frame_correct [OF std.frame_crates_axioms demo_wf])

theorem deallocate_frame_correct_witness:
  "\<exists>b. deallocate_frame std_crates demo_alloc 16384 = Some b \<and> fa_wf b \<and> pool b = pool demo_alloc \<and>
    used b = used demo_alloc - {16384}"
  by (rule deallocate_frame_correct [OF std.frame_crates_axioms demo_wf]) simp

theorem allocate_contiguous_correct_witness:
  "\<exists>r b. allocate_contiguous std_crates demo_alloc 3 = Some (r, b) \<and>
    (case r of
       None \<Rightarrow> b = demo_alloc \<and> (\<forall>f. \<not> free_run demo_alloc (\<lambda>_. True) 3 f)
     | Some f \<Rightarrow> run_taken demo_alloc (\<lambda>_. True) 3 f b)"
  by (rule allocate_contiguous_correct [OF std.frame_crates_axioms demo_wf]) simp


theorem init_correct_witness:
  "fa_wf demo_alloc \<and> used demo_alloc = {} \<and>
    list_all (\<lambda>f. list_ex (frame_in_entry f) demo_map) (pool demo_alloc) \<and>
    (\<exists>p. clear_of_bitmap (map_frames demo_map) demo_alloc p)"
  using init_correct [OF std.frame_crates_axioms demo_map_ok demo_init]
  by (auto simp: list_all_iff list_ex_iff)

theorem frame_counts_correct_witness:
  "allocated_frames demo_alloc = Some (card (used demo_alloc)) \<and>
    free_frames demo_alloc = Some (card (set (pool demo_alloc) - used demo_alloc))"
  by (rule frame_counts_correct [OF demo_wf])

end
