(* ===== verification/Timer_Queue.thy ===== *)
theory Timer_Queue
  imports Prelude "HOL-Library.Product_Lexorder"
begin

text \<open>
  The deadline queue of the kernel timer (\<^verbatim>\<open>sys/timer/queue.rs\<close>): a binary min-heap of wait
  entries keyed by \<^verbatim>\<open>(deadline_ns, token)\<close>, stored in a \<^verbatim>\<open>Vec\<close>, with lazy removal of cancelled
  entries.

  The first part models the code.  The second shows that sifting restores the heap order and only
  permutes the entries; the third states the contract of a queue of deadlines as a locale over the
  multiset of stored entries, proves what a client may rely on, and interprets it on the model.
\<close>

section \<open>Model\<close>

type_synonym wait_token = u64

definition EXHAUSTED :: wait_token where
  "EXHAUSTED = - 1"

datatype wake_reason = Deadline | Event | Signal | Cancelled

datatype deadline_kind = Sleep | IoTimeout

record deadline_entry =
  deadline_ns :: u64
  pid :: u16
  token :: wait_token
  kind :: deadline_kind

text \<open>\<^verbatim>\<open>cap\<close> is the capacity of the vector \<^verbatim>\<open>heap\<close>, which \<^verbatim>\<open>try_reserve_push\<close> consults.\<close>

record timer_queue =
  heap :: "deadline_entry list"
  cap :: nat
  next_token_field :: u64

definition timer_queue_new :: timer_queue where
  "timer_queue_new = \<lparr>heap = [], cap = 0, next_token_field = 1\<rparr>"

definition next_token :: "timer_queue \<Rightarrow> wait_token \<times> timer_queue" where
  "next_token q =
    (let t = next_token_field q in
     if next_token_field q = - 1 then (EXHAUSTED, q)
     else (t, q\<lparr>next_token_field := next_token_field q + 1\<rparr>))"

subsection \<open>Heap internals\<close>

definition entry_key :: "deadline_entry \<Rightarrow> u64 \<times> u64" where
  "entry_key e = (deadline_ns e, token e)"

definition key :: "deadline_entry list \<Rightarrow> nat \<Rightarrow> (u64 \<times> u64) rs" where
  "key h i = do {e \<leftarrow> idx h i; Some (deadline_ns e, token e)}"

text \<open>\<^verbatim>\<open>slice::swap\<close>.\<close>

definition swap :: "'a list \<Rightarrow> nat \<Rightarrow> nat \<Rightarrow> 'a list rs" where
  "swap h i j = do {x \<leftarrow> idx h i; y \<leftarrow> idx h j; Some (h[i := y, j := x])}"

fun sift_up :: "deadline_entry list \<Rightarrow> nat \<Rightarrow> deadline_entry list rs" where
  "sift_up h i =
    (if i > 0 then
       let parent = (i - 1) div 2 in do {
         ki \<leftarrow> key h i;
         kp \<leftarrow> key h parent;
         if ki < kp then do {
           h' \<leftarrow> swap h i parent;
           sift_up h' parent
         } else Some h
       }
     else Some h)"

text \<open>The candidate of one round of \<^verbatim>\<open>sift_down\<close>: \<^verbatim>\<open>c\<close> if it is in range and below \<^verbatim>\<open>smallest\<close>.\<close>

definition smaller_child :: "deadline_entry list \<Rightarrow> nat \<Rightarrow> nat \<Rightarrow> nat rs" where
  "smaller_child h c smallest =
    (if c < length h then do {
       kc \<leftarrow> key h c;
       ks \<leftarrow> key h smallest;
       Some (if kc < ks then c else smallest)
     } else Some smallest)"

lemma smaller_child_cases:
  assumes "smaller_child h c s = Some r"
  shows "r = s \<or> r = c \<and> c < length h"
  using assms
  by (auto simp: smaller_child_def key_def idx_def split: if_splits option.splits bind_splits)

lemma swap_length: "swap h i j = Some h' \<Longrightarrow> length h' = length h"
  by (auto simp: swap_def idx_def split: bind_splits if_splits)

function sift_down :: "deadline_entry list \<Rightarrow> nat \<Rightarrow> deadline_entry list rs" where
  "sift_down h i = do {
     s1 \<leftarrow> smaller_child h (2 * i + 1) i;
     smallest \<leftarrow> smaller_child h (2 * i + 2) s1;
     if smallest = i then Some h
     else do {
       h' \<leftarrow> swap h i smallest;
       sift_down h' smallest
     }
   }"
  by pat_completeness auto

termination
proof (relation "measure (\<lambda>(h, i). length h - i)"; clarsimp)
  fix h h' :: "deadline_entry list" and i s1 s
  assume 1: "smaller_child h (Suc (2 * i)) i = Some s1"
    and 2: "smaller_child h (Suc (Suc (2 * i))) s1 = Some s"
    and 3: "s \<noteq> i" "swap h i s = Some h'"
  have "s < length h" "i < s"
    using smaller_child_cases [OF 1] smaller_child_cases [OF 2] 3 by auto
  then show "length h' - s < length h - i"
    using swap_length [OF 3(2)] by simp
qed

declare sift_up.simps [simp del] sift_down.simps [simp del]

subsection \<open>Queue operations\<close>

definition push_raw :: "timer_queue \<Rightarrow> deadline_entry \<Rightarrow> timer_queue rs" where
  "push_raw q e = do {
     h \<leftarrow> sift_up (heap q @ [e]) (length (heap q @ [e]) - 1);
     Some (q\<lparr>heap := h, cap := max (cap q) (length h)\<rparr>)
   }"

text \<open>
  \<^verbatim>\<open>reserve\<close> is the outcome of \<^verbatim>\<open>try_reserve_exact(1)\<close> on a full vector of the given length: the new
  capacity, or \<^term>\<open>None\<close> when the allocator refuses.
\<close>

definition try_reserve_push ::
  "(nat \<Rightarrow> nat option) \<Rightarrow> timer_queue \<Rightarrow> deadline_entry \<Rightarrow> ((unit + unit) \<times> timer_queue) rs" where
  "try_reserve_push reserve q e =
    (if length (heap q) = cap q then
       (case reserve (length (heap q)) of
          None \<Rightarrow> Some (Inl (), q)
        | Some c \<Rightarrow> do {q' \<leftarrow> push_raw (q\<lparr>cap := c\<rparr>) e; Some (Inr (), q')})
     else do {q' \<leftarrow> push_raw q e; Some (Inr (), q')})"

definition push_assumed :: "timer_queue \<Rightarrow> deadline_entry \<Rightarrow> timer_queue rs" where
  "push_assumed q e = push_raw q e"

definition pop_head :: "timer_queue \<Rightarrow> (deadline_entry option \<times> timer_queue) rs" where
  "pop_head q =
    (if heap q = [] then Some (None, q)
     else let last_i = length (heap q) - 1 in do {
       h \<leftarrow> swap (heap q) 0 last_i;
       let entry = last h;
       let h' = butlast h;
       h'' \<leftarrow> (if h' \<noteq> [] then sift_down h' 0 else Some h');
       Some (Some entry, q\<lparr>heap := h''\<rparr>)
     })"

definition len :: "timer_queue \<Rightarrow> nat" where
  "len q = length (heap q)"

definition is_empty :: "timer_queue \<Rightarrow> bool" where
  "is_empty q = (heap q = [])"

lemma sift_down_length:
  "sift_down h i = Some h' \<Longrightarrow> length h' = length h"
  by (induction h i rule: sift_down.induct, subst (asm) (2) sift_down.simps)
    (auto split: bind_splits if_splits dest: swap_length)

lemma pop_head_length:
  assumes "pop_head q = Some (r, q')" "heap q \<noteq> []"
  shows "length (heap q') < length (heap q)"
  using assms
  by (auto simp: pop_head_def Let_def split: bind_splits if_splits
      dest!: sift_down_length swap_length)

function pop_due ::
  "timer_queue \<Rightarrow> u64 \<Rightarrow> (u16 \<Rightarrow> wait_token \<Rightarrow> bool) \<Rightarrow> (deadline_entry option \<times> timer_queue) rs" where
  "pop_due q now is_live =
    (case heap q of
       [] \<Rightarrow> Some (None, q)
     | head # _ \<Rightarrow>
         if deadline_ns head > now then Some (None, q)
         else do {
           (_, q') \<leftarrow> pop_head q;
           if is_live (pid head) (token head) then Some (Some head, q')
           else pop_due q' now is_live
         })"
  by pat_completeness auto

termination
  by (relation "measure (\<lambda>(q, _, _). length (heap q))") (auto dest: pop_head_length)

function pop_due_unchecked ::
  "timer_queue \<Rightarrow> u64 \<Rightarrow> (u16 \<Rightarrow> wait_token \<Rightarrow> bool) \<Rightarrow> (deadline_entry option \<times> timer_queue) rs" where
  "pop_due_unchecked q now is_live =
    (case heap q of
       [] \<Rightarrow> Some (None, q)
     | head # _ \<Rightarrow>
         if deadline_ns head > now then Some (None, q)
         else do {
           (_, q') \<leftarrow> pop_head q;
           if is_live (pid head) (token head) then Some (Some head, q')
           else pop_due_unchecked q' now is_live
         })"
  by pat_completeness auto

termination
  by (relation "measure (\<lambda>(q, _, _). length (heap q))") (auto dest: pop_head_length)

function drain_stale_loop ::
  "timer_queue \<Rightarrow> (u16 \<Rightarrow> wait_token \<Rightarrow> bool) \<Rightarrow> bool \<Rightarrow> (bool \<times> timer_queue) rs" where
  "drain_stale_loop q is_live reclaimed =
    (case heap q of
       [] \<Rightarrow> Some (reclaimed, q)
     | head # _ \<Rightarrow>
         if is_live (pid head) (token head) then Some (reclaimed, q)
         else do {
           (_, q') \<leftarrow> pop_head q;
           drain_stale_loop q' is_live True
         })"
  by pat_completeness auto

termination
  by (relation "measure (\<lambda>(q, _, _). length (heap q))") (auto dest: pop_head_length)

declare pop_due.simps [simp del] pop_due_unchecked.simps [simp del] drain_stale_loop.simps [simp del]

definition drain_stale_head ::
  "timer_queue \<Rightarrow> (u16 \<Rightarrow> wait_token \<Rightarrow> bool) \<Rightarrow> (bool \<times> timer_queue) rs" where
  "drain_stale_head q is_live = drain_stale_loop q is_live False"

definition peek_deadline_ns ::
  "timer_queue \<Rightarrow> (u16 \<Rightarrow> wait_token \<Rightarrow> bool) \<Rightarrow> (u64 option \<times> timer_queue) rs" where
  "peek_deadline_ns q is_live = do {
     (_, q') \<leftarrow> drain_stale_head q is_live;
     Some (case heap q' of [] \<Rightarrow> None | e # _ \<Rightarrow> Some (deadline_ns e), q')
   }"

section \<open>Heap order\<close>

text \<open>
  Heap order is a property of the keys by position.  While an entry is sifted, the order may fail
  only between it and its parent (\<^verbatim>\<open>sift_up\<close>) or its children (\<^verbatim>\<open>sift_down\<close>), and its neighbours on
  both sides are ordered among themselves.
\<close>

definition parent :: "nat \<Rightarrow> nat" where
  "parent i = (i - 1) div 2"

definition ordered :: "(nat \<Rightarrow> 'a::linorder) \<Rightarrow> nat \<Rightarrow> bool" where
  "ordered k n \<longleftrightarrow> (\<forall>i. 0 < i \<and> i < n \<longrightarrow> k (parent i) \<le> k i)"

definition except_up :: "(nat \<Rightarrow> 'a::linorder) \<Rightarrow> nat \<Rightarrow> nat \<Rightarrow> bool" where
  "except_up k n j \<longleftrightarrow>
    (\<forall>i. 0 < i \<and> i < n \<and> i \<noteq> j \<longrightarrow> k (parent i) \<le> k i) \<and>
    (\<forall>c. 0 < c \<and> c < n \<and> parent c = j \<and> 0 < j \<longrightarrow> k (parent j) \<le> k c)"

definition except_down :: "(nat \<Rightarrow> 'a::linorder) \<Rightarrow> nat \<Rightarrow> nat \<Rightarrow> bool" where
  "except_down k n j \<longleftrightarrow>
    (\<forall>i. 0 < i \<and> i < n \<and> parent i \<noteq> j \<longrightarrow> k (parent i) \<le> k i) \<and>
    (\<forall>c. 0 < c \<and> c < n \<and> parent c = j \<and> 0 < j \<longrightarrow> k (parent j) \<le> k c)"

lemma parent_fold: "(i - Suc 0) div 2 = parent i"
  by (simp add: parent_def)

lemma parent_less: "0 < i \<Longrightarrow> parent i < i"
  by (simp add: parent_def)

lemma parent_eq_iff: "0 < c \<Longrightarrow> parent c = j \<longleftrightarrow> c = 2 * j + 1 \<or> c = 2 * j + 2"
  unfolding parent_def by presburger

lemma except_up_step:
  assumes up: "except_up k n j" and j: "0 < j" "j < n" and less: "k j < k (parent j)"
  shows "except_up (k(j := k (parent j), parent j := k j)) n (parent j)" (is "except_up ?k n ?p")
proof -
  have pj: "?p < j" using parent_less [OF j(1)] .
  have ord: "k (parent i) \<le> k i" if "0 < i" "i < n" "i \<noteq> j" for i
    using up that by (simp add: except_up_def)
  have low: "k ?p \<le> k c" if "0 < c" "c < n" "parent c = j" for c
    using up that j by (simp add: except_up_def)
  have A: "?k (parent i) \<le> ?k i" if i: "0 < i" "i < n" "i \<noteq> ?p" for i
    using i ord [of i] low [of i] less pj by (cases "i = j"; cases "parent i = j"; cases "parent i = ?p") auto
  have B: "?k (parent ?p) \<le> ?k c" if c: "0 < c" "c < n" "parent c = ?p" "0 < ?p" for c
    using c ord [of c] ord [of ?p] pj j parent_less [of ?p] parent_less [of c]
    by (cases "c = j") auto
  show ?thesis
    unfolding except_up_def using A B by blast
qed

lemma except_up_done:
  assumes "except_up k n j" "j = 0 \<or> \<not> k j < k (parent j)"
  shows "ordered k n"
  unfolding ordered_def
proof (intro allI impI)
  fix i assume i: "0 < i \<and> i < n"
  show "k (parent i) \<le> k i"
    using assms i by (cases "i = j") (auto simp: except_up_def)
qed

lemma except_down_step:
  assumes dn: "except_down k n j" and s: "0 < s" "s < n" "parent s = j" and less: "k s < k j"
    and min: "\<And>c. 0 < c \<Longrightarrow> c < n \<Longrightarrow> parent c = j \<Longrightarrow> k s \<le> k c"
  shows "except_down (k(j := k s, s := k j)) n s" (is "except_down ?k n s")
proof -
  have js: "j < s" using parent_less [OF s(1)] s(3) by simp
  have ord: "k (parent i) \<le> k i" if "0 < i" "i < n" "parent i \<noteq> j" for i
    using dn that by (simp add: except_down_def)
  have low: "k (parent j) \<le> k c" if "0 < c" "c < n" "parent c = j" "0 < j" for c
    using dn that by (simp add: except_down_def)
  have A: "?k (parent i) \<le> ?k i" if i: "0 < i" "i < n" "parent i \<noteq> s" for i
    using i ord [of i] low [of s] min [of i] less js s parent_less [of i]
    by (cases "i = s"; cases "i = j"; cases "parent i = j") auto
  have B: "?k (parent s) \<le> ?k c" if c: "0 < c" "c < n" "parent c = s" for c
    using c ord [of c] js s parent_less [of c] by auto
  show ?thesis
    unfolding except_down_def using A B by blast
qed

lemma except_down_done:
  assumes "except_down k n j" "\<And>c. 0 < c \<Longrightarrow> c < n \<Longrightarrow> parent c = j \<Longrightarrow> k j \<le> k c"
  shows "ordered k n"
  unfolding ordered_def
proof (intro allI impI)
  fix i assume i: "0 < i \<and> i < n"
  show "k (parent i) \<le> k i"
    using assms i by (cases "parent i = j") (auto simp: except_down_def)
qed

lemma ordered_root:
  assumes "ordered k n" "i < n"
  shows "k 0 \<le> k i"
  using assms(2)
proof (induction i rule: less_induct)
  case (less i)
  show ?case
  proof (cases "i = 0")
    case False
    then have "k 0 \<le> k (parent i)"
      using less parent_less [of i] by (meson less_trans not_gr_zero)
    also have "\<dots> \<le> k i"
      using assms(1) less.prems False by (simp add: ordered_def)
    finally show ?thesis .
  qed simp
qed

lemma except_up_cong:
  assumes "except_up k' n j" "\<forall>i < n. k i = k' i" "j < n"
  shows "except_up k n j"
proof -
  have "parent i < n" if "0 < i" "i < n" for i using parent_less that less_trans by blast
  with assms show ?thesis unfolding except_up_def by auto
qed

lemma except_down_cong:
  assumes "except_down k' n j" "\<forall>i < n. k i = k' i" "j < n"
  shows "except_down k n j"
proof -
  have "parent i < n" if "0 < i" "i < n" for i using parent_less that less_trans by blast
  with assms show ?thesis unfolding except_down_def by auto
qed

section \<open>Sifting restores the order\<close>

abbreviation hkey :: "deadline_entry list \<Rightarrow> nat \<Rightarrow> u64 \<times> u64" where
  "hkey h i \<equiv> entry_key (h ! i)"

definition heap_ordered :: "deadline_entry list \<Rightarrow> bool" where
  "heap_ordered h \<longleftrightarrow> ordered (hkey h) (length h)"

lemma key_in [simp]: "i < length h \<Longrightarrow> key h i = Some (hkey h i)"
  by (simp add: key_def entry_key_def)

lemma swap_in:
  assumes "i < length h" "j < length h"
  obtains h' where "swap h i j = Some h'" "length h' = length h" "mset h' = mset h"
    "\<forall>l < length h. hkey h' l = ((hkey h)(i := hkey h j, j := hkey h i)) l"
proof
  show "swap h i j = Some (h[i := h ! j, j := h ! i])"
    using assms by (simp add: swap_def)
  show "mset (h[i := h ! j, j := h ! i]) = mset h"
    by (rule mset_swap [OF assms(2) assms(1)])
qed (auto simp: nth_list_update)

lemma sift_up_ordered:
  assumes "i < length h" "except_up (hkey h) (length h) i"
  shows "\<exists>h'. sift_up h i = Some h' \<and> heap_ordered h' \<and> mset h' = mset h"
  using assms
proof (induction h i rule: sift_up.induct)
  case (1 h i)
  show ?case
  proof (cases "0 < i \<and> hkey h i < hkey h (parent i)")
    case False
    then show ?thesis
      using 1(2) except_up_done [OF 1(3)] parent_less [of i]
      by (subst sift_up.simps) (auto simp: heap_ordered_def Let_def parent_fold)
  next
    case True
    then have p: "parent i < length h" using parent_less [of i] 1(2) by simp
    obtain h' where h': "swap h i (parent i) = Some h'" "length h' = length h" "mset h' = mset h"
      "\<forall>l < length h. hkey h' l = ((hkey h)(i := hkey h (parent i), parent i := hkey h i)) l"
      by (rule swap_in [OF 1(2) p]) (rule that; assumption)
    have "except_up (hkey h') (length h') (parent i)"
      unfolding h'(2)
      by (rule except_up_cong [OF except_up_step [OF 1(3)] h'(4) p]) (use True 1(2) in auto)
    then have "\<exists>h''. sift_up h' (parent i) = Some h'' \<and> heap_ordered h'' \<and> mset h'' = mset h'"
      using 1(1) [of "parent i" "hkey h i" "hkey h (parent i)" h'] True 1(2) p h'(1,2)
      by (simp add: parent_fold)
    then show ?thesis
      using True 1(2) p h'(1,3)
      by (subst sift_up.simps) (auto simp: Let_def parent_fold)
  qed
qed

lemma smaller_child_in:
  assumes "s < length h"
  shows "smaller_child h c s =
    Some (if c < length h \<and> hkey h c < hkey h s then c else s)"
  using assms by (simp add: smaller_child_def)

text \<open>The child that one round of \<^verbatim>\<open>sift_down\<close> selects.\<close>

lemma smallest_child:
  assumes "i < length h"
  obtains s1 s where
    "smaller_child h (2 * i + 1) i = Some s1" "smaller_child h (2 * i + 2) s1 = Some s"
    "s = i \<and> (\<forall>c. 0 < c \<and> c < length h \<and> parent c = i \<longrightarrow> hkey h i \<le> hkey h c) \<or>
     0 < s \<and> s < length h \<and> parent s = i \<and> hkey h s < hkey h i \<and>
       (\<forall>c. 0 < c \<and> c < length h \<and> parent c = i \<longrightarrow> hkey h s \<le> hkey h c)"
proof -
  define s1 where "s1 = (if 2*i+1 < length h \<and> hkey h (2*i+1) < hkey h i then 2*i+1 else i)"
  define s where "s = (if 2*i+2 < length h \<and> hkey h (2*i+2) < hkey h s1 then 2*i+2 else s1)"
  have s1: "s1 < length h" using assms by (auto simp: s1_def)
  have eval: "smaller_child h (2 * i + 1) i = Some s1" "smaller_child h (2 * i + 2) s1 = Some s"
    by (simp only: smaller_child_in [OF assms] s1_def) (simp only: smaller_child_in [OF s1] s_def)
  have le: "hkey h s \<le> hkey h c" if "c = i \<or> 0 < c \<and> c < length h \<and> parent c = i" for c
    using that parent_eq_iff [of c i] by (auto simp: s_def s1_def)
  have par: "parent (2*i+1) = i" "parent (2*i+2) = i" by (simp_all add: parent_def)
  have "s = i \<or> 0 < s \<and> s < length h \<and> parent s = i \<and> hkey h s < hkey h i"
    using par by (auto simp: s_def s1_def)
  with le show ?thesis by (intro that [OF eval]) auto
qed

lemma sift_down_ordered:
  assumes "i < length h" "except_down (hkey h) (length h) i"
  shows "\<exists>h'. sift_down h i = Some h' \<and> heap_ordered h' \<and> mset h' = mset h"
  using assms
proof (induction h i rule: sift_down.induct)
  case (1 h i)
  obtain s1 s where s1: "smaller_child h (2 * i + 1) i = Some s1"
    "smaller_child h (2 * i + 2) s1 = Some s"
    and cases: "s = i \<and> (\<forall>c. 0 < c \<and> c < length h \<and> parent c = i \<longrightarrow> hkey h i \<le> hkey h c) \<or>
     0 < s \<and> s < length h \<and> parent s = i \<and> hkey h s < hkey h i \<and>
       (\<forall>c. 0 < c \<and> c < length h \<and> parent c = i \<longrightarrow> hkey h s \<le> hkey h c)"
    by (rule smallest_child [OF 1(2)]) (rule that; assumption)
  show ?case
  proof (cases "s = i")
    case True
    then have "heap_ordered h"
      using cases except_down_done [OF 1(3)] by (auto simp: heap_ordered_def)
    then show ?thesis
      using s1 True by (subst sift_down.simps) simp
  next
    case False
    then have c: "0 < s" "s < length h" "parent s = i" "hkey h s < hkey h i"
      "\<And>c. 0 < c \<Longrightarrow> c < length h \<Longrightarrow> parent c = i \<Longrightarrow> hkey h s \<le> hkey h c"
      using cases by auto
    obtain h' where h': "swap h i s = Some h'" "length h' = length h" "mset h' = mset h"
      "\<forall>l < length h. hkey h' l = ((hkey h)(i := hkey h s, s := hkey h i)) l"
      by (rule swap_in [OF 1(2) c(2)]) (rule that; assumption)
    have "except_down (hkey h') (length h') s"
      unfolding h'(2) by (rule except_down_cong [OF except_down_step [OF 1(3) c] h'(4) c(2)])
    then obtain h'' where "sift_down h' s = Some h''" "heap_ordered h''" "mset h'' = mset h'"
      using 1(1) [OF s1 False h'(1)] c(2) unfolding h'(2) by blast
    then show ?thesis
      using s1 False h'(1,3) by (subst sift_down.simps) simp
  qed
qed

section \<open>Contracts\<close>

text \<open>
  A store of deadline entries gives access to an entry of least key.  \<^verbatim>\<open>entries\<close> is the abstract
  value, a multiset.
\<close>

locale entry_store =
  fixes inv :: "'q \<Rightarrow> bool"
    and entries :: "'q \<Rightarrow> deadline_entry multiset"
    and first :: "'q \<Rightarrow> deadline_entry option"
    and pop :: "'q \<Rightarrow> (deadline_entry option \<times> 'q) rs"
  assumes first_None: "inv q \<Longrightarrow> first q = None \<longleftrightarrow> entries q = {#}"
    and first_in: "inv q \<Longrightarrow> first q = Some e \<Longrightarrow> e \<in># entries q"
    and first_least: "inv q \<Longrightarrow> first q = Some e \<Longrightarrow> x \<in># entries q \<Longrightarrow> entry_key e \<le> entry_key x"
    and pop_first: "inv q \<Longrightarrow> first q = Some e \<Longrightarrow>
      \<exists>q'. pop q = Some (Some e, q') \<and> inv q' \<and> entries q = add_mset e (entries q')"

text \<open>
  What a due-entry pop promises: the entries split into the remaining ones, discarded ones that are
  all stale and due, and the result; the result is live, due and of least key among the remaining
  entries, and when there is none nothing due remains.
\<close>

definition is_live_entry :: "(u16 \<Rightarrow> wait_token \<Rightarrow> bool) \<Rightarrow> deadline_entry \<Rightarrow> bool" where
  "is_live_entry live e \<longleftrightarrow> live (pid e) (token e)"

definition live_entries ::
  "(u16 \<Rightarrow> wait_token \<Rightarrow> bool) \<Rightarrow> deadline_entry multiset \<Rightarrow> deadline_entry multiset" where
  "live_entries live E = filter_mset (is_live_entry live) E"

definition popped ::
  "u64 \<Rightarrow> (u16 \<Rightarrow> wait_token \<Rightarrow> bool) \<Rightarrow> deadline_entry multiset \<Rightarrow> deadline_entry option \<Rightarrow>
    deadline_entry multiset \<Rightarrow> bool" where
  "popped now live E r E' \<longleftrightarrow>
    (\<exists>S. (\<forall>x \<in># S. \<not> is_live_entry live x \<and> deadline_ns x \<le> now) \<and>
      (case r of
         None \<Rightarrow> E = E' + S \<and> (\<forall>x \<in># E'. now < deadline_ns x)
       | Some e \<Rightarrow> E = add_mset e (E' + S) \<and> is_live_entry live e \<and> deadline_ns e \<le> now \<and>
           (\<forall>x \<in># E'. entry_key e \<le> entry_key x)))"

definition stale_dropped ::
  "(u16 \<Rightarrow> wait_token \<Rightarrow> bool) \<Rightarrow> deadline_entry multiset \<Rightarrow> deadline_entry multiset \<Rightarrow> bool" where
  "stale_dropped live E E' \<longleftrightarrow> (\<exists>S. E = E' + S \<and> (\<forall>x \<in># S. \<not> is_live_entry live x))"

lemma popped_discard:
  assumes "popped now live E r E'" "\<not> is_live_entry live e" "deadline_ns e \<le> now"
  shows "popped now live (add_mset e E) r E'"
proof -
  obtain S where "(\<forall>x \<in># S. \<not> is_live_entry live x \<and> deadline_ns x \<le> now)"
    and "(case r of
         None \<Rightarrow> E = E' + S \<and> (\<forall>x \<in># E'. now < deadline_ns x)
       | Some e \<Rightarrow> E = add_mset e (E' + S) \<and> is_live_entry live e \<and> deadline_ns e \<le> now \<and>
           (\<forall>x \<in># E'. entry_key e \<le> entry_key x))"
    using assms(1) unfolding popped_def by (elim exE conjE)
  with assms(2,3) show ?thesis
    unfolding popped_def by (intro exI [of _ "add_mset e S"]) (auto split: option.splits)
qed

lemma live_entries_simps [simp]:
  "live_entries live {#} = {#}"
  "live_entries live (E + F) = live_entries live E + live_entries live F"
  "live_entries live (add_mset e E) =
    (if is_live_entry live e then add_mset e (live_entries live E) else live_entries live E)"
  by (simp_all add: live_entries_def)

lemma live_of_stale: "(\<forall>x \<in># S. \<not> is_live_entry live x) \<Longrightarrow> live_entries live S = {#}"
  by (induction S) auto

lemma in_live_entries: "e \<in># live_entries live E \<longleftrightarrow> e \<in># E \<and> is_live_entry live e"
  by (simp add: live_entries_def)

text \<open>No live entry is lost: a pop takes exactly its result from the live entries.\<close>

lemma popped_live:
  assumes "popped now live E r E'"
  shows "live_entries live E =
    (case r of None \<Rightarrow> live_entries live E' | Some e \<Rightarrow> add_mset e (live_entries live E'))"
proof -
  obtain S where S: "\<forall>x \<in># S. \<not> is_live_entry live x"
    and E: "E = E' + S \<and> r = None \<or> (\<exists>e. r = Some e \<and> is_live_entry live e \<and> E = add_mset e (E' + S))"
    using assms unfolding popped_def by (cases r) auto
  from live_of_stale [OF S] E show ?thesis by auto
qed

lemma popped_subset: "popped now live E r E' \<Longrightarrow> E' \<subseteq># E"
  by (cases r) (auto simp: popped_def)

lemma key_le_deadline: "entry_key e \<le> entry_key x \<Longrightarrow> deadline_ns e \<le> deadline_ns x"
  by (auto simp: entry_key_def)

lemma popped_Some:
  assumes "popped now live E (Some e) E'"
  shows "e \<in># live_entries live E" "deadline_ns e \<le> now"
    "x \<in># live_entries live E \<Longrightarrow> entry_key e \<le> entry_key x"
proof -
  from assms obtain S where S: "\<forall>x \<in># S. \<not> is_live_entry live x" "E = add_mset e (E' + S)"
    "is_live_entry live e" "deadline_ns e \<le> now" "\<forall>x \<in># E'. entry_key e \<le> entry_key x"
    by (auto simp: popped_def)
  then show "e \<in># live_entries live E" "deadline_ns e \<le> now"
    by simp_all
  show "entry_key e \<le> entry_key x" if "x \<in># live_entries live E"
    using that S live_of_stale [OF S(1)] by (auto simp: in_live_entries)
qed

text \<open>
  A pop loop is any operation with the shape of \<^verbatim>\<open>pop_due\<close>; the code has two copies of it.
\<close>

locale pop_loop = entry_store inv entries first pop
  for inv :: "'q \<Rightarrow> bool" and entries first pop +
  fixes due :: "'q \<Rightarrow> u64 \<Rightarrow> (u16 \<Rightarrow> wait_token \<Rightarrow> bool) \<Rightarrow> (deadline_entry option \<times> 'q) rs"
  assumes due_rec: "inv q \<Longrightarrow> due q now live =
    (case first q of
       None \<Rightarrow> Some (None, q)
     | Some head \<Rightarrow>
         if deadline_ns head > now then Some (None, q)
         else do {
           (_, q') \<leftarrow> pop q;
           if live (pid head) (token head) then Some (Some head, q')
           else due q' now live
         })"
begin

lemma due_popped:
  assumes "inv q"
  shows "\<exists>r q'. due q now live = Some (r, q') \<and> inv q' \<and> popped now live (entries q) r (entries q')"
  using assms
proof (induction "size (entries q)" arbitrary: q rule: less_induct)
  case less
  show ?case
  proof (cases "first q")
    case None
    then have "due q now live = Some (None, q)" "entries q = {#}"
      using due_rec [OF less.prems] first_None [OF less.prems] by simp_all
    with less.prems show ?thesis by (auto simp: popped_def)
  next
    case (Some e)
    obtain q' where q': "pop q = Some (Some e, q')" "inv q'" "entries q = add_mset e (entries q')"
      using pop_first [OF less.prems Some] by blast
    have least: "entry_key e \<le> entry_key x" if "x \<in># entries q" for x
      using first_least [OF less.prems Some that] .
    consider (later) "now < deadline_ns e" | (live) "deadline_ns e \<le> now" "live (pid e) (token e)"
      | (stale) "deadline_ns e \<le> now" "\<not> live (pid e) (token e)"
      by fastforce
    then show ?thesis
    proof cases
      case later
      then have "\<forall>x \<in># entries q. now < deadline_ns x"
        using key_le_deadline [OF least] by fastforce
      then show ?thesis
        using later less.prems by (auto simp: due_rec [OF less.prems] Some popped_def)
    next
      case live
      then show ?thesis
        using q' least by (auto simp: due_rec [OF less.prems] Some popped_def is_live_entry_def)
    next
      case stale
      obtain r q'' where "due q' now live = Some (r, q'')" "inv q''"
        "popped now live (entries q') r (entries q'')"
        using less.hyps [OF _ q'(2)] q'(3) by (metis size_add_mset lessI)
      then show ?thesis
        using stale q' popped_discard [of now live "entries q'" r "entries q''" e]
        by (auto simp: due_rec [OF less.prems] Some is_live_entry_def)
    qed
  qed
qed

end

locale drain_loop = entry_store inv entries first pop
  for inv :: "'q \<Rightarrow> bool" and entries first pop +
  fixes drain :: "'q \<Rightarrow> (u16 \<Rightarrow> wait_token \<Rightarrow> bool) \<Rightarrow> bool \<Rightarrow> (bool \<times> 'q) rs"
  assumes drain_rec: "inv q \<Longrightarrow> drain q live reclaimed =
    (case first q of
       None \<Rightarrow> Some (reclaimed, q)
     | Some head \<Rightarrow>
         if live (pid head) (token head) then Some (reclaimed, q)
         else do {
           (_, q') \<leftarrow> pop q;
           drain q' live True
         })"
begin

lemma drain_stale:
  assumes "inv q"
  shows "\<exists>q'. drain q live b = Some (b \<or> entries q' \<noteq> entries q, q') \<and> inv q' \<and>
    stale_dropped live (entries q) (entries q') \<and>
    (case first q' of None \<Rightarrow> True | Some e \<Rightarrow> is_live_entry live e)"
  using assms
proof (induction "size (entries q)" arbitrary: q b rule: less_induct)
  case less
  show ?case
  proof (cases "first q")
    case None
    then show ?thesis
      using less.prems by (auto simp: drain_rec [OF less.prems] stale_dropped_def)
  next
    case (Some e)
    obtain q' where q': "pop q = Some (Some e, q')" "inv q'" "entries q = add_mset e (entries q')"
      using pop_first [OF less.prems Some] by blast
    show ?thesis
    proof (cases "live (pid e) (token e)")
      case True
      then show ?thesis
        using Some less.prems
        by (auto simp: drain_rec [OF less.prems] stale_dropped_def is_live_entry_def)
    next
      case False
      obtain q'' where q'': "drain q' live True = Some (True, q'')" "inv q''"
        "stale_dropped live (entries q') (entries q'')"
        "case first q'' of None \<Rightarrow> True | Some e \<Rightarrow> is_live_entry live e"
        using less.hyps [OF _ q'(2), of True] q'(3) by (metis size_add_mset lessI)
      then obtain S where S: "entries q' = entries q'' + S" "\<forall>x \<in># S. \<not> is_live_entry live x"
        by (auto simp: stale_dropped_def)
      have "stale_dropped live (entries q) (entries q'')"
        unfolding stale_dropped_def
        using S q'(3) False by (intro exI [of _ "add_mset e S"]) (auto simp: is_live_entry_def)
      moreover have "size (entries q'') \<noteq> size (entries q)"
        using S(1) q'(3) by simp
      ultimately show ?thesis
        using q' q'' False Some by (auto simp: drain_rec [OF less.prems])
    qed
  qed
qed

end

section \<open>The queue implements the contracts\<close>

definition tq_inv :: "timer_queue \<Rightarrow> bool" where
  "tq_inv q \<longleftrightarrow> heap_ordered (heap q) \<and> length (heap q) \<le> cap q"

text \<open>The invariant with the token counter fixed: no operation but \<^verbatim>\<open>next_token\<close> moves it.\<close>

definition tq_inv_at :: "u64 \<Rightarrow> timer_queue \<Rightarrow> bool" where
  "tq_inv_at t q \<longleftrightarrow> tq_inv q \<and> next_token_field q = t"

definition tq_entries :: "timer_queue \<Rightarrow> deadline_entry multiset" where
  "tq_entries q = mset (heap q)"

definition tq_first :: "timer_queue \<Rightarrow> deadline_entry option" where
  "tq_first q = (case heap q of [] \<Rightarrow> None | e # _ \<Rightarrow> Some e)"

lemma tq_first_Some: "tq_first q = Some e \<longleftrightarrow> heap q \<noteq> [] \<and> e = heap q ! 0"
  by (cases "heap q") (auto simp: tq_first_def)

lemma head_least:
  assumes "heap_ordered h" "x \<in> set h"
  shows "entry_key (h ! 0) \<le> entry_key x"
proof -
  obtain i where "i < length h" "x = h ! i" using assms(2) by (auto simp: in_set_conv_nth)
  with ordered_root [of "hkey h" "length h" i] assms(1) show ?thesis by (simp add: heap_ordered_def)
qed

text \<open>Removing the last position of a heap whose root was replaced leaves only the root to sift.\<close>

lemma swapped_butlast:
  assumes "heap_ordered h" "h \<noteq> []" "swap h 0 (length h - 1) = Some h'" "butlast h' \<noteq> []"
  shows "except_down (hkey (butlast h')) (length (butlast h')) 0"
proof -
  have h': "h' = h[0 := h ! (length h - 1), length h - 1 := h ! 0]"
    using assms(2,3) by (simp add: swap_def)
  have same: "hkey (butlast h') i = hkey h i" if "0 < i" "i < length (butlast h')" for i
    using that by (simp add: h' nth_butlast)
  show ?thesis
    unfolding except_down_def
  proof (intro conjI allI impI)
    fix i assume i: "0 < i \<and> i < length (butlast h') \<and> parent i \<noteq> 0"
    then have "parent i < i" using parent_less by blast
    with i same have "hkey (butlast h') (parent i) = hkey h (parent i)" "hkey (butlast h') i = hkey h i"
      by auto
    moreover have "i < length h" using i by (simp add: h') linarith
    ultimately show "hkey (butlast h') (parent i) \<le> hkey (butlast h') i"
      using assms(1) i by (simp add: heap_ordered_def ordered_def)
  qed simp
qed

lemma pop_head_spec:
  assumes "heap_ordered (heap q)" "heap q \<noteq> []"
  shows "\<exists>h. pop_head q = Some (Some (heap q ! 0), q\<lparr>heap := h\<rparr>) \<and> heap_ordered h \<and>
    mset (heap q) = add_mset (heap q ! 0) (mset h)"
proof -
  let ?h = "heap q"
  define h' where "h' = ?h[0 := ?h ! (length ?h - 1), length ?h - 1 := ?h ! 0]"
  have sw: "swap ?h 0 (length ?h - 1) = Some h'" using assms(2) by (simp add: swap_def h'_def)
  have ms: "mset h' = mset ?h"
    unfolding h'_def using assms(2) by (intro mset_swap) simp_all
  have ne: "h' \<noteq> []" using assms(2) by (simp add: h'_def)
  have la: "last h' = ?h ! 0"
    using assms(2) by (simp add: h'_def last_conv_nth)
  have split: "mset ?h = add_mset (?h ! 0) (mset (butlast h'))"
    unfolding ms [symmetric] by (subst append_butlast_last_id [OF ne, symmetric]) (simp add: la)
  show ?thesis
  proof (cases "butlast h' = []")
    case True
    then show ?thesis
      using sw la split assms(2)
      by (intro exI [of _ "[]"]) (simp add: pop_head_def Let_def heap_ordered_def ordered_def)
  next
    case False
    then have "0 < length (butlast h')" by (simp only: length_greater_0_conv not_False_eq_True)
    then obtain h'' where "sift_down (butlast h') 0 = Some h''" "heap_ordered h''"
      "mset h'' = mset (butlast h')"
      using sift_down_ordered [OF _ swapped_butlast [OF assms sw False]] by blast
    then show ?thesis
      using sw la split assms(2) False by (intro exI [of _ h'']) (simp add: pop_head_def Let_def)
  qed
qed

interpretation tq: entry_store "tq_inv_at t" tq_entries tq_first pop_head for t
proof
  fix q e x
  assume "tq_inv_at t q"
  then have inv: "tq_inv q" "next_token_field q = t" by (simp_all add: tq_inv_at_def)
  show "(tq_first q = None) = (tq_entries q = {#})"
    by (simp add: tq_first_def tq_entries_def split: list.splits)
  assume e: "tq_first q = Some e"
  then show "e \<in># tq_entries q"
    by (simp add: tq_first_Some tq_entries_def)
  show "entry_key e \<le> entry_key x" if "x \<in># tq_entries q"
    using head_least [of "heap q" x] that inv e
    by (simp add: tq_first_Some tq_entries_def tq_inv_def)
  show "\<exists>q'. pop_head q = Some (Some e, q') \<and> tq_inv_at t q' \<and>
      tq_entries q = add_mset e (tq_entries q')"
  proof -
    obtain h where h: "pop_head q = Some (Some (heap q ! 0), q\<lparr>heap := h\<rparr>)" "heap_ordered h"
      "mset (heap q) = add_mset (heap q ! 0) (mset h)"
      using pop_head_spec [of q] inv e by (auto simp: tq_first_Some tq_inv_def)
    have "length h < length (heap q)"
      using arg_cong [OF h(3), of size] by simp
    with h inv e show ?thesis
      by (intro exI [of _ "q\<lparr>heap := h\<rparr>"]) (simp add: tq_first_Some tq_inv_at_def tq_inv_def tq_entries_def)
  qed
qed

interpretation due: pop_loop "tq_inv_at t" tq_entries tq_first pop_head pop_due for t
  by unfold_locales (subst pop_due.simps, simp add: tq_first_def split: list.splits)

interpretation due_unchecked: pop_loop "tq_inv_at t" tq_entries tq_first pop_head pop_due_unchecked for t
  by unfold_locales (subst pop_due_unchecked.simps, simp add: tq_first_def split: list.splits)

interpretation stale: drain_loop "tq_inv_at t" tq_entries tq_first pop_head drain_stale_loop for t
  by unfold_locales (subst drain_stale_loop.simps, simp add: tq_first_def split: list.splits)

lemma tq_new [wf_intro, simp]: "tq_inv timer_queue_new" "tq_entries timer_queue_new = {#}"
  by (simp_all add: tq_inv_def timer_queue_new_def heap_ordered_def ordered_def tq_entries_def)

lemma pop_due_result:
  assumes "tq_inv q"
  obtains r q' where "pop_due q now live = Some (r, q')" "tq_inv q'"
    "next_token_field q' = next_token_field q" "popped now live (tq_entries q) r (tq_entries q')"
proof -
  have "tq_inv_at (next_token_field q) q" using assms by (simp add: tq_inv_at_def)
  from due.due_popped [OF this, of now live] show ?thesis
    using that by (auto simp: tq_inv_at_def)
qed

lemma drain_result:
  assumes "tq_inv q"
  obtains b q' where "drain_stale_head q live = Some (b, q')" "b \<longleftrightarrow> tq_entries q' \<noteq> tq_entries q"
    "tq_inv q'" "next_token_field q' = next_token_field q"
    "stale_dropped live (tq_entries q) (tq_entries q')"
    "case tq_first q' of None \<Rightarrow> True | Some e \<Rightarrow> is_live_entry live e"
proof -
  have "tq_inv_at (next_token_field q) q" using assms by (simp add: tq_inv_at_def)
  from stale.drain_stale [OF this, of live False] show ?thesis
    using that by (auto simp: tq_inv_at_def drain_stale_head_def)
qed

lemma stale_dropped_live: "stale_dropped live E E' \<Longrightarrow> live_entries live E' = live_entries live E"
  by (auto simp: stale_dropped_def live_of_stale)

lemma stale_dropped_subset: "stale_dropped live E E' \<Longrightarrow> E' \<subseteq># E"
  by (auto simp: stale_dropped_def)

text \<open>The earliest live deadline of a multiset of entries.\<close>

definition earliest :: "(u16 \<Rightarrow> wait_token \<Rightarrow> bool) \<Rightarrow> deadline_entry multiset \<Rightarrow> u64 option \<Rightarrow> bool" where
  "earliest live E d \<longleftrightarrow>
    (case d of
       None \<Rightarrow> live_entries live E = {#}
     | Some d \<Rightarrow> (\<exists>e. e \<in># live_entries live E \<and> deadline_ns e = d) \<and>
         (\<forall>x \<in># live_entries live E. d \<le> deadline_ns x))"

lemma peek_result:
  assumes "tq_inv q"
  obtains d q' where "peek_deadline_ns q live = Some (d, q')" "tq_inv q'"
    "next_token_field q' = next_token_field q" "stale_dropped live (tq_entries q) (tq_entries q')"
    "earliest live (tq_entries q) d"
proof -
  obtain b q' where q': "drain_stale_head q live = Some (b, q')" "tq_inv q'"
    "next_token_field q' = next_token_field q" "stale_dropped live (tq_entries q) (tq_entries q')"
    and head: "case tq_first q' of None \<Rightarrow> True | Some e \<Rightarrow> is_live_entry live e"
    using drain_result [OF assms, of live] by metis
  have inv: "tq_inv_at (next_token_field q') q'" using q'(2) by (simp add: tq_inv_at_def)
  have peek: "peek_deadline_ns q live = Some (map_option deadline_ns (tq_first q'), q')"
    using q'(1) by (simp add: peek_deadline_ns_def tq_first_def split: list.splits)
  have "earliest live (tq_entries q') (map_option deadline_ns (tq_first q'))"
  proof (cases "tq_first q'")
    case None
    then show ?thesis using tq.first_None [OF inv] by (simp add: earliest_def)
  next
    case (Some e)
    with head have "e \<in># live_entries live (tq_entries q')"
      using tq.first_in [OF inv Some] by (simp add: in_live_entries)
    moreover have "\<forall>x \<in># live_entries live (tq_entries q'). deadline_ns e \<le> deadline_ns x"
      using tq.first_least [OF inv Some] key_le_deadline by (auto simp: in_live_entries)
    ultimately show ?thesis using Some by (auto simp: earliest_def)
  qed
  then have "earliest live (tq_entries q) (map_option deadline_ns (tq_first q'))"
    unfolding earliest_def stale_dropped_live [OF q'(4)] .
  then show ?thesis using that [OF peek q'(2,3,4)] by blast
qed

lemma append_except_up:
  assumes "heap_ordered h"
  shows "except_up (hkey (h @ [e])) (length (h @ [e])) (length h)"
  unfolding except_up_def
proof (intro conjI allI impI)
  fix i assume i: "0 < i \<and> i < length (h @ [e]) \<and> i \<noteq> length h"
  then have "i < length h" "parent i < length h" using parent_less [of i] by auto
  with assms i show "hkey (h @ [e]) (parent i) \<le> hkey (h @ [e]) i"
    by (simp add: nth_append heap_ordered_def ordered_def)
next
  fix c assume "0 < c \<and> c < length (h @ [e]) \<and> parent c = length h \<and> 0 < length h"
  then have False using parent_less [of c] by auto
  then show "hkey (h @ [e]) (parent (length h)) \<le> hkey (h @ [e]) c" ..
qed

lemma push_raw_result:
  assumes "tq_inv q"
  obtains q' where "push_raw q e = Some q'" "tq_inv q'" "next_token_field q' = next_token_field q"
    "tq_entries q' = add_mset e (tq_entries q)" "cap q' = max (cap q) (Suc (length (heap q)))"
proof -
  have "heap_ordered (heap q)" using assms by (simp add: tq_inv_def)
  from sift_up_ordered [OF _ append_except_up [OF this, of e]]
  obtain h where h: "sift_up (heap q @ [e]) (length (heap q)) = Some h" "heap_ordered h"
    "mset h = add_mset e (mset (heap q))"
    by auto
  have "length h = Suc (length (heap q))" using arg_cong [OF h(3), of size] by simp
  with h show ?thesis
    by (intro that [of "q\<lparr>heap := h, cap := max (cap q) (length h)\<rparr>"])
      (simp_all add: push_raw_def tq_inv_def tq_entries_def)
qed

lemma try_reserve_push_result:
  assumes "tq_inv q" "\<And>n c. reserve n = Some c \<Longrightarrow> n < c"
  obtains (oom) "try_reserve_push reserve q e = Some (Inl (), q)"
      "length (heap q) = cap q" "reserve (length (heap q)) = None"
  | (pushed) q' where "try_reserve_push reserve q e = Some (Inr (), q')" "tq_inv q'"
      "next_token_field q' = next_token_field q" "tq_entries q' = add_mset e (tq_entries q)"
proof (cases "length (heap q) = cap q")
  case False
  obtain q' where "push_raw q e = Some q'" "tq_inv q'" "next_token_field q' = next_token_field q"
    "tq_entries q' = add_mset e (tq_entries q)"
    using push_raw_result [OF assms(1)] by metis
  with False show ?thesis by (intro pushed [of q']) (simp_all add: try_reserve_push_def)
next
  case True
  show ?thesis
  proof (cases "reserve (length (heap q))")
    case None
    with True show ?thesis by (intro oom) (simp_all add: try_reserve_push_def)
  next
    case (Some c)
    then have "tq_inv (q\<lparr>cap := c\<rparr>)" using assms by (simp add: tq_inv_def order_less_imp_le)
    then obtain q' where "push_raw (q\<lparr>cap := c\<rparr>) e = Some q'" "tq_inv q'"
      "next_token_field q' = next_token_field q" "tq_entries q' = add_mset e (tq_entries q)"
      using push_raw_result [of "q\<lparr>cap := c\<rparr>" e] by (auto simp: tq_entries_def)
    with True Some show ?thesis by (intro pushed [of q']) (simp_all add: try_reserve_push_def)
  qed
qed

section \<open>Properties\<close>

text \<open>
  C4. \<^verbatim>\<open>pop_due\<close> terminates without panicking on every well-formed queue and keeps it well formed.
  It returns the live entry of least \<^verbatim>\<open>(deadline, token)\<close> if its deadline is at or before \<^verbatim>\<open>now\<close>; it
  returns nothing only when no live entry is due.  Exactly the returned entry leaves the live
  entries, and what else is dropped is stale and due.
\<close>

theorem pop_due_correct:
  assumes "tq_inv q"
  shows "\<exists>r q'. pop_due q now live = Some (r, q') \<and> tq_inv q' \<and>
    popped now live (tq_entries q) r (tq_entries q') \<and>
    (case r of
       None \<Rightarrow> live_entries live (tq_entries q') = live_entries live (tq_entries q) \<and>
         (\<forall>x \<in># live_entries live (tq_entries q). now < deadline_ns x)
     | Some e \<Rightarrow> live_entries live (tq_entries q) = add_mset e (live_entries live (tq_entries q')) \<and>
         deadline_ns e \<le> now \<and>
         (\<forall>x \<in># live_entries live (tq_entries q). entry_key e \<le> entry_key x))"
proof -
  obtain r q' where r: "pop_due q now live = Some (r, q')" "tq_inv q'"
    "popped now live (tq_entries q) r (tq_entries q')"
    using pop_due_result [OF assms] by metis
  moreover have "case r of
       None \<Rightarrow> live_entries live (tq_entries q') = live_entries live (tq_entries q) \<and>
         (\<forall>x \<in># live_entries live (tq_entries q). now < deadline_ns x)
     | Some e \<Rightarrow> live_entries live (tq_entries q) = add_mset e (live_entries live (tq_entries q')) \<and>
         deadline_ns e \<le> now \<and>
         (\<forall>x \<in># live_entries live (tq_entries q). entry_key e \<le> entry_key x)"
  proof (cases r)
    case None
    then have "\<forall>x \<in># tq_entries q'. now < deadline_ns x" using r(3) by (auto simp: popped_def)
    with None popped_live [OF r(3)] show ?thesis by (simp add: in_live_entries)
  next
    case (Some e)
    with popped_live [OF r(3)] popped_Some [OF r(3) [unfolded Some]] show ?thesis by simp
  qed
  ultimately show ?thesis by blast
qed

text \<open>
  \<^verbatim>\<open>peek_deadline_ns\<close> reports the earliest deadline among the live entries, and nothing only
  when there is none; a cancelled entry never masks a later live one, and only stale entries are
  reclaimed on the way.
\<close>

theorem peek_deadline_correct:
  assumes "tq_inv q"
  shows "\<exists>d q'. peek_deadline_ns q live = Some (d, q') \<and> tq_inv q' \<and>
    stale_dropped live (tq_entries q) (tq_entries q') \<and> earliest live (tq_entries q) d"
  by (rule peek_result [OF assms, of live]) blast

text \<open>
  C19. \<^verbatim>\<open>try_reserve_push\<close> either adds exactly the given entry to a well-formed queue, or reports
  failure and leaves the queue as it was; it fails only when the vector is full and the allocator
  refuses to grow it.
\<close>

theorem try_reserve_push_correct:
  assumes "tq_inv q" "\<And>n c. reserve n = Some c \<Longrightarrow> n < c"
  shows "try_reserve_push reserve q e = Some (Inl (), q) \<and>
      length (heap q) = cap q \<and> reserve (length (heap q)) = None \<or>
    (\<exists>q'. try_reserve_push reserve q e = Some (Inr (), q') \<and> tq_inv q' \<and>
      tq_entries q' = add_mset e (tq_entries q))"
  by (cases rule: try_reserve_push_result [OF assms, where e = e]) auto

subsection \<open>Witnesses\<close>

definition demo_entry :: "u64 \<Rightarrow> u64 \<Rightarrow> deadline_entry" where
  "demo_entry d t = \<lparr>deadline_ns = d, pid = 7, token = t, kind = Sleep\<rparr>"

definition demo_queue :: timer_queue where
  "demo_queue = \<lparr>heap = [demo_entry 10 2, demo_entry 30 1, demo_entry 20 3], cap = 4, next_token_field = 4\<rparr>"

lemma heap_ordered_list:
  "heap_ordered h \<longleftrightarrow> list_all (\<lambda>i. hkey h (parent i) \<le> hkey h i) [1..<length h]"
  by (auto simp: heap_ordered_def ordered_def list_all_iff)

lemma demo_queue_inv: "tq_inv demo_queue"
  by (simp add: tq_inv_def heap_ordered_list demo_queue_def demo_entry_def entry_key_def parent_def
      upt_conv_Cons)

lemma demo_live:
  "live_entries (\<lambda>_ t. t \<noteq> 2) (tq_entries demo_queue) = {#demo_entry 30 1, demo_entry 20 3#}"
  by (simp add: tq_entries_def demo_queue_def demo_entry_def is_live_entry_def)

theorem pop_due_correct_witness:
  "\<exists>q'. pop_due demo_queue 25 (\<lambda>_ t. t \<noteq> 2) = Some (Some (demo_entry 20 3), q') \<and>
    live_entries (\<lambda>_ t. t \<noteq> 2) (tq_entries q') = {#demo_entry 30 1#}"
proof -
  obtain r q' where r: "pop_due demo_queue 25 (\<lambda>_ t. t \<noteq> 2) = Some (r, q')"
    "case r of
       None \<Rightarrow> (\<forall>x \<in># live_entries (\<lambda>_ t. t \<noteq> 2) (tq_entries demo_queue). 25 < deadline_ns x)
     | Some e \<Rightarrow> live_entries (\<lambda>_ t. t \<noteq> 2) (tq_entries demo_queue) =
         add_mset e (live_entries (\<lambda>_ t. t \<noteq> 2) (tq_entries q')) \<and> deadline_ns e \<le> 25"
    using pop_due_correct [OF demo_queue_inv, of 25 "\<lambda>_ t. t \<noteq> 2"]
    by (auto split: option.splits)
  show ?thesis
  proof (cases r)
    case None
    then show ?thesis using r(2) by (simp add: demo_live demo_entry_def)
  next
    case (Some e)
    then have e: "{#demo_entry 30 1, demo_entry 20 3#} =
        add_mset e (live_entries (\<lambda>_ t. t \<noteq> 2) (tq_entries q'))" "deadline_ns e \<le> 25"
      using r(2) by (simp_all add: demo_live)
    then have "e \<in># {#demo_entry 30 1, demo_entry 20 3#}" by simp
    then have "e = demo_entry 20 3" using e(2) by (auto simp: demo_entry_def)
    then show ?thesis using e(1) r(1) Some by (simp add: add_mset_commute)
  qed
qed

theorem peek_deadline_correct_witness:
  "\<exists>d q'. peek_deadline_ns demo_queue (\<lambda>_ t. t \<noteq> 2) = Some (d, q') \<and> d = Some 20"
proof -
  obtain d q' where d: "peek_deadline_ns demo_queue (\<lambda>_ t. t \<noteq> 2) = Some (d, q')"
    "earliest (\<lambda>_ t. t \<noteq> 2) (tq_entries demo_queue) d"
    using peek_deadline_correct [OF demo_queue_inv, of "\<lambda>_ t. t \<noteq> 2"] by blast
  have "d = Some 20"
    using d(2) by (auto simp: earliest_def demo_live demo_entry_def split: option.splits)
  with d(1) show ?thesis by blast
qed

theorem try_reserve_push_correct_witness:
  "\<exists>q'. try_reserve_push (\<lambda>n. Some (n + 4)) demo_queue (demo_entry 5 4) = Some (Inr (), q') \<and>
    tq_entries q' = add_mset (demo_entry 5 4) (tq_entries demo_queue)"
  using try_reserve_push_correct [OF demo_queue_inv, where reserve = "\<lambda>n. Some (n + 4)" and e = "demo_entry 5 4"]
  by (auto simp: demo_queue_def)

end
