(* ===== verification/Fd_Table.thy ===== *)
theory Fd_Table
  imports Prelude
begin

text \<open>
  The descriptor table of a process (\<^verbatim>\<open>sys/proc/mod.rs\<close>, the \<^verbatim>\<open>fd_*\<close> methods of \<^verbatim>\<open>Process\<close>).  An open
  file is an \<^verbatim>\<open>Arc\<close>, represented by its identity.  \<^verbatim>\<open>i32\<close> and \<^verbatim>\<open>i64\<close> values are integers; the one
  conversion that can fail, \<^verbatim>\<open>i32::try_from\<close>, is written out.
\<close>

section \<open>Model\<close>

definition EINVAL :: int where "EINVAL = 22"
definition EBADF :: int where "EBADF = 9"
definition EMFILE :: int where "EMFILE = 24"

record fdentry =
  fe_file :: nat
  fe_fd_flags :: int

type_synonym fd_table = "fdentry option list"

definition fd_entry :: "fd_table \<Rightarrow> int \<Rightarrow> fdentry option" where
  "fd_entry t fd = (if fd < 0 then None else if nat fd < length t then t ! nat fd else None)"

text \<open>\<^verbatim>\<open>Vec::resize_with\<close> towards a greater length.\<close>

definition grow :: "fd_table \<Rightarrow> nat \<Rightarrow> fd_table" where
  "grow t n = t @ replicate (n - length t) None"

definition i32_try_from :: "nat \<Rightarrow> int \<Rightarrow> int + int" where
  "i32_try_from n err = (if n < 2 ^ 31 then Inr (int n) else Inl err)"

text \<open>The offset of the first free slot.\<close>

fun position_none :: "fd_table \<Rightarrow> nat option" where
  "position_none [] = None"
| "position_none (None # t) = Some 0"
| "position_none (Some _ # t) = map_option Suc (position_none t)"

definition install_fd :: "fd_table \<Rightarrow> fdentry \<Rightarrow> int \<Rightarrow> (int + int) \<times> fd_table" where
  "install_fd t e min_fd =
    (if min_fd < 0 then (Inl EINVAL, t)
     else
       let start = nat min_fd;
           t1 = (if length t < start then grow t start else t) in
       case position_none (drop start t1) of
         Some offset \<Rightarrow> (i32_try_from (start + offset) EMFILE, t1[start + offset := Some e])
       | None \<Rightarrow> (i32_try_from (length t1) EMFILE, t1 @ [Some e]))"

definition replace_fd :: "fd_table \<Rightarrow> int \<Rightarrow> fdentry \<Rightarrow> (int + fdentry option) \<times> fd_table" where
  "replace_fd t fd e =
    (if fd < 0 then (Inl EBADF, t)
     else
       let i = nat fd;
           t1 = (if length t \<le> i then grow t (i + 1) else t) in
       (Inr (t1 ! i), t1[i := Some e]))"

definition close_fd :: "fd_table \<Rightarrow> int \<Rightarrow> (int + fdentry) \<times> fd_table" where
  "close_fd t fd =
    (case fd_entry t fd of
       None \<Rightarrow> (Inl EBADF, t)
     | Some e \<Rightarrow> (Inr e, t[nat fd := None]))"

definition close_all_fds :: "fd_table \<Rightarrow> fd_table" where
  "close_all_fds t = []"

section \<open>Lookups after updates\<close>

text \<open>
  What a descriptor names is all a table shows; an update is described by the lookups after it.
  Every operation reaches the table through one of the three rules here.
\<close>

lemma fd_entry_neg [simp]: "fd < 0 \<Longrightarrow> fd_entry t fd = None"
  by (simp add: fd_entry_def)

lemma fd_entry_int [simp]: "fd_entry t (int n) = (if n < length t then t ! n else None)"
  by (simp add: fd_entry_def)

lemma fd_entry_grow [simp]: "fd_entry (grow t n) = fd_entry t"
  by (rule ext) (auto simp: fd_entry_def grow_def nth_append)

lemma length_grow [simp]: "length (grow t n) = max (length t) n"
  by (simp add: grow_def)

lemma fd_entry_update:
  assumes "n < length t"
  shows "fd_entry (t[n := v]) fd = (if fd = int n then v else fd_entry t fd)"
  using assms by (auto simp: fd_entry_def nth_list_update)

lemma fd_entry_append:
  "fd_entry (t @ [v]) fd = (if fd = int (length t) then v else fd_entry t fd)"
  by (auto simp: fd_entry_def nth_append)

lemma fd_entry_close_all [simp]: "fd_entry (close_all_fds t) fd = None"
  by (simp add: fd_entry_def close_all_fds_def)

lemma position_none_Some:
  "position_none t = Some n \<Longrightarrow> n < length t \<and> t ! n = None \<and> (\<forall>m < n. t ! m \<noteq> None)"
proof (induction t arbitrary: n rule: position_none.induct)
  case (3 e t)
  then obtain k where k: "position_none t = Some k" "n = Suc k" by auto
  then show ?case using "3.IH" [OF k(1)] by (auto simp: nth_Cons split: nat.splits)
qed auto

lemma position_none_None: "position_none t = None \<longleftrightarrow> None \<notin> set t"
  by (induction t rule: position_none.induct) auto

text \<open>The lowest free descriptor at or above a bound.\<close>

definition lowest_free :: "fd_table \<Rightarrow> nat \<Rightarrow> nat \<Rightarrow> bool" where
  "lowest_free t start n \<longleftrightarrow> start \<le> n \<and> fd_entry t (int n) = None \<and>
    (\<forall>m. start \<le> m \<and> m < n \<longrightarrow> fd_entry t (int m) \<noteq> None)"

lemma lowest_free_unique:
  assumes "lowest_free t s n" "lowest_free t s m"
  shows "n = m"
  using assms linorder_neqE_nat [of n m] unfolding lowest_free_def by blast

text \<open>
  Installing takes the lowest free slot.  The entry is stored even where the index no longer fits
  \<^verbatim>\<open>i32\<close> and the caller is told \<^verbatim>\<open>EMFILE\<close>.
\<close>

lemma install_fd_result:
  assumes "0 \<le> min_fd"
  obtains n where "lowest_free t (nat min_fd) n" "fst (install_fd t e min_fd) = i32_try_from n EMFILE"
    "\<And>fd. fd_entry (snd (install_fd t e min_fd)) fd = (if fd = int n then Some e else fd_entry t fd)"
proof -
  note goal = that
  define s where "s = nat min_fd"
  define t1 where "t1 = (if length t < s then grow t s else t)"
  have t1: "fd_entry t1 = fd_entry t" "s \<le> length t1" by (simp_all add: t1_def)
  have at: "fd_entry t (int m) = (if m < length t1 then t1 ! m else None)" for m
    using t1(1) fd_entry_int [of t1 m] by simp
  show ?thesis
  proof (cases "position_none (drop s t1)")
    case None
    then have full: "t1 ! m \<noteq> None" if "s \<le> m" "m < length t1" for m
      using that position_none_None [of "drop s t1"] nth_mem [of "m - s" "drop s t1"] diff_less_mono [of m "length t1" s]
      by (cases "t1 ! m") auto
    show ?thesis
    proof (rule goal [of "length t1"])
      show "lowest_free t (nat min_fd) (length t1)"
        using full t1(2) at by (auto simp: lowest_free_def s_def)
    qed (use assms None t1 in \<open>simp_all add: install_fd_def Let_def s_def [symmetric] t1_def [symmetric] fd_entry_append\<close>)
  next
    case (Some k)
    note k = position_none_Some [OF Some]
    have free: "s + k < length t1" "t1 ! (s + k) = None" using k by auto
    have below: "t1 ! m \<noteq> None" if "s \<le> m" "m < s + k" for m
    proof -
      have "m - s < k" "s + (m - s) = m" using that by auto
      then show ?thesis using k by (metis le_add1 le_trans nth_drop less_imp_le_nat free(1))
    qed
    define n where "n = s + k"
    note n = free [folded n_def] below [folded n_def]
    show ?thesis
    proof (rule goal [of n])
      show "lowest_free t (nat min_fd) n"
        using n at le_add1 [of s k] by (auto simp: lowest_free_def s_def [symmetric] n_def [symmetric])
    qed (use assms Some t1 n(1) in
        \<open>simp_all add: install_fd_def Let_def s_def [symmetric] t1_def [symmetric] n_def [symmetric] fd_entry_update\<close>)
  qed
qed

lemma replace_fd_result:
  assumes "0 \<le> fd"
  shows "fst (replace_fd t fd e) = Inr (fd_entry t fd)"
    "fd_entry (snd (replace_fd t fd e)) fd' = (if fd' = fd then Some e else fd_entry t fd')"
proof -
  obtain n where n: "fd = int n" using assms nonneg_int_cases by blast
  let ?t = "if length t \<le> n then grow t (n + 1) else t"
  have t: "fd_entry ?t = fd_entry t" "n < length ?t" by auto
  have "fst (replace_fd t fd e) = Inr (?t ! n)" by (simp add: replace_fd_def n Let_def)
  moreover have "?t ! n = fd_entry ?t (int n)" using t(2) by simp
  ultimately show "fst (replace_fd t fd e) = Inr (fd_entry t fd)" using t(1) n by metis
  show "fd_entry (snd (replace_fd t fd e)) fd' = (if fd' = fd then Some e else fd_entry t fd')"
    using t fd_entry_update [OF t(2), of "Some e" fd'] by (simp add: replace_fd_def n Let_def)
qed

lemma close_fd_result:
  "fst (close_fd t fd) = (case fd_entry t fd of None \<Rightarrow> Inl EBADF | Some e \<Rightarrow> Inr e)"
  "fd_entry (snd (close_fd t fd)) fd' = (if fd' = fd then None else fd_entry t fd')"
proof -
  show "fst (close_fd t fd) = (case fd_entry t fd of None \<Rightarrow> Inl EBADF | Some e \<Rightarrow> Inr e)"
    by (simp add: close_fd_def split: option.splits)
  show "fd_entry (snd (close_fd t fd)) fd' = (if fd' = fd then None else fd_entry t fd')"
  proof (cases "fd_entry t fd")
    case None
    then show ?thesis by (simp add: close_fd_def)
  next
    case (Some e)
    then have "0 \<le> fd" "nat fd < length t" by (auto simp: fd_entry_def split: if_splits)
    then show ?thesis using Some fd_entry_update [of "nat fd" t None fd'] by (simp add: close_fd_def)
  qed
qed

end
