(* ===== verification/Proc.thy ===== *)
theory Proc
  imports Timer_Queue Fd_Table
begin

text \<open>
  Processes, signals and run-queue selection (\<^verbatim>\<open>sys/proc/mod.rs\<close>): the part of \<^verbatim>\<open>Process\<close> that the
  scheduler, the signal code and the wait machinery use, the signal operations, and the round-robin
  choice of the next task with the checks of a context switch.  Address spaces, register contexts
  and ELF loading are not part of the record.
\<close>

section \<open>Model\<close>

datatype process_state =
  Running | Runnable | Sleeping | Waiting | SignalWait | AwaitingIo | Stopped | Dead

definition SIGNAL_COUNT :: nat where "SIGNAL_COUNT = 65"
definition SIGCHLD :: nat where "SIGCHLD = 17"
definition SIGKILL :: nat where "SIGKILL = 9"
definition SIGSTOP :: nat where "SIGSTOP = 19"
definition SIG_IGN :: u64 where "SIG_IGN = 1"
definition DEFAULT_IGNORE_SIGNALS :: "nat list" where "DEFAULT_IGNORE_SIGNALS = [SIGCHLD]"

record signal_action =
  handler :: u64
  sa_mask :: "u64 \<times> u64"
  sa_flags :: u64
  restorer :: u64

record process =
  p_pid :: u16
  p_tgid :: u16
  p_is_thread :: bool
  p_parent_pid :: u16
  p_pgid :: u16
  p_sid :: u16
  p_state :: process_state
  p_fd_table :: fd_table
  p_exit_code :: int
  p_wait_status :: int
  p_wait_reported :: bool
  p_pending_io :: bool
  p_signal_actions :: "signal_action list"
  p_signal_mask :: "u64 \<times> u64"
  p_pending_signals :: u64
  p_sigsuspend_saved_mask :: "u64 \<times> u64"
  p_in_sigsuspend :: bool
  p_wait_token :: "wait_token option"
  p_wait_deadline_ns :: "u64 option"
  p_wake_reason :: "wake_reason option"

subsection \<open>Signals\<close>

text \<open>\<^verbatim>\<open>1u64 << (sig - 1)\<close>; the shift amount is taken modulo 64, as the release build does.\<close>

definition signal_bit :: "nat \<Rightarrow> u64" where
  "signal_bit sig = push_bit ((sig - 1) mod 64) 1"

definition signal_interrupts_sleep :: "process \<Rightarrow> nat \<Rightarrow> bool rs" where
  "signal_interrupts_sleep p sig =
    (if fst (p_signal_mask p) AND signal_bit sig \<noteq> 0 then Some False
     else do {
       a \<leftarrow> idx (p_signal_actions p) sig;
       if handler a = SIG_IGN then Some False
       else if handler a > SIG_IGN then Some True
       else Some (sig \<notin> set DEFAULT_IGNORE_SIGNALS)
     })"

text \<open>\<^verbatim>\<open>u64::trailing_zeros\<close>: the lowest set bit, 64 for zero.\<close>

function trailing_zeros_from :: "u64 \<Rightarrow> nat \<Rightarrow> nat" where
  "trailing_zeros_from w i = (if i \<ge> 64 then 64 else if bit w i then i else trailing_zeros_from w (i + 1))"
  by pat_completeness auto

termination
  by (relation "measure (\<lambda>(_, i). 64 - i)") auto

declare trailing_zeros_from.simps [simp del]

definition trailing_zeros :: "u64 \<Rightarrow> nat" where
  "trailing_zeros w = trailing_zeros_from w 0"

function interrupting_loop :: "process \<Rightarrow> u64 \<Rightarrow> bool rs" where
  "interrupting_loop p bits =
    (if bits = 0 then Some False
     else let sig = trailing_zeros bits + 1 in do {
       b \<leftarrow> signal_interrupts_sleep p sig;
       if b then Some True else interrupting_loop p (bits AND (bits - 1))
     })"
  by pat_completeness auto

termination
proof (relation "measure (\<lambda>(_, b). unat b)"; clarsimp)
  fix bits :: u64
  assume nz: "bits \<noteq> 0"
  have "bits AND (bits - 1) \<le> bits - 1" by (rule word_and_le1)
  also have "\<dots> < bits" using nz by (rule word_pred_less)
  finally show "unat (bits AND (bits - 1)) < unat bits" by (simp add: word_less_nat_alt)
qed

declare interrupting_loop.simps [simp del]

definition has_sleep_interrupting_signal :: "process \<Rightarrow> bool rs" where
  "has_sleep_interrupting_signal p = interrupting_loop p (p_pending_signals p)"

definition queue_signal_proc :: "process \<Rightarrow> nat \<Rightarrow> process rs" where
  "queue_signal_proc p0 sig =
    (if \<not> (1 \<le> sig \<and> sig \<le> 64) then Some p0
     else
       let p = p0\<lparr>p_pending_signals := p_pending_signals p0 OR signal_bit sig\<rparr> in
       if p_state p = Waiting \<or> p_state p = SignalWait then
         Some (p\<lparr>p_state := Runnable, p_pending_io := False\<rparr>)
       else if p_state p = AwaitingIo then do {
         b \<leftarrow> signal_interrupts_sleep p sig;
         Some (if \<not> b then p
           else p\<lparr>p_state := Runnable, p_pending_io := True, p_wait_token := None,
                  p_wait_deadline_ns := None, p_wake_reason := Some Signal\<rparr>)
       }
       else if p_state p = Sleeping then do {
         b \<leftarrow> signal_interrupts_sleep p sig;
         Some (if \<not> b then p
           else p\<lparr>p_state := Runnable, p_wait_token := None,
                  p_wait_deadline_ns := None, p_wake_reason := Some Signal\<rparr>)
       }
       else Some p)"

definition next_unblocked_signal :: "process \<Rightarrow> nat option" where
  "next_unblocked_signal p =
    (let unblocked = p_pending_signals p AND NOT (fst (p_signal_mask p)) in
     if unblocked = 0 then None else Some (trailing_zeros unblocked + 1))"

definition has_unblocked_signal :: "process \<Rightarrow> bool" where
  "has_unblocked_signal p = (next_unblocked_signal p \<noteq> None)"

definition dequeue_signal :: "process \<Rightarrow> nat \<Rightarrow> process" where
  "dequeue_signal p sig =
    (if 1 \<le> sig \<and> sig \<le> 64 then p\<lparr>p_pending_signals := p_pending_signals p AND NOT (signal_bit sig)\<rparr>
     else p)"

definition invalidate_wait_token :: "process \<Rightarrow> process" where
  "invalidate_wait_token p = p\<lparr>p_wait_token := None, p_wait_deadline_ns := None, p_wake_reason := None\<rparr>"

subsection \<open>The process table\<close>

text \<open>
  The table is the list of processes; lookups find the first entry with the pid and updates go
  through the reference that a lookup returned.
\<close>

definition get_process :: "process list \<Rightarrow> u16 \<Rightarrow> process option" where
  "get_process ps i = find (\<lambda>p. p_pid p = i) ps"

fun set_process :: "process list \<Rightarrow> u16 \<Rightarrow> process \<Rightarrow> process list" where
  "set_process [] i q = []"
| "set_process (p # ps) i q = (if p_pid p = i then q # ps else p # set_process ps i q)"

definition find_process_index :: "process list \<Rightarrow> u16 \<Rightarrow> nat option" where
  "find_process_index ps i = (if \<exists>p \<in> set ps. p_pid p = i
     then Some (length (takeWhile (\<lambda>p. p_pid p \<noteq> i) ps)) else None)"

text \<open>SIGKILL and SIGSTOP are taken out of every mask that is installed.\<close>

definition unblockable_cleared :: "u64 \<times> u64 \<Rightarrow> u64 \<times> u64" where
  "unblockable_cleared m =
    (fst m AND (NOT (signal_bit SIGKILL) AND NOT (signal_bit SIGSTOP)), snd m)"

definition swap_signal_mask :: "process list \<Rightarrow> u16 \<Rightarrow> u64 \<times> u64 \<Rightarrow> (u64 \<times> u64) \<times> process list" where
  "swap_signal_mask ps cur new_mask =
    (case get_process ps cur of
       None \<Rightarrow> (new_mask, ps)
     | Some p \<Rightarrow> (p_signal_mask p, set_process ps cur (p\<lparr>p_signal_mask := unblockable_cleared new_mask\<rparr>)))"

definition restore_signal_mask :: "process list \<Rightarrow> u16 \<Rightarrow> u64 \<times> u64 \<Rightarrow> process list" where
  "restore_signal_mask ps cur saved =
    (case get_process ps cur of
       None \<Rightarrow> ps
     | Some p \<Rightarrow> set_process ps cur (p\<lparr>p_signal_mask := unblockable_cleared saved\<rparr>))"

definition take_wake_reason :: "process list \<Rightarrow> u16 \<Rightarrow> wake_reason \<times> process list" where
  "take_wake_reason ps i =
    (case get_process ps i of
       None \<Rightarrow> (Event, ps)
     | Some p \<Rightarrow> (case p_wake_reason p of None \<Rightarrow> Event | Some r \<Rightarrow> r,
         set_process ps i (p\<lparr>p_wake_reason := None\<rparr>)))"

text \<open>Children of an exiting process go to PID 1, which is told about zombies among them.\<close>

definition is_orphan :: "u16 \<Rightarrow> process \<Rightarrow> bool" where
  "is_orphan exiting p \<longleftrightarrow> \<not> p_is_thread p \<and> p_parent_pid p = exiting"

definition reparent_children :: "process list \<Rightarrow> u16 \<Rightarrow> process list rs" where
  "reparent_children ps exiting_pid =
    (if exiting_pid = 1 \<or> \<not> (\<exists>p \<in> set ps. p_pid p = 1) then Some ps
     else
       let ps' = map (\<lambda>p. if is_orphan exiting_pid p then p\<lparr>p_parent_pid := 1\<rparr> else p) ps;
           adopted_zombie = (\<exists>p \<in> set ps. is_orphan exiting_pid p \<and> p_state p = Dead) in
       if adopted_zombie then
         (case get_process ps' 1 of
            None \<Rightarrow> Some ps'
          | Some init \<Rightarrow> do {
              init' \<leftarrow> queue_signal_proc init SIGCHLD;
              Some (set_process ps' 1 init')
            })
       else Some ps')"

subsection \<open>Choosing and switching to the next task\<close>

fun next_runnable_loop :: "process list \<Rightarrow> nat \<Rightarrow> nat \<Rightarrow> nat \<Rightarrow> nat option rs" where
  "next_runnable_loop ps cur step 0 = Some None"
| "next_runnable_loop ps cur step (Suc left) =
    (let i = (cur + step) mod length ps in
     if i = cur then next_runnable_loop ps cur (step + 1) left
     else do {
       p \<leftarrow> idx ps i;
       if p_state p = Runnable then Some (Some i)
       else next_runnable_loop ps cur (step + 1) left
     })"

definition find_next_runnable_index :: "process list \<Rightarrow> nat \<Rightarrow> nat option rs" where
  "find_next_runnable_index ps cur =
    (if length ps < 2 then Some None else next_runnable_loop ps cur 1 (length ps))"

text \<open>The positions of the entries marked Running, in table order.\<close>

definition running_indices :: "process list \<Rightarrow> nat list" where
  "running_indices ps = filter (\<lambda>i. p_state (ps ! i) = Running) [0..<length ps]"

definition validate_running_owner :: "process list \<Rightarrow> nat \<Rightarrow> bool" where
  "validate_running_owner ps expected =
    (case running_indices ps of
       [] \<Rightarrow> False
     | [first] \<Rightarrow> first = expected
     | _ \<Rightarrow> False)"

definition validate_pre_switch_owner :: "process list \<Rightarrow> nat \<Rightarrow> bool" where
  "validate_pre_switch_owner ps cur =
    (case running_indices ps of
       [] \<Rightarrow> True
     | first # _ \<Rightarrow> first = cur \<and> \<not> length (running_indices ps) > 1)"

text \<open>
  The process-table part of \<^verbatim>\<open>switch_by_index_guarded\<close>: the two validations, the refusal of a target
  that is not Runnable, and the two state changes (which stay even if the last validation fails).
\<close>

definition switch_states :: "process list \<Rightarrow> nat \<Rightarrow> nat \<Rightarrow> (bool \<times> process list) rs" where
  "switch_states ps cur next =
    (if cur = next then Some (False, ps)
     else if \<not> validate_pre_switch_owner ps cur then Some (False, ps)
     else do {
       n \<leftarrow> idx ps next;
       if p_state n \<noteq> Runnable then Some (False, ps)
       else do {
         c \<leftarrow> idx ps cur;
         let ps1 = (if p_state c = Running then ps[cur := c\<lparr>p_state := Runnable\<rparr>] else ps);
         let ps2 = ps1[next := n\<lparr>p_state := Running\<rparr>];
         Some (validate_running_owner ps2 next, ps2)
       }
     })"

section \<open>Signal sets\<close>

lemma trailing_zeros_from:
  assumes "\<exists>j \<ge> i. bit w j"
  shows "trailing_zeros_from w i < 64 \<and> i \<le> trailing_zeros_from w i \<and> bit w (trailing_zeros_from w i) \<and>
    (\<forall>j. i \<le> j \<and> j < trailing_zeros_from w i \<longrightarrow> \<not> bit w j)"
  using assms
proof (induction w i rule: trailing_zeros_from.induct)
  case (1 w i)
  from 1(2) obtain j where j: "i \<le> j" "bit w j" by blast
  then have i: "i < 64" using bit_imp_le_length [OF j(2)] by simp
  show ?case
  proof (cases "bit w i")
    case True
    then show ?thesis using i by (auto simp: trailing_zeros_from.simps [of w i])
  next
    case False
    with j have "i + 1 \<le> j" by (cases "i = j") auto
    with j(2) have "\<exists>j \<ge> i + 1. bit w j" by blast
    moreover have eq: "trailing_zeros_from w i = trailing_zeros_from w (i + 1)"
      using i False by (subst trailing_zeros_from.simps) simp
    ultimately have *: "trailing_zeros_from w i < 64 \<and> i + 1 \<le> trailing_zeros_from w i \<and>
        bit w (trailing_zeros_from w i) \<and>
        (\<forall>j. i + 1 \<le> j \<and> j < trailing_zeros_from w i \<longrightarrow> \<not> bit w j)"
      unfolding eq using i False by (intro 1(1)) simp_all
    have "\<not> bit w j" if "i \<le> j" "j < trailing_zeros_from w i" for j
      using * that False by (cases "i = j") auto
    with * show ?thesis by auto
  qed
qed

lemma trailing_zeros_lowest:
  assumes "w \<noteq> 0"
  shows "trailing_zeros w < 64" "bit w (trailing_zeros w)" "j < trailing_zeros w \<Longrightarrow> \<not> bit w j"
proof -
  have "\<exists>j \<ge> 0. bit w j"
  proof (rule ccontr)
    assume "\<not> ?thesis"
    then have "w = 0" by (intro bit_eqI) simp
    with assms show False ..
  qed
  from trailing_zeros_from [OF this]
  show "trailing_zeros w < 64" "bit w (trailing_zeros w)" "j < trailing_zeros w \<Longrightarrow> \<not> bit w j"
    by (auto simp: trailing_zeros_def)
qed

text \<open>\<^verbatim>\<open>bits & (bits - 1)\<close> clears exactly the lowest set bit.\<close>

lemma clear_lowest_bit:
  fixes w :: u64
  assumes "bit w k" "\<And>j. j < k \<Longrightarrow> \<not> bit w j"
  shows "bit (w AND (w - 1)) i \<longleftrightarrow> bit w i \<and> i \<noteq> k"
proof -
  have k: "k < 64" using bit_imp_le_length [OF assms(1)] by simp
  define c where "c = w AND NOT (push_bit k 1)"
  have bc: "bit c i \<longleftrightarrow> bit w i \<and> i \<noteq> k" for i
    using k bit_imp_le_length [of w i] by (auto simp: c_def bit_simps)
  have w: "w = c + push_bit k 1"
  proof -
    have "w = c OR push_bit k 1"
      using assms(1) by (intro bit_eqI) (auto simp: bc bit_simps)
    also have "\<dots> = c + push_bit k 1"
      by (rule disjunctive_add [symmetric]) (auto simp: bc bit_simps)
    finally show ?thesis .
  qed
  have "w - 1 = c + mask k"
    unfolding w mask_eq_exp_minus_1 push_bit_eq_mult by simp
  also have "\<dots> = c OR mask k"
    using assms(2) by (intro disjunctive_add) (auto simp: bc bit_simps)
  finally have "w - 1 = c OR mask k" .
  then show ?thesis
    using assms(2) bit_imp_le_length [of w i] k by (auto simp: bc bit_simps)
qed

definition pending :: "process \<Rightarrow> nat set" where
  "pending p = {sig. 1 \<le> sig \<and> sig \<le> 64 \<and> bit (p_pending_signals p) (sig - 1)}"

definition blocked :: "process \<Rightarrow> nat set" where
  "blocked p = {sig. 1 \<le> sig \<and> sig \<le> 64 \<and> bit (fst (p_signal_mask p)) (sig - 1)}"

text \<open>Whether a signal is deliverable to a waiting process, on the abstract sets.\<close>

definition deliverable :: "process \<Rightarrow> nat \<Rightarrow> bool" where
  "deliverable p sig \<longleftrightarrow>
    sig \<notin> blocked p \<and> handler (p_signal_actions p ! sig) \<noteq> SIG_IGN \<and>
    (handler (p_signal_actions p ! sig) = 0 \<longrightarrow> sig \<noteq> SIGCHLD)"

definition proc_wf :: "process \<Rightarrow> bool" where
  "proc_wf p \<longleftrightarrow> length (p_signal_actions p) = SIGNAL_COUNT"

lemma signal_bit_bit:
  "1 \<le> sig \<Longrightarrow> sig \<le> 64 \<Longrightarrow> bit (signal_bit sig) i \<longleftrightarrow> i = sig - 1"
  by (auto simp: signal_bit_def bit_simps)

lemma and_signal_bit:
  assumes "1 \<le> sig" "sig \<le> 64"
  shows "w AND signal_bit sig = 0 \<longleftrightarrow> \<not> bit w (sig - 1)"
proof -
  have *: "bit (w AND signal_bit sig) i \<longleftrightarrow> bit w (sig - 1) \<and> i = sig - 1" for i
    unfolding bit_and_iff signal_bit_bit [OF assms] by blast
  show ?thesis
  proof
    assume "w AND signal_bit sig = 0"
    then show "\<not> bit w (sig - 1)" using * [of "sig - 1"] by simp
  next
    assume "\<not> bit w (sig - 1)"
    then show "w AND signal_bit sig = 0" by (intro bit_eqI) (simp only: * bit_0_eq bot_apply bot_bool_def simp_thms)
  qed
qed

lemma gt_SIG_IGN: "SIG_IGN < h \<longleftrightarrow> h \<noteq> SIG_IGN \<and> h \<noteq> 0"
proof (cases "h = 0")
  case False
  then have "0 < unat h" by (rule unat_gt_0 [THEN iffD2])
  then have "1 \<le> h" unfolding word_le_nat_alt unat_1 by linarith
  then show ?thesis using False unfolding SIG_IGN_def order_less_le by blast
qed (simp add: SIG_IGN_def)

lemma signal_interrupts_sleep_spec:
  assumes "proc_wf p" "1 \<le> sig" "sig \<le> 64"
  shows "signal_interrupts_sleep p sig = Some (deliverable p sig)"
proof -
  have len: "sig < length (p_signal_actions p)" using assms by (simp add: proc_wf_def SIGNAL_COUNT_def)
  have mask: "fst (p_signal_mask p) AND signal_bit sig = 0 \<longleftrightarrow> sig \<notin> blocked p"
    using assms(2,3) and_signal_bit [OF assms(2,3)] by (simp add: blocked_def)
  show ?thesis
    unfolding signal_interrupts_sleep_def deliverable_def mask gt_SIG_IGN idx_in [OF len]
    by (simp add: DEFAULT_IGNORE_SIGNALS_def)
qed

lemma interrupting_loop_spec:
  assumes "proc_wf p"
  shows "interrupting_loop p bits = Some (\<exists>i < 64. bit bits i \<and> deliverable p (i + 1))"
  using assms
proof (induction p bits rule: interrupting_loop.induct)
  case (1 p bits)
  show ?case
  proof (cases "bits = 0")
    case True
    then show ?thesis by (simp add: interrupting_loop.simps)
  next
    case False
    let ?k = "trailing_zeros bits"
    note tz = trailing_zeros_lowest [OF False]
    have sig: "signal_interrupts_sleep p (?k + 1) = Some (deliverable p (?k + 1))"
      using tz(1) by (intro signal_interrupts_sleep_spec 1(2)) auto
    have clear: "bit (bits AND (bits - 1)) i \<longleftrightarrow> bit bits i \<and> i \<noteq> ?k" for i
      using tz(2,3) by (rule clear_lowest_bit)
    have rec: "interrupting_loop p bits =
        (if deliverable p (?k + 1) then Some True else interrupting_loop p (bits AND (bits - 1)))"
      by (subst interrupting_loop.simps) (simp only: Let_def sig False if_False bind.bind_lunit)
    show ?thesis
    proof (cases "deliverable p (?k + 1)")
      case True
      then have "\<exists>i < 64. bit bits i \<and> deliverable p (i + 1)" using tz(1,2) by blast
      then show ?thesis unfolding rec using True by simp
    next
      case nd: False
      have "interrupting_loop p (bits AND (bits - 1)) =
          Some (\<exists>i < 64. bit (bits AND (bits - 1)) i \<and> deliverable p (i + 1))"
        by (rule 1(1) [OF False refl sig nd 1(2)])
      moreover have "(\<exists>i < 64. bit (bits AND (bits - 1)) i \<and> deliverable p (i + 1)) \<longleftrightarrow>
          (\<exists>i < 64. bit bits i \<and> deliverable p (i + 1))"
        unfolding clear using nd by blast
      ultimately show ?thesis unfolding rec using nd by simp
    qed
  qed
qed

lemma has_sleep_interrupting_signal_spec:
  assumes "proc_wf p"
  shows "has_sleep_interrupting_signal p = Some (\<exists>sig \<in> pending p. deliverable p sig)"
proof -
  have "(\<exists>i < 64. bit (p_pending_signals p) i \<and> deliverable p (i + 1)) \<longleftrightarrow>
      (\<exists>sig \<in> pending p. deliverable p sig)" (is "?L \<longleftrightarrow> ?R")
  proof
    assume ?L
    then obtain i where "i < 64" "bit (p_pending_signals p) i" "deliverable p (i + 1)" by blast
    moreover from this have "i + 1 \<in> pending p" by (simp add: pending_def)
    ultimately show ?R by blast
  next
    assume ?R
    then obtain sig where sig: "1 \<le> sig" "sig \<le> 64" "bit (p_pending_signals p) (sig - 1)" "deliverable p sig"
      unfolding pending_def by blast
    from sig(1,2) have "sig - 1 < 64" "sig - 1 + 1 = sig" by linarith+
    with sig(3,4) show ?L by metis
  qed
  then show ?thesis
    unfolding has_sleep_interrupting_signal_def interrupting_loop_spec [OF assms] by (rule arg_cong)
qed

lemma pending_bits [simp]:
  "pending (p\<lparr>p_state := st\<rparr>) = pending p"
  "pending (p\<lparr>p_pending_io := b\<rparr>) = pending p"
  "pending (p\<lparr>p_wait_token := t\<rparr>) = pending p"
  "pending (p\<lparr>p_wait_deadline_ns := d\<rparr>) = pending p"
  "pending (p\<lparr>p_wake_reason := r\<rparr>) = pending p"
  by (simp_all add: pending_def)

lemma pending_insert:
  assumes "1 \<le> sig" "sig \<le> 64"
  shows "pending (p\<lparr>p_pending_signals := p_pending_signals p OR signal_bit sig\<rparr>) = insert sig (pending p)"
proof -
  have "x - 1 = sig - 1 \<longleftrightarrow> x = sig" if "1 \<le> x" for x using that assms by linarith
  then show ?thesis
    using assms by (auto simp: pending_def bit_or_iff signal_bit_bit [OF assms])
qed

lemma deliverable_pending [simp]:
  "deliverable (p\<lparr>p_pending_signals := w\<rparr>) sig \<longleftrightarrow> deliverable p sig"
  by (simp add: deliverable_def blocked_def)

lemma proc_wf_pending [simp]: "proc_wf (p\<lparr>p_pending_signals := w\<rparr>) \<longleftrightarrow> proc_wf p"
  by (simp add: proc_wf_def)

text \<open>The states a signal can bring a process out of.\<close>

definition signal_wakes :: "process \<Rightarrow> nat \<Rightarrow> bool" where
  "signal_wakes p sig \<longleftrightarrow>
    p_state p = Waiting \<or> p_state p = SignalWait \<or>
    (p_state p = AwaitingIo \<or> p_state p = Sleeping) \<and> deliverable p sig"

lemma queue_signal_proc_result:
  assumes "proc_wf p" "1 \<le> sig" "sig \<le> 64"
  obtains p' where "queue_signal_proc p sig = Some p'" "proc_wf p'" "p_pid p' = p_pid p"
    "pending p' = insert sig (pending p)"
    "p_state p' = (if signal_wakes p sig then Runnable else p_state p)"
    "p_wait_token p' =
      (if p_state p \<in> {AwaitingIo, Sleeping} \<and> deliverable p sig then None else p_wait_token p)"
    "p_wake_reason p' =
      (if p_state p \<in> {AwaitingIo, Sleeping} \<and> deliverable p sig then Some Signal else p_wake_reason p)"
proof -
  let ?p = "p\<lparr>p_pending_signals := p_pending_signals p OR signal_bit sig\<rparr>"
  have sis: "signal_interrupts_sleep ?p sig = Some (deliverable p sig)"
    using signal_interrupts_sleep_spec [of ?p sig] assms by simp
  have range: "1 \<le> sig \<and> sig \<le> 64" using assms(2,3) by simp
  note pi = pending_insert [OF assms(2,3), of p]
  define q where "q =
    (if p_state p = Waiting \<or> p_state p = SignalWait then ?p\<lparr>p_state := Runnable, p_pending_io := False\<rparr>
     else if p_state p = AwaitingIo \<and> deliverable p sig
       then ?p\<lparr>p_state := Runnable, p_pending_io := True, p_wait_token := None,
              p_wait_deadline_ns := None, p_wake_reason := Some Signal\<rparr>
     else if p_state p = Sleeping \<and> deliverable p sig
       then ?p\<lparr>p_state := Runnable, p_wait_token := None,
              p_wait_deadline_ns := None, p_wake_reason := Some Signal\<rparr>
     else ?p)"
  have "queue_signal_proc p sig = Some q"
    using range sis by (simp add: queue_signal_proc_def Let_def q_def)
  then show ?thesis
    by (rule that) (use assms(1) in \<open>auto simp: q_def pi signal_wakes_def proc_wf_def\<close>)
qed

lemma next_unblocked_spec:
  "next_unblocked_signal p = None \<longleftrightarrow> pending p \<subseteq> blocked p"
  "next_unblocked_signal p = Some sig \<Longrightarrow>
    sig \<in> pending p - blocked p \<and> (\<forall>s \<in> pending p - blocked p. sig \<le> s)"
proof -
  define u where "u = p_pending_signals p AND NOT (fst (p_signal_mask p))"
  have bu: "bit u i \<longleftrightarrow> i + 1 \<in> pending p - blocked p" for i
    using bit_imp_le_length [of "p_pending_signals p" i]
    by (auto simp: u_def bit_and_iff bit_not_iff pending_def blocked_def)
  have mem: "s \<in> pending p - blocked p \<longleftrightarrow> 1 \<le> s \<and> bit u (s - 1)" for s
    using bu [of "s - 1"] by (cases s) (auto simp: pending_def)
  have none: "u = 0 \<longleftrightarrow> pending p \<subseteq> blocked p"
  proof
    assume "u = 0" then show "pending p \<subseteq> blocked p" using mem by auto
  next
    assume "pending p \<subseteq> blocked p"
    then have "\<not> bit u i" for i using bu [of i] by blast
    then show "u = 0" by (intro bit_eqI) simp
  qed
  then show "next_unblocked_signal p = None \<longleftrightarrow> pending p \<subseteq> blocked p"
    by (simp add: next_unblocked_signal_def u_def [symmetric] Let_def)
  assume "next_unblocked_signal p = Some sig"
  then have u: "u \<noteq> 0" "sig = trailing_zeros u + 1"
    by (simp_all add: next_unblocked_signal_def u_def [symmetric] Let_def split: if_splits)
  note tz = trailing_zeros_lowest [OF u(1)]
  have "sig \<le> s" if "s \<in> pending p - blocked p" for s
    using that tz(3) [of "s - 1"] u(2) unfolding mem by (cases s) (auto simp: not_less [symmetric])
  then show "sig \<in> pending p - blocked p \<and> (\<forall>s \<in> pending p - blocked p. sig \<le> s)"
    using tz(2) u(2) bu by simp
qed

section \<open>The process table\<close>

definition table_wf :: "process list \<Rightarrow> bool" where
  "table_wf ps \<longleftrightarrow> distinct (map p_pid ps) \<and> (\<forall>p \<in> set ps. proc_wf p)"

lemma get_process_Some: "get_process ps i = Some p \<Longrightarrow> p \<in> set ps \<and> p_pid p = i"
  by (auto simp: get_process_def find_Some_iff)

lemma get_process_in:
  "distinct (map p_pid ps) \<Longrightarrow> p \<in> set ps \<Longrightarrow> get_process ps (p_pid p) = Some p"
  by (induction ps) (auto simp: get_process_def)

lemma get_process_None: "get_process ps i = None \<longleftrightarrow> i \<notin> p_pid ` set ps"
  by (induction ps) (auto simp: get_process_def)

lemma set_process_pids [simp]:
  "p_pid q = i \<Longrightarrow> map p_pid (set_process ps i q) = map p_pid ps"
  by (induction ps) auto

lemma length_set_process [simp]: "length (set_process ps i q) = length ps"
  by (induction ps) auto

lemma get_set_process:
  assumes "p_pid q = i"
  shows "get_process (set_process ps i q) j =
    (if j = i then (if i \<in> p_pid ` set ps then Some q else None) else get_process ps j)"
  using assms by (induction ps) (auto simp: get_process_def)

lemma set_set_process:
  assumes "distinct (map p_pid ps)" "p_pid q = i"
  shows "set (set_process ps i q) =
    (if i \<in> p_pid ` set ps then insert q {p \<in> set ps. p_pid p \<noteq> i} else set ps)"
  using assms by (induction ps) (auto simp: image_iff)

lemma set_process_wf [wf_intro]:
  assumes "table_wf ps" "p_pid q = i" "proc_wf q"
  shows "table_wf (set_process ps i q)"
  using assms set_set_process [of ps q i] by (auto simp: table_wf_def)

section \<open>Round-robin selection\<close>

text \<open>
  The distance from one table position forward to another, around the end: the order in which
  \<^verbatim>\<open>find_next_runnable_index\<close> looks at the table.
\<close>

definition ahead :: "nat \<Rightarrow> nat \<Rightarrow> nat \<Rightarrow> nat" where
  "ahead n cur i = (if cur < i then i - cur else i + n - cur)"

lemma ahead_step:
  assumes "cur < n" "0 < step" "step < n"
  shows "ahead n cur ((cur + step) mod n) = step" "(cur + step) mod n \<noteq> cur" "(cur + step) mod n < n"
proof -
  have "(cur + step) mod n = (if cur + step < n then cur + step else cur + step - n)"
    using assms by (simp add: mod_if)
  then show "ahead n cur ((cur + step) mod n) = step" "(cur + step) mod n \<noteq> cur" "(cur + step) mod n < n"
    using assms by (auto simp: ahead_def)
qed

lemma ahead_inv:
  assumes "cur < n" "i < n" "i \<noteq> cur"
  shows "0 < ahead n cur i" "ahead n cur i < n" "(cur + ahead n cur i) mod n = i"
  using assms by (auto simp: ahead_def)

lemma next_runnable_loop_spec:
  assumes "cur < length ps" "0 < step" "step + left = length ps + 1"
    "\<forall>i < length ps. i \<noteq> cur \<and> ahead (length ps) cur i < step \<longrightarrow> p_state (ps ! i) \<noteq> Runnable"
  shows "\<exists>r. next_runnable_loop ps cur step left = Some r \<and>
    (case r of
       None \<Rightarrow> \<forall>i < length ps. i \<noteq> cur \<longrightarrow> p_state (ps ! i) \<noteq> Runnable
     | Some i \<Rightarrow> i < length ps \<and> i \<noteq> cur \<and> p_state (ps ! i) = Runnable \<and>
         (\<forall>j < length ps. j \<noteq> cur \<and> p_state (ps ! j) = Runnable \<longrightarrow>
           ahead (length ps) cur i \<le> ahead (length ps) cur j))"
  using assms
proof (induction ps cur step left rule: next_runnable_loop.induct)
  case (1 ps cur step)
  then have "ahead (length ps) cur i < step" if "i < length ps" "i \<noteq> cur" for i
    using ahead_inv(2) [of cur "length ps" i] that by simp
  with 1 show ?case by auto
next
  case (2 ps cur step left)
  let ?n = "length ps" and ?i = "(cur + step) mod length ps"
  show ?case
  proof (cases "step = ?n")
    case True
    then have i: "?i = cur" using 2(3) by simp
    have "\<forall>i < ?n. i \<noteq> cur \<and> ahead ?n cur i < step + 1 \<longrightarrow> p_state (ps ! i) \<noteq> Runnable"
      using 2(6) ahead_inv(2) [of cur ?n] 2(3) True by simp
    then show ?thesis using 2(1) [OF refl i] 2(3,5) i by simp
  next
    case False
    then have step: "step < ?n" using 2(5) by linarith
    note st = ahead_step [OF 2(3,4) step]
    show ?thesis
    proof (cases "p_state (ps ! ?i) = Runnable")
      case True
      have "step \<le> ahead ?n cur j" if "j < ?n" "j \<noteq> cur" "p_state (ps ! j) = Runnable" for j
        using 2(6) that by (meson not_less)
      then show ?thesis using True st by (auto simp: Let_def)
    next
      case notrun: False
      have same: "j = ?i" if "j < ?n" "j \<noteq> cur" "ahead ?n cur j = step" for j
        using ahead_inv(3) [OF 2(3) that(1,2)] that(3) by simp
      have nx: "\<forall>j < ?n. j \<noteq> cur \<and> ahead ?n cur j < step + 1 \<longrightarrow> p_state (ps ! j) \<noteq> Runnable"
      proof (intro allI impI)
        fix j assume j: "j < ?n" "j \<noteq> cur \<and> ahead ?n cur j < step + 1"
        show "p_state (ps ! j) \<noteq> Runnable"
          using 2(6) j same [of j] notrun by (cases "ahead ?n cur j = step") auto
      qed
      show ?thesis
        using 2(2) [OF refl st(2) idx_in [OF st(3)] notrun 2(3) _ _ nx] 2(5) st notrun
        by (simp add: Let_def)
    qed
  qed
qed

lemma find_next_runnable_spec:
  assumes "cur < length ps"
  shows "\<exists>r. find_next_runnable_index ps cur = Some r \<and>
    (case r of
       None \<Rightarrow> \<forall>i < length ps. i \<noteq> cur \<longrightarrow> p_state (ps ! i) \<noteq> Runnable
     | Some i \<Rightarrow> i < length ps \<and> i \<noteq> cur \<and> p_state (ps ! i) = Runnable \<and>
         (\<forall>j < length ps. j \<noteq> cur \<and> p_state (ps ! j) = Runnable \<longrightarrow>
           ahead (length ps) cur i \<le> ahead (length ps) cur j))"
proof (cases "length ps < 2")
  case True
  then have "\<forall>i < length ps. i = cur" using assms by auto
  then show ?thesis using True by (simp add: find_next_runnable_index_def)
next
  case False
  have "\<forall>i < length ps. i \<noteq> cur \<and> ahead (length ps) cur i < 1 \<longrightarrow> p_state (ps ! i) \<noteq> Runnable"
  proof (intro allI impI)
    fix i assume "i < length ps" "i \<noteq> cur \<and> ahead (length ps) cur i < 1"
    then show "p_state (ps ! i) \<noteq> Runnable" using ahead_inv(1) [OF assms, of i] by linarith
  qed
  from next_runnable_loop_spec [OF assms zero_less_one _ this, of "length ps"] False
  show ?thesis by (simp add: find_next_runnable_index_def)
qed

section \<open>Context switches keep one running task\<close>

text \<open>Only position \<^verbatim>\<open>cur\<close> may be marked Running.\<close>

definition owned_by :: "process list \<Rightarrow> nat \<Rightarrow> bool" where
  "owned_by ps cur \<longleftrightarrow> (\<forall>i < length ps. p_state (ps ! i) = Running \<longrightarrow> i = cur)"

lemma running_indices_set: "set (running_indices ps) = {i. i < length ps \<and> p_state (ps ! i) = Running}"
  by (auto simp: running_indices_def)

lemma distinct_running [simp]: "distinct (running_indices ps)"
  by (simp add: running_indices_def)

lemma validate_pre_switch_owner_iff: "validate_pre_switch_owner ps cur \<longleftrightarrow> owned_by ps cur"
proof (cases "running_indices ps")
  case Nil
  then show ?thesis using running_indices_set [of ps] by (auto simp: validate_pre_switch_owner_def owned_by_def)
next
  case (Cons a as)
  have "set (a # as) = {i. i < length ps \<and> p_state (ps ! i) = Running}" "distinct (a # as)"
    using running_indices_set [of ps] distinct_running [of ps] Cons by simp_all
  then show ?thesis
    unfolding validate_pre_switch_owner_def owned_by_def Cons
    by (cases as) (auto simp: set_eq_iff)
qed

lemma validate_running_owner_iff:
  "validate_running_owner ps i \<longleftrightarrow> owned_by ps i \<and> i < length ps \<and> p_state (ps ! i) = Running"
proof -
  have mem: "j \<in> set (running_indices ps) \<longleftrightarrow> j < length ps \<and> p_state (ps ! j) = Running" for j
    by (simp add: running_indices_set)
  have owned: "owned_by ps i \<longleftrightarrow> (\<forall>j \<in> set (running_indices ps). j = i)"
    by (auto simp: owned_by_def mem)
  consider (nil) "running_indices ps = []" | (one) a where "running_indices ps = [a]"
    | (more) a b cs where "running_indices ps = a # b # cs"
    by (metis neq_Nil_conv)
  then show ?thesis
  proof cases
    case nil
    then show ?thesis using mem [of i] by (simp add: validate_running_owner_def)
  next
    case one
    then show ?thesis using mem [of i] owned by (auto simp: validate_running_owner_def)
  next
    case more
    then have "a \<noteq> b" using distinct_running [of ps] by simp
    then show ?thesis using more owned by (simp add: validate_running_owner_def)
  qed
qed

lemma switch_states_result:
  assumes "cur < length ps" "nxt < length ps" "cur \<noteq> nxt" "owned_by ps cur" "p_state (ps ! nxt) = Runnable"
  shows "\<exists>ps'. switch_states ps cur nxt = Some (True, ps') \<and> owned_by ps' nxt \<and>
    p_state (ps' ! nxt) = Running \<and> length ps' = length ps \<and>
    p_state (ps' ! cur) = (if p_state (ps ! cur) = Running then Runnable else p_state (ps ! cur)) \<and>
    (\<forall>i < length ps. i \<noteq> cur \<and> i \<noteq> nxt \<longrightarrow> ps' ! i = ps ! i)"
proof -
  let ?c = "ps ! cur" and ?n = "ps ! nxt"
  define ps1 where "ps1 = (if p_state ?c = Running then ps[cur := ?c\<lparr>p_state := Runnable\<rparr>] else ps)"
  define ps2 where "ps2 = ps1[nxt := ?n\<lparr>p_state := Running\<rparr>]"
  have len: "length ps2 = length ps" by (simp add: ps2_def ps1_def)
  have at: "ps2 ! nxt = ?n\<lparr>p_state := Running\<rparr>"
    "p_state (ps2 ! cur) = (if p_state ?c = Running then Runnable else p_state ?c)"
    "\<forall>i < length ps. i \<noteq> cur \<and> i \<noteq> nxt \<longrightarrow> ps2 ! i = ps ! i"
    using assms(1-3) by (auto simp: ps2_def ps1_def)
  have own: "owned_by ps2 nxt"
    unfolding owned_by_def len
  proof (intro allI impI)
    fix i assume i: "i < length ps" "p_state (ps2 ! i) = Running"
    show "i = nxt"
    proof (rule ccontr)
      assume n: "i \<noteq> nxt"
      show False
      proof (cases "i = cur")
        case True
        then show False using i(2) at(2) by (simp split: if_splits)
      next
        case False
        then show False using i n at(3) assms(4) by (simp add: owned_by_def)
      qed
    qed
  qed
  then have "validate_running_owner ps2 nxt"
    using assms(2) at(1) len by (simp add: validate_running_owner_iff)
  moreover have "switch_states ps cur nxt = Some (validate_running_owner ps2 nxt, ps2)"
    using assms by (simp add: switch_states_def validate_pre_switch_owner_iff Let_def ps2_def ps1_def)
  ultimately show ?thesis
    using own at len by (intro exI [of _ ps2]) simp
qed

end
