(* ===== verification/Preempt.thy ===== *)
theory Preempt
  imports Prelude
begin

text \<open>
  Preemption accounting (\<^verbatim>\<open>sys/preempt.rs\<close>): the nesting counters of preemption-disabled, interrupt
  and context sections, the nest-safe interrupt masking, the scheduler quantum, and the guard that
  keeps the scheduler from being re-entered.  The counters are \<^verbatim>\<open>usize\<close> and wrap; all of them belong
  to the boot processor, the only one that runs this code.

  The record is open: the kernel state that the scheduler works on extends it.
\<close>

section \<open>Model\<close>

record preempt =
  preempt_count :: u64
  irq_depth :: u64
  in_scheduler :: bool
  irq_disable_depth :: u64
  interrupts_enabled :: bool
  need_resched :: bool
  quantum_deadline :: u64
  held_lock_count :: u64
  fault_context :: u64
  allocator_context :: u64
  process_table_context :: u64
  vfs_context :: u64
  pagetable_context :: u64

definition QUANTUM_NS :: u64 where "QUANTUM_NS = 10000000"
definition ENABLE_KERNEL_PREEMPTION :: bool where "ENABLE_KERNEL_PREEMPTION = False"

text \<open>\<^verbatim>\<open>u64::saturating_add\<close> and \<^verbatim>\<open>u64::saturating_sub\<close>.\<close>

definition saturating_add :: "u64 \<Rightarrow> u64 \<Rightarrow> u64" where
  "saturating_add a b = (if unat a + unat b < 2 ^ 64 then a + b else - 1)"

definition saturating_sub :: "u64 \<Rightarrow> u64 \<Rightarrow> u64" where
  "saturating_sub a b = (if b \<le> a then a - b else 0)"

text \<open>\<^verbatim>\<open>decrement\<close>: the new value, or nothing when the counter was zero (and stays zero).\<close>

definition decrement :: "u64 \<Rightarrow> u64 option" where
  "decrement c = (if c = 0 then None else Some (c - 1))"

definition dec_or_zero :: "u64 \<Rightarrow> u64" where
  "dec_or_zero c = (case decrement c of None \<Rightarrow> c | Some c' \<Rightarrow> c')"

subsection \<open>Preemption counter\<close>

definition preempt_disable :: "'a preempt_scheme \<Rightarrow> 'a preempt_scheme" where
  "preempt_disable p = p\<lparr>preempt_count := preempt_count p + 1\<rparr>"

definition preempt_enable_no_resched :: "'a preempt_scheme \<Rightarrow> 'a preempt_scheme" where
  "preempt_enable_no_resched p = p\<lparr>preempt_count := dec_or_zero (preempt_count p)\<rparr>"

definition can_resched_now :: "'a preempt_scheme \<Rightarrow> bool" where
  "can_resched_now p \<longleftrightarrow> need_resched p \<and> preempt_count p = 0 \<and> irq_depth p = 0 \<and> \<not> in_scheduler p"

text \<open>\<^verbatim>\<open>sched\<close> is \<^verbatim>\<open>proc::schedule_now\<close>, which these functions call back into.\<close>

definition cond_resched ::
  "('a preempt_scheme \<Rightarrow> 'a preempt_scheme) \<Rightarrow> 'a preempt_scheme \<Rightarrow> 'a preempt_scheme" where
  "cond_resched sched p =
    (if preempt_count p \<noteq> 0 then p
     else if can_resched_now p then sched p
     else p)"

definition preempt_enable ::
  "('a preempt_scheme \<Rightarrow> 'a preempt_scheme) \<Rightarrow> 'a preempt_scheme \<Rightarrow> 'a preempt_scheme" where
  "preempt_enable sched p =
    (let p' = p\<lparr>preempt_count := dec_or_zero (preempt_count p)\<rparr> in
     if decrement (preempt_count p) = Some 0 then cond_resched sched p' else p')"

text \<open>A preemption guard: its two flags, the constructors, and what \<^verbatim>\<open>release\<close> and \<^verbatim>\<open>drop\<close> do.\<close>

record preempt_guard =
  pg_active :: bool
  resched_on_drop :: bool

definition preempt_guard_new :: "'a preempt_scheme \<Rightarrow> preempt_guard \<times> 'a preempt_scheme" where
  "preempt_guard_new p = (\<lparr>pg_active = True, resched_on_drop = True\<rparr>, preempt_disable p)"

definition preempt_guard_new_no_resched :: "'a preempt_scheme \<Rightarrow> preempt_guard \<times> 'a preempt_scheme" where
  "preempt_guard_new_no_resched p = (\<lparr>pg_active = True, resched_on_drop = False\<rparr>, preempt_disable p)"

definition preempt_guard_drop ::
  "('a preempt_scheme \<Rightarrow> 'a preempt_scheme) \<Rightarrow> preempt_guard \<Rightarrow> 'a preempt_scheme \<Rightarrow>
    preempt_guard \<times> 'a preempt_scheme" where
  "preempt_guard_drop sched g p =
    (if pg_active g then
       (g\<lparr>pg_active := False\<rparr>,
        if resched_on_drop g then preempt_enable sched p else preempt_enable_no_resched p)
     else (g, p))"

subsection \<open>Interrupt nesting and masking\<close>

definition irq_enter :: "'a preempt_scheme \<Rightarrow> 'a preempt_scheme" where
  "irq_enter p = p\<lparr>irq_depth := irq_depth p + 1\<rparr>"

definition irq_exit :: "'a preempt_scheme \<Rightarrow> 'a preempt_scheme" where
  "irq_exit p = p\<lparr>irq_depth := dec_or_zero (irq_depth p)\<rparr>"

definition irq_save :: "'a preempt_scheme \<Rightarrow> bool \<times> 'a preempt_scheme" where
  "irq_save p =
    (let was_enabled = interrupts_enabled p;
         p1 = p\<lparr>interrupts_enabled := False\<rparr>;
         p2 = p1\<lparr>irq_disable_depth := irq_disable_depth p1 + 1\<rparr>
     in (was_enabled, p2))"

definition irq_restore :: "bool \<Rightarrow> 'a preempt_scheme \<Rightarrow> 'a preempt_scheme" where
  "irq_restore was_enabled p =
    (case decrement (irq_disable_depth p) of
       None \<Rightarrow> p
     | Some d \<Rightarrow>
         let p' = p\<lparr>irq_disable_depth := d\<rparr> in
         if d = 0 \<and> was_enabled then p'\<lparr>interrupts_enabled := True\<rparr> else p')"

subsection \<open>Reschedule requests and the quantum\<close>

definition set_need_resched :: "'a preempt_scheme \<Rightarrow> 'a preempt_scheme" where
  "set_need_resched p = p\<lparr>need_resched := True\<rparr>"

definition clear_need_resched :: "'a preempt_scheme \<Rightarrow> 'a preempt_scheme" where
  "clear_need_resched p = p\<lparr>need_resched := False\<rparr>"

definition quantum_deadline_ns :: "'a preempt_scheme \<Rightarrow> u64 option" where
  "quantum_deadline_ns p = (let d = quantum_deadline p in if d \<noteq> 0 then Some d else None)"

definition reset_quantum :: "u64 \<Rightarrow> 'a preempt_scheme \<Rightarrow> 'a preempt_scheme" where
  "reset_quantum now p = p\<lparr>quantum_deadline := saturating_add now QUANTUM_NS\<rparr>"

definition clear_quantum :: "'a preempt_scheme \<Rightarrow> 'a preempt_scheme" where
  "clear_quantum p = p\<lparr>quantum_deadline := 0\<rparr>"

definition account_quantum :: "u64 \<Rightarrow> 'a preempt_scheme \<Rightarrow> 'a preempt_scheme" where
  "account_quantum now p =
    (let d = quantum_deadline p in
     if d \<noteq> 0 \<and> now \<ge> d then (set_need_resched p)\<lparr>quantum_deadline := 0\<rparr> else p)"

subsection \<open>Locks and contexts\<close>

definition lock_count_inc :: "'a preempt_scheme \<Rightarrow> 'a preempt_scheme" where
  "lock_count_inc p = p\<lparr>held_lock_count := held_lock_count p + 1\<rparr>"

definition lock_count_dec :: "'a preempt_scheme \<Rightarrow> 'a preempt_scheme" where
  "lock_count_dec p = p\<lparr>held_lock_count := dec_or_zero (held_lock_count p)\<rparr>"

definition locks_held :: "'a preempt_scheme \<Rightarrow> bool" where
  "locks_held p \<longleftrightarrow> held_lock_count p \<noteq> 0"

datatype context_kind = FaultCtx | AllocatorCtx | ProcessTableCtx | VfsCtx | PagetableCtx

fun context_counter :: "context_kind \<Rightarrow> 'a preempt_scheme \<Rightarrow> u64" where
  "context_counter FaultCtx p = fault_context p"
| "context_counter AllocatorCtx p = allocator_context p"
| "context_counter ProcessTableCtx p = process_table_context p"
| "context_counter VfsCtx p = vfs_context p"
| "context_counter PagetableCtx p = pagetable_context p"

fun set_context_counter :: "context_kind \<Rightarrow> u64 \<Rightarrow> 'a preempt_scheme \<Rightarrow> 'a preempt_scheme" where
  "set_context_counter FaultCtx c p = p\<lparr>fault_context := c\<rparr>"
| "set_context_counter AllocatorCtx c p = p\<lparr>allocator_context := c\<rparr>"
| "set_context_counter ProcessTableCtx c p = p\<lparr>process_table_context := c\<rparr>"
| "set_context_counter VfsCtx c p = p\<lparr>vfs_context := c\<rparr>"
| "set_context_counter PagetableCtx c p = p\<lparr>pagetable_context := c\<rparr>"

definition context_enter :: "context_kind \<Rightarrow> 'a preempt_scheme \<Rightarrow> 'a preempt_scheme" where
  "context_enter k p = set_context_counter k (context_counter k p + 1) p"

definition context_drop :: "context_kind \<Rightarrow> 'a preempt_scheme \<Rightarrow> 'a preempt_scheme" where
  "context_drop k p = set_context_counter k (dec_or_zero (context_counter k p)) p"

definition in_context :: "context_kind \<Rightarrow> 'a preempt_scheme \<Rightarrow> bool" where
  "in_context k p \<longleftrightarrow> context_counter k p \<noteq> 0"

definition can_preempt_kernel :: "'a preempt_scheme \<Rightarrow> bool" where
  "can_preempt_kernel p =
    (if \<not> ENABLE_KERNEL_PREEMPTION then False
     else if \<not> need_resched p then False
     else if preempt_count p \<noteq> 0 then False
     else if irq_depth p \<noteq> 0 then False
     else if in_scheduler p then False
     else if locks_held p then False
     else if in_context FaultCtx p then False
     else if in_context AllocatorCtx p then False
     else if in_context ProcessTableCtx p then False
     else if in_context VfsCtx p then False
     else if in_context PagetableCtx p then False
     else True)"

subsection \<open>The scheduler guard\<close>

text \<open>
  \<^verbatim>\<open>try_enter\<close>: entering succeeds with \<^term>\<open>True\<close>.  No other processor runs this code, so the
  compare-and-exchange sees the flag the first test saw; its failure branch is kept.
\<close>

definition scheduler_try_enter :: "'a preempt_scheme \<Rightarrow> bool \<times> 'a preempt_scheme" where
  "scheduler_try_enter p =
    (if in_scheduler p then (False, p)
     else if preempt_count p \<noteq> 0 then (False, p)
     else
       let p1 = preempt_disable p in
       if in_scheduler p1 then (False, preempt_enable_no_resched p1)
       else (True, p1\<lparr>in_scheduler := True\<rparr>))"

definition scheduler_release :: "bool \<Rightarrow> 'a preempt_scheme \<Rightarrow> bool \<times> 'a preempt_scheme" where
  "scheduler_release active p =
    (if active then (False, preempt_enable_no_resched (p\<lparr>in_scheduler := False\<rparr>))
     else (active, p))"

subsection \<open>Lock guards\<close>

text \<open>
  The guards of \<^verbatim>\<open>utils/sync.rs\<close>.  The spin locks inside are those of the \<^verbatim>\<open>spin\<close> crate; what is
  modelled is everything the wrappers add, in the order the code does it: a lock guard is dropped by
  releasing the lock, leaving the interrupt section, and then dropping its preemption guard.
\<close>

record mutex_guard =
  irq_was_enabled :: bool
  owns_irq_disable :: bool
  mg_preempt :: preempt_guard

definition mutex_lock :: "'a preempt_scheme \<Rightarrow> mutex_guard \<times> 'a preempt_scheme" where
  "mutex_lock p =
    (let (g, p1) = preempt_guard_new_no_resched p;
         p2 = lock_count_inc p1
     in (\<lparr>irq_was_enabled = False, owns_irq_disable = False, mg_preempt = g\<rparr>, p2))"

definition mutex_lock_irq :: "'a preempt_scheme \<Rightarrow> mutex_guard \<times> 'a preempt_scheme" where
  "mutex_lock_irq p =
    (let (was_enabled, p1) = irq_save p;
         (g, p2) = preempt_guard_new_no_resched p1;
         p3 = lock_count_inc p2
     in (\<lparr>irq_was_enabled = was_enabled, owns_irq_disable = True, mg_preempt = g\<rparr>, p3))"

definition mutex_guard_drop :: "mutex_guard \<Rightarrow> 'a preempt_scheme \<Rightarrow> 'a preempt_scheme" where
  "mutex_guard_drop g p =
    (let p1 = lock_count_dec p;
         p2 = (if owns_irq_disable g then irq_restore (irq_was_enabled g) p1 else p1)
     in snd (preempt_guard_drop id (mg_preempt g) p2))"

definition rwlock_enter :: "'a preempt_scheme \<Rightarrow> preempt_guard \<times> 'a preempt_scheme" where
  "rwlock_enter p =
    (let (g, p1) = preempt_guard_new_no_resched p; p2 = lock_count_inc p1 in (g, p2))"

definition rwlock_guard_drop :: "preempt_guard \<Rightarrow> 'a preempt_scheme \<Rightarrow> 'a preempt_scheme" where
  "rwlock_guard_drop g p = snd (preempt_guard_drop id g (lock_count_dec p))"

section \<open>Guards nest\<close>

text \<open>
  A critical section is a guard and the sections inside it; guards are dropped in reverse order of
  creation, which is how Rust scopes drop them.  Running it gives the final state and the states in
  which its body and the bodies inside it ran.
\<close>

datatype guard_kind = LockGuard | LockIrqGuard | IrqGuard | RwGuard

datatype critical = Critical guard_kind "critical list"

datatype any_guard = MutexG mutex_guard | IrqG bool | RwG preempt_guard

fun guard_enter :: "guard_kind \<Rightarrow> 'a preempt_scheme \<Rightarrow> any_guard \<times> 'a preempt_scheme" where
  "guard_enter LockGuard p = (let (g, p') = mutex_lock p in (MutexG g, p'))"
| "guard_enter LockIrqGuard p = (let (g, p') = mutex_lock_irq p in (MutexG g, p'))"
| "guard_enter IrqGuard p = (let (w, p') = irq_save p in (IrqG w, p'))"
| "guard_enter RwGuard p = (let (g, p') = rwlock_enter p in (RwG g, p'))"

fun guard_drop :: "any_guard \<Rightarrow> 'a preempt_scheme \<Rightarrow> 'a preempt_scheme" where
  "guard_drop (MutexG g) p = mutex_guard_drop g p"
| "guard_drop (IrqG w) p = irq_restore w p"
| "guard_drop (RwG g) p = rwlock_guard_drop g p"

fun run_critical :: "critical \<Rightarrow> 'a preempt_scheme \<Rightarrow> 'a preempt_scheme \<times> 'a preempt_scheme list"
and run_criticals :: "critical list \<Rightarrow> 'a preempt_scheme \<Rightarrow> 'a preempt_scheme \<times> 'a preempt_scheme list"
where
  "run_critical (Critical k cs) p =
    (let (g, p1) = guard_enter k p;
         (p2, inner) = run_criticals cs p1
     in (guard_drop g p2, p1 # p2 # inner))"
| "run_criticals [] p = (p, [])"
| "run_criticals (c # cs) p =
    (let (p1, t1) = run_critical c p;
         (p2, t2) = run_criticals cs p1
     in (p2, t1 @ t2))"

fun depth_of :: "critical \<Rightarrow> nat" and depths_of :: "critical list \<Rightarrow> nat" where
  "depth_of (Critical k cs) = Suc (depths_of cs)"
| "depths_of [] = 0"
| "depths_of (c # cs) = max (depth_of c) (depths_of cs)"

definition masks :: "guard_kind \<Rightarrow> bool" where
  "masks k \<longleftrightarrow> k = LockIrqGuard \<or> k = IrqGuard"

text \<open>Interrupts are off inside a masking section, and the counters have room for \<^verbatim>\<open>n\<close> more levels.\<close>

definition irq_ok :: "'a preempt_scheme \<Rightarrow> bool" where
  "irq_ok p \<longleftrightarrow> (irq_disable_depth p \<noteq> 0 \<longrightarrow> \<not> interrupts_enabled p)"

definition room :: "nat \<Rightarrow> 'a preempt_scheme \<Rightarrow> bool" where
  "room n p \<longleftrightarrow> unat (preempt_count p) + n < 2 ^ 64 \<and> unat (irq_disable_depth p) + n < 2 ^ 64 \<and>
    unat (held_lock_count p) + n < 2 ^ 64"

lemma inc_no_wrap:
  fixes c :: u64
  assumes "unat c + Suc n < 2 ^ 64"
  shows "c + 1 \<noteq> 0" "unat (c + 1) = Suc (unat c)"
proof -
  show u: "unat (c + 1) = Suc (unat c)"
    using assms by (intro unat_word_ariths(1) [of c 1, THEN trans]) simp
  show "c + 1 \<noteq> 0" using u by (metis nat.distinct(1) unat_0)
qed

lemma dec_inc [simp]: "c + 1 \<noteq> 0 \<Longrightarrow> dec_or_zero (c + 1) = c"
  by (simp add: dec_or_zero_def decrement_def)

lemma guard_enter_state:
  "irq_ok p \<Longrightarrow> irq_ok (snd (guard_enter k p))"
  "room (Suc n) p \<Longrightarrow> room n (snd (guard_enter k p))"
  "masks k \<Longrightarrow> \<not> interrupts_enabled (snd (guard_enter k p))"
  "\<not> interrupts_enabled p \<Longrightarrow> \<not> interrupts_enabled (snd (guard_enter k p))"
  using inc_no_wrap [of "preempt_count p" n] inc_no_wrap [of "irq_disable_depth p" n]
    inc_no_wrap [of "held_lock_count p" n]
  by (cases k; simp add: irq_ok_def room_def masks_def mutex_lock_def mutex_lock_irq_def irq_save_def
      rwlock_enter_def preempt_guard_new_no_resched_def preempt_disable_def lock_count_inc_def Let_def)+

text \<open>Dropping a guard undoes its creation.\<close>

lemma guard_enter_drop:
  assumes "room (Suc n) p" "irq_ok p" "guard_enter k p = (g, p1)"
  shows "guard_drop g p1 = p"
proof -
  have nz: "preempt_count p + 1 \<noteq> 0" "irq_disable_depth p + 1 \<noteq> 0" "held_lock_count p + 1 \<noteq> 0"
    using assms(1) inc_no_wrap(1) by (auto simp: room_def)
  show ?thesis
    using assms(2,3) nz
    by (cases k; cases "interrupts_enabled p"; cases "irq_disable_depth p = 0")
      (auto simp: irq_ok_def mutex_lock_def mutex_lock_irq_def irq_save_def rwlock_enter_def
        preempt_guard_new_no_resched_def preempt_disable_def lock_count_inc_def Let_def
        mutex_guard_drop_def lock_count_dec_def irq_restore_def decrement_def preempt_guard_drop_def
        preempt_enable_no_resched_def rwlock_guard_drop_def)
qed

lemma room_max [simp]: "room (max m n) p \<longleftrightarrow> room m p \<and> room n p"
  by (auto simp: room_def max_def)

lemma guard_entered:
  assumes "guard_enter k p = (g, p1)" "irq_ok p" "room (Suc n) p"
  shows "irq_ok p1" "room n p1" "masks k \<or> \<not> interrupts_enabled p \<Longrightarrow> \<not> interrupts_enabled p1"
  using guard_enter_state(1) [where p = p and k = k] guard_enter_state(2) [where p = p and k = k and n = n]
    guard_enter_state(3,4) [where p = p and k = k] assms
  by auto

lemma run_critical_restores:
  shows "irq_ok p \<Longrightarrow> room (depth_of c) p \<Longrightarrow> fst (run_critical c p) = p"
    and "irq_ok p \<Longrightarrow> room (depths_of cs) p \<Longrightarrow> fst (run_criticals cs p) = p"
proof (induction c p and cs p rule: run_critical_run_criticals.induct)
  case (1 k cs p)
  obtain g p1 where g: "guard_enter k p = (g, p1)" by fastforce
  have "irq_ok p1" "room (depths_of cs) p1"
    using guard_entered [OF g 1(2)] 1(3) by simp_all
  then have "fst (run_criticals cs p1) = p1" using 1(1) [OF g [symmetric] refl] by simp
  moreover have "guard_drop g p1 = p" using guard_enter_drop [OF _ 1(2) g] 1(3) by simp
  ultimately show ?case using g by (simp add: Let_def case_prod_unfold)
next
  case (2 p)
  then show ?case by simp
next
  case (3 c cs p)
  have c: "fst (run_critical c p) = p" using 3(1,3,4) by simp
  obtain t where t: "run_critical c p = (p, t)" using c by (cases "run_critical c p") simp
  have "fst (run_criticals cs p) = p" using 3(2) [OF t [symmetric] refl 3(3)] 3(4) by simp
  then show ?case using t by (simp add: Let_def case_prod_unfold)
qed

text \<open>Every state inside a section that runs with interrupts off has them off.\<close>

lemma run_critical_masked:
  shows "irq_ok p \<Longrightarrow> room (depth_of c) p \<Longrightarrow> \<not> interrupts_enabled p \<Longrightarrow>
      \<forall>q \<in> set (snd (run_critical c p)). \<not> interrupts_enabled q"
    and "irq_ok p \<Longrightarrow> room (depths_of cs) p \<Longrightarrow> \<not> interrupts_enabled p \<Longrightarrow>
      \<forall>q \<in> set (snd (run_criticals cs p)). \<not> interrupts_enabled q"
proof (induction c p and cs p rule: run_critical_run_criticals.induct)
  case (1 k cs p)
  obtain g p1 where g: "guard_enter k p = (g, p1)" by fastforce
  have p1: "irq_ok p1" "room (depths_of cs) p1" "\<not> interrupts_enabled p1"
    using guard_entered [OF g 1(2)] 1(3,4) by simp_all
  then have "\<forall>q \<in> set (snd (run_criticals cs p1)). \<not> interrupts_enabled q"
    using 1(1) [OF g [symmetric] refl] by simp
  moreover have "fst (run_criticals cs p1) = p1" using run_critical_restores(2) p1(1,2) .
  ultimately show ?case using g p1(3) by (simp add: Let_def case_prod_unfold)
next
  case (2 p)
  then show ?case by simp
next
  case (3 c cs p)
  obtain t where t: "run_critical c p = (p, t)"
    using run_critical_restores(1) [OF 3(3), of c] 3(4) by (cases "run_critical c p") simp
  have "\<forall>q \<in> set t. \<not> interrupts_enabled q" using 3(1) [OF 3(3) _ 3(5)] 3(4) t by simp
  moreover have "\<forall>q \<in> set (snd (run_criticals cs p)). \<not> interrupts_enabled q"
    using 3(2) [OF t [symmetric] refl 3(3) _ 3(5)] 3(4) by simp
  ultimately show ?case using t by (auto simp: Let_def case_prod_unfold)
qed

lemma masking_section_masked:
  assumes "irq_ok p" "room (depth_of (Critical k cs)) p" "masks k"
  shows "\<forall>q \<in> set (snd (run_critical (Critical k cs) p)). \<not> interrupts_enabled q"
proof -
  obtain g p1 where g: "guard_enter k p = (g, p1)" by fastforce
  have p1: "irq_ok p1" "room (depths_of cs) p1" "\<not> interrupts_enabled p1"
    using guard_entered [OF g assms(1)] assms(2,3) by simp_all
  show ?thesis
    using run_critical_masked(2) [OF p1] run_critical_restores(2) [OF p1(1,2)] g p1(3)
    by (simp add: Let_def case_prod_unfold)
qed

section \<open>Properties\<close>

text \<open>
  C13. Interrupt and lock guards nest: running any well-nested arrangement of \<^verbatim>\<open>Mutex::lock\<close>,
  \<^verbatim>\<open>Mutex::lock_irq\<close>, \<^verbatim>\<open>IrqGuard\<close> and \<^verbatim>\<open>RwLock\<close> sections restores every counter and the interrupt
  flag, and as long as any enclosing guard masks interrupts they stay off, whatever inner guards are
  dropped.
\<close>

theorem guards_nest:
  assumes "irq_ok p" "room (depth_of (Critical k cs)) p"
  shows "fst (run_critical (Critical k cs) p) = p \<and>
    (masks k \<longrightarrow> (\<forall>q \<in> set (snd (run_critical (Critical k cs) p)). \<not> interrupts_enabled q))"
  using run_critical_restores(1) [OF assms] masking_section_masked [OF assms] by blast

text \<open>
  The scheduler cannot be re-entered: entering succeeds exactly when the scheduler is not active
  and preemption is enabled, while it is active every further attempt fails and changes nothing, and
  releasing it gives back the state before.
\<close>

theorem scheduler_guard_exclusive:
  "case scheduler_try_enter p of (ok, p') \<Rightarrow>
    (ok \<longleftrightarrow> \<not> in_scheduler p \<and> preempt_count p = 0) \<and>
    (if ok then in_scheduler p' \<and> scheduler_try_enter p' = (False, p') \<and>
        \<not> can_resched_now p' \<and> scheduler_release True p' = (False, p)
     else p' = p)"
  by (auto simp: scheduler_try_enter_def scheduler_release_def preempt_disable_def can_resched_now_def
      preempt_enable_no_resched_def dec_or_zero_def decrement_def Let_def)

text \<open>
  The quantum requests one reschedule: a running slice is reported as expired at or after its
  end and not before, the expired deadline is cleared so that the next event does not select it
  again, and a slice armed at time \<^verbatim>\<open>now\<close> is never over at \<^verbatim>\<open>now\<close>.
\<close>

theorem quantum_expires_once:
  assumes "now < - 1" "\<not> need_resched p"
  shows "(need_resched (account_quantum t (reset_quantum now p)) \<longleftrightarrow> t \<ge> saturating_add now QUANTUM_NS) \<and>
    quantum_deadline_ns (account_quantum t (reset_quantum now p)) =
      (if t \<ge> saturating_add now QUANTUM_NS then None else Some (saturating_add now QUANTUM_NS)) \<and>
    now < saturating_add now QUANTUM_NS"
proof -
  have less: "now < saturating_add now QUANTUM_NS"
  proof (cases "unat now + 10000000 < 2 ^ 64")
    case True
    then have "unat (now + QUANTUM_NS) = unat now + 10000000"
      by (subst unat_word_ariths(1)) (simp add: QUANTUM_NS_def)
    then show ?thesis using True by (simp add: saturating_add_def QUANTUM_NS_def word_less_nat_alt)
  next
    case False
    then show ?thesis using assms(1) by (simp add: saturating_add_def QUANTUM_NS_def)
  qed
  then have nz: "saturating_add now QUANTUM_NS \<noteq> 0" by (metis word_not_simps(1))
  show ?thesis
    using nz less assms(2)
    by (simp add: account_quantum_def reset_quantum_def quantum_deadline_ns_def set_need_resched_def Let_def)
qed

definition idle_preempt :: preempt where
  "idle_preempt = \<lparr>preempt_count = 0, irq_depth = 0, in_scheduler = False, irq_disable_depth = 0,
    interrupts_enabled = True, need_resched = False, quantum_deadline = 0, held_lock_count = 0,
    fault_context = 0, allocator_context = 0, process_table_context = 0, vfs_context = 0,
    pagetable_context = 0\<rparr>"

theorem guards_nest_witness:
  "irq_ok idle_preempt \<and>
    fst (run_critical (Critical LockIrqGuard [Critical IrqGuard [], Critical LockGuard []]) idle_preempt) =
      idle_preempt"
  using guards_nest [of idle_preempt LockIrqGuard "[Critical IrqGuard [], Critical LockGuard []]"]
  by (simp add: irq_ok_def room_def idle_preempt_def)

theorem quantum_expires_once_witness:
  "quantum_deadline_ns (account_quantum 5 (reset_quantum 0 idle_preempt)) = Some 10000000 \<and>
    need_resched (account_quantum 10000000 (reset_quantum 0 idle_preempt))"
proof -
  have "(0 :: u64) < - 1" by (simp add: word_gt_0)
  moreover have "\<not> need_resched idle_preempt" by (simp add: idle_preempt_def)
  ultimately show ?thesis
    using quantum_expires_once [of 0 idle_preempt 5] quantum_expires_once [of 0 idle_preempt 10000000]
    by (simp add: saturating_add_def QUANTUM_NS_def)
qed

end
