(* ===== verification/Clock.thy ===== *)
theory Clock
  imports Prelude
begin

text \<open>
  Timekeeping arithmetic: the fixed-point clocksource (\<^verbatim>\<open>driver/time/clocksource.rs\<close>), its HPET
  counterpart (\<^verbatim>\<open>driver/time/hpet.rs\<close>) and the one-shot programming of the local APIC timer
  (\<^verbatim>\<open>driver/apic/lapic.rs\<close>).  A \<^verbatim>\<open>u128\<close> is a natural number with the reduction modulo
  \<^verbatim>\<open>2^128\<close> written out; counters and results are 64-bit words.
\<close>

section \<open>Model\<close>

subsection \<open>Clocksource\<close>

record clock_source =
  epoch_cycles :: u64
  mult :: u64
  shift :: nat
  freq_hz :: u64
  last_ns :: u64

definition clock_source_new :: "u64 \<Rightarrow> u64 \<Rightarrow> nat \<Rightarrow> u64 \<Rightarrow> clock_source" where
  "clock_source_new e m s f = \<lparr>epoch_cycles = e, mult = m, shift = s, freq_hz = f, last_ns = 0\<rparr>"

text \<open>The conversion both backends share: multiply, round to nearest, shift, saturate.\<close>

definition cycles_to_ns :: "u64 \<Rightarrow> u64 \<Rightarrow> nat \<Rightarrow> u64" where
  "cycles_to_ns delta m s =
    (let raw = (unat delta * unat m) mod 2 ^ 128;
         ns = (if s = 0 then raw else ((raw + 2 ^ (s - 1)) mod 2 ^ 128) div 2 ^ s)
     in of_nat (min ns (2 ^ 64 - 1)))"

definition elapsed_ns :: "clock_source \<Rightarrow> u64 \<Rightarrow> u64 \<times> clock_source" where
  "elapsed_ns cs now =
    (let delta = now - epoch_cycles cs;
         ns = cycles_to_ns delta (mult cs) (shift cs);
         prev = last_ns cs
     in (max ns prev, cs\<lparr>last_ns := max prev ns\<rparr>))"

text \<open>
  The search for the largest shift whose multiplier fits in 64 bits, from 32 downwards.
  \<^verbatim>\<open>num\<close> is the numerator before the shift, \<^verbatim>\<open>den\<close> the divisor.
\<close>

fun mult_shift_loop :: "nat \<Rightarrow> nat \<Rightarrow> nat \<Rightarrow> u64 \<times> nat" where
  "mult_shift_loop num den 0 = (of_nat ((num + den div 2) div den), 0)"
| "mult_shift_loop num den (Suc s) =
    (let m = ((num * 2 ^ Suc s) mod 2 ^ 128 + den div 2) mod 2 ^ 128 div den in
     if m \<le> 2 ^ 64 - 1 then (of_nat m, Suc s) else mult_shift_loop num den s)"

definition compute_mult_shift :: "u64 \<Rightarrow> u64 \<times> nat" where
  "compute_mult_shift f = (if f = 0 then (0, 0) else mult_shift_loop 1000000000 (unat f) 32)"

subsection \<open>HPET\<close>

definition compute_mult_shift_period :: "u64 \<Rightarrow> u64 \<times> nat" where
  "compute_mult_shift_period period_fs =
    (if period_fs = 0 then (0, 0) else mult_shift_loop (unat period_fs) 1000000 32)"

record hpet_clock =
  hp_epoch :: u64
  hp_mult :: u64
  hp_shift :: nat
  hp_last_ns :: u64

definition hpet_read_ns :: "hpet_clock \<Rightarrow> u64 \<Rightarrow> u64 \<times> hpet_clock" where
  "hpet_read_ns h counter =
    (let delta = counter - hp_epoch h;
         ns = cycles_to_ns delta (hp_mult h) (hp_shift h);
         prev = hp_last_ns h
     in (max ns prev, h\<lparr>hp_last_ns := max prev ns\<rparr>))"

datatype clocksource_backend = Tsc clock_source | Hpet hpet_clock

text \<open>\<^verbatim>\<open>counter\<close> is the value the selected hardware counter shows.\<close>

fun read_ns :: "clocksource_backend \<Rightarrow> u64 \<Rightarrow> u64 \<times> clocksource_backend" where
  "read_ns (Tsc cs) counter = (let (ns, cs') = elapsed_ns cs counter in (ns, Tsc cs'))"
| "read_ns (Hpet h) counter = (let (ns, h') = hpet_read_ns h counter in (ns, Hpet h'))"

subsection \<open>Local APIC timer\<close>

definition MIN_COUNT_TICKS :: nat where "MIN_COUNT_TICKS = 8"
definition TIMER_ONE_SHOT :: u32 where "TIMER_ONE_SHOT = 0"
definition TIMER_VECTOR :: u32 where "TIMER_VECTOR = 0xFD"
definition DIVIDE_BY_16 :: u32 where "DIVIDE_BY_16 = 3"
definition MASKED :: u32 where "MASKED = 0x10000"

datatype clockevent_mode = OneShot | PeriodicFallback

record lapic_clockevent =
  ticks_per_sec :: u64
  min_delta :: u64
  ce_mode :: clockevent_mode

text \<open>The timer registers of the local APIC.\<close>

record lapic_regs =
  lvt_timer :: u32
  tdcr :: u32
  ticr :: u32

text \<open>\<^verbatim>\<open>saturating_mul\<close> and \<^verbatim>\<open>saturating_add\<close> on \<^verbatim>\<open>u128\<close>.\<close>

definition sat128 :: "nat \<Rightarrow> nat" where
  "sat128 n = min n (2 ^ 128 - 1)"

definition ns_to_ticks :: "u64 \<Rightarrow> u64 \<Rightarrow> u32" where
  "ns_to_ticks delta_ns tps =
    (if tps = 0 \<or> delta_ns = 0 then of_nat MIN_COUNT_TICKS
     else
       let ticks = sat128 (sat128 (unat delta_ns * unat tps) + 999999999) div 1000000000 in
       if ticks > 2 ^ 32 - 1 then - 1
       else if ticks < MIN_COUNT_TICKS then of_nat MIN_COUNT_TICKS
       else of_nat ticks)"

definition ticks_to_ns :: "u32 \<Rightarrow> u64 \<Rightarrow> u64" where
  "ticks_to_ns ticks tps =
    (if tps = 0 then 0 else of_nat (sat128 (unat ticks * 1000000000) div unat tps))"

definition max_delta_ns_of :: "lapic_clockevent \<Rightarrow> u64" where
  "max_delta_ns_of ce = ticks_to_ns (- 1) (ticks_per_sec ce)"

text \<open>\<^verbatim>\<open>Ord::clamp\<close>: a panic when the bounds are in the wrong order.\<close>

definition clamp :: "u64 \<Rightarrow> u64 \<Rightarrow> u64 \<Rightarrow> u64 rs" where
  "clamp x lo hi = (if lo \<le> hi then Some (if x < lo then lo else if x > hi then hi else x) else None)"

text \<open>\<^term>\<open>None\<close> for the clockevent is the state before calibration.\<close>

definition program_oneshot_ns :: "lapic_clockevent option \<Rightarrow> u64 \<Rightarrow> lapic_regs \<Rightarrow> lapic_regs rs" where
  "program_oneshot_ns ce_opt delta_ns r =
    (case ce_opt of
       None \<Rightarrow> Some r
     | Some ce \<Rightarrow>
         if ce_mode ce \<noteq> OneShot then Some r
         else do {
           delta \<leftarrow> clamp delta_ns (min_delta ce) (max_delta_ns_of ce);
           let count = ns_to_ticks delta (ticks_per_sec ce);
           Some (r\<lparr>lvt_timer := TIMER_ONE_SHOT OR TIMER_VECTOR, tdcr := DIVIDE_BY_16, ticr := count\<rparr>)
         })"

definition cancel_timer :: "lapic_clockevent option \<Rightarrow> lapic_regs \<Rightarrow> lapic_regs" where
  "cancel_timer ce_opt r =
    (case ce_opt of
       None \<Rightarrow> r
     | Some ce \<Rightarrow> if ce_mode ce \<noteq> OneShot then r else r\<lparr>lvt_timer := MASKED\<rparr>)"

definition min_delta_ns :: "lapic_clockevent option \<Rightarrow> u64" where
  "min_delta_ns ce_opt = (case ce_opt of None \<Rightarrow> 1 | Some ce \<Rightarrow> min_delta ce)"

text \<open>
  \<^verbatim>\<open>calibrate_oneshot\<close> after the measurement: \<^verbatim>\<open>elapsed_ticks\<close> counted over the clocksource interval
  from \<^verbatim>\<open>start\<close> to \<^verbatim>\<open>end\<close>.
\<close>

definition FREQ_MIN_HZ :: nat where "FREQ_MIN_HZ = 1000"
definition FREQ_MAX_HZ :: nat where "FREQ_MAX_HZ = 10000000000"

definition calibrated :: "u64 \<Rightarrow> u64 \<Rightarrow> u32 \<Rightarrow> lapic_clockevent option" where
  "calibrated start_ns end_ns elapsed_ticks =
    (if end_ns < start_ns then None
     else if end_ns - start_ns = 0 then None
     else
       let tps = unat elapsed_ticks * 1000000000 div unat (end_ns - start_ns) in
       if \<not> (FREQ_MIN_HZ \<le> tps \<and> tps \<le> FREQ_MAX_HZ) \<or> elapsed_ticks = 0 then None
       else Some \<lparr>ticks_per_sec = of_nat tps,
         min_delta = max (ticks_to_ns (of_nat MIN_COUNT_TICKS) (of_nat tps)) 1,
         ce_mode = OneShot\<rparr>)"

section \<open>The conversion\<close>

lemma unat_max_u64: "unat (- 1 :: u64) = 2 ^ 64 - 1"
  by (simp add: unsigned_minus_1_eq_mask mask_eq_exp_minus_1)

lemma unat_max_u32: "unat (- 1 :: u32) = 2 ^ 32 - 1"
  by (simp add: unsigned_minus_1_eq_mask mask_eq_exp_minus_1)

lemma word_prod_bound:
  fixes a b :: u64
  shows "unat a * unat b + 2 ^ 63 < 2 ^ 128"
proof -
  have "unat a \<le> 2 ^ 64 - 1" "unat b \<le> 2 ^ 64 - 1"
    using unat_u64_less [of a] unat_u64_less [of b] by linarith+
  then have "unat a * unat b \<le> (2 ^ 64 - 1) * (2 ^ 64 - 1)" by (rule mult_le_mono)
  then have "unat a * unat b + 2 ^ 63 \<le> (2 ^ 64 - 1) * (2 ^ 64 - 1) + 2 ^ 63" by (rule add_right_mono)
  also have "\<dots> < (2 ^ 128 :: nat)" by simp
  finally show ?thesis .
qed

definition round_div :: "nat \<Rightarrow> nat \<Rightarrow> nat" where
  "round_div n s = (if s = 0 then n else (n + 2 ^ (s - 1)) div 2 ^ s)"

lemma cycles_to_ns_unat:
  assumes "s \<le> 64"
  shows "unat (cycles_to_ns d m s) = min (round_div (unat d * unat m) s) (2 ^ 64 - 1)"
proof -
  have half: "(2 :: nat) ^ (s - 1) \<le> 2 ^ 63" using assms by (intro power_increasing) auto
  have "unat d * unat m < 2 ^ 128" "unat d * unat m + 2 ^ (s - 1) < 2 ^ 128"
    using word_prod_bound [of d m] half by linarith+
  then have "cycles_to_ns d m s = of_nat (min (round_div (unat d * unat m) s) (2 ^ 64 - 1))"
    unfolding cycles_to_ns_def Let_def round_div_def by (simp only: mod_less)
  moreover have "min (round_div (unat d * unat m) s) (2 ^ 64 - 1) < 2 ^ 64"
    by (simp add: min_less_iff_disj)
  ultimately show ?thesis by (simp only: unat_of_nat_u64)
qed

text \<open>The shift search never backs off from 32 when the quotient before the shift is small.\<close>

lemma numeral_32_Suc: "(32 :: nat) = Suc 31"
  by simp

lemma mult_shift_32:
  assumes "0 < den" "num \<le> 2 ^ 32 * den - den" "num \<le> 2 ^ 64" "den \<le> 2 ^ 64"
  shows "mult_shift_loop num den 32 = (of_nat ((num * 2 ^ 32 + den div 2) div den), 32)"
    and "(num * 2 ^ 32 + den div 2) div den < 2 ^ 64"
proof -
  have "num * 2 ^ 32 + den div 2 < 2 ^ 64 * den"
  proof -
    have "num * 2 ^ 32 \<le> (2 ^ 32 * den - den) * 2 ^ 32" using assms(2) by simp
    also have "\<dots> = 2 ^ 64 * den - 2 ^ 32 * den" by (simp add: diff_mult_distrib algebra_simps)
    finally have "num * 2 ^ 32 + 2 ^ 32 * den \<le> 2 ^ 64 * den" by simp
    moreover have "den div 2 < 2 ^ 32 * den" using assms(1) by simp
    ultimately show ?thesis by linarith
  qed
  then show lt: "(num * 2 ^ 32 + den div 2) div den < 2 ^ 64"
    using assms(1) by (simp add: div_less_iff_less_mult)
  have "num * 2 ^ 32 \<le> 2 ^ 64 * 2 ^ 32" using assms(3) by simp
  then have "num * 2 ^ 32 + den div 2 \<le> 2 ^ 64 * 2 ^ 32 + 2 ^ 64"
    using assms(4) by (intro add_mono) simp_all
  also have "\<dots> < (2 ^ 128 :: nat)" by simp
  finally have "num * 2 ^ 32 < 2 ^ 128" "num * 2 ^ 32 + den div 2 < 2 ^ 128" by simp_all
  then have eq: "((num * 2 ^ Suc 31) mod 2 ^ 128 + den div 2) mod 2 ^ 128 div den =
      (num * 2 ^ 32 + den div 2) div den"
    by (simp only: mod_less numeral_32_Suc [symmetric])
  have le: "(num * 2 ^ 32 + den div 2) div den \<le> 2 ^ 64 - 1" using lt by linarith
  have "mult_shift_loop num den (Suc 31) = (of_nat ((num * 2 ^ 32 + den div 2) div den), Suc 31)"
    by (simp only: mult_shift_loop.simps Let_def eq le if_True)
  then show "mult_shift_loop num den 32 = (of_nat ((num * 2 ^ 32 + den div 2) div den), 32)"
    by (simp only: numeral_32_Suc)
qed

lemma compute_mult_shift_eq:
  assumes "f \<noteq> 0"
  shows "compute_mult_shift f = (of_nat ((1000000000 * 2 ^ 32 + unat f div 2) div unat f), 32)"
    "(1000000000 * 2 ^ 32 + unat f div 2) div unat f < 2 ^ 64"
proof -
  have f: "0 < unat f" "unat f \<le> 2 ^ 64"
    using assms unat_u64_less [of f] by (simp_all add: unat_gt_0)
  have "(1000000000 :: nat) \<le> 2 ^ 32 * unat f - unat f" using f(1) by simp
  from mult_shift_32 [OF f(1) this _ f(2)] assms
  show "compute_mult_shift f = (of_nat ((1000000000 * 2 ^ 32 + unat f div 2) div unat f), 32)"
    "(1000000000 * 2 ^ 32 + unat f div 2) div unat f < 2 ^ 64"
    by (simp_all add: compute_mult_shift_def)
qed

text \<open>Rounding to the nearest is off by at most half a divisor.\<close>

lemma nearest_div:
  fixes n d :: nat
  assumes "0 < d"
  shows "2 * n \<le> 2 * ((n + d div 2) div d * d) + d"
    "2 * ((n + d div 2) div d * d) \<le> 2 * n + d"
proof -
  let ?q = "(n + d div 2) div d"
  have lo: "?q * d \<le> n + d div 2" by (rule div_times_less_eq_dividend)
  have hi: "n + d div 2 < ?q * d + d" using dividend_less_div_times [OF assms, of "n + d div 2"] by linarith
  have d: "2 * (d div 2) \<le> d" "d \<le> 2 * (d div 2) + 1" by simp_all
  show "2 * n \<le> 2 * (?q * d) + d" using hi d by linarith
  show "2 * (?q * d) \<le> 2 * n + d" using lo d by linarith
qed

lemma round_div_nearest:
  "2 * n \<le> 2 * (round_div n 32 * 2 ^ 32) + 2 ^ 32" "2 * (round_div n 32 * 2 ^ 32) \<le> 2 * n + 2 ^ 32"
  using nearest_div [of "2 ^ 32" n] by (simp_all add: round_div_def)

text \<open>The two rounding errors of a conversion, combined.\<close>

lemma conversion_error:
  fixes d f c :: nat
  assumes "0 < f"
  defines "M \<equiv> (c * 2 ^ 32 + f div 2) div f" and "N \<equiv> round_div (d * ((c * 2 ^ 32 + f div 2) div f)) 32"
  shows "2 ^ 33 * (d * c) \<le> 2 ^ 33 * (N * f) + f * (2 ^ 32 + d)"
    and "2 ^ 33 * (N * f) \<le> 2 ^ 33 * (d * c) + f * (2 ^ 32 + d)"
proof -
  have 1: "2 * (c * 2 ^ 32) \<le> 2 * (M * f) + f" "2 * (M * f) \<le> 2 * (c * 2 ^ 32) + f"
    unfolding M_def by (rule nearest_div [OF assms(1)])+
  have 2: "2 * (d * M) \<le> 2 * (N * 2 ^ 32) + 2 ^ 32" "2 * (N * 2 ^ 32) \<le> 2 * (d * M) + 2 ^ 32"
    unfolding N_def M_def by (rule round_div_nearest)+
  have 3: "d * (2 * (c * 2 ^ 32)) \<le> d * (2 * (M * f) + f)" "d * (2 * (M * f)) \<le> d * (2 * (c * 2 ^ 32) + f)"
    using 1 by (intro mult_left_mono; simp)+
  have 4: "f * (2 * (d * M)) \<le> f * (2 * (N * 2 ^ 32) + 2 ^ 32)"
    "f * (2 * (N * 2 ^ 32)) \<le> f * (2 * (d * M) + 2 ^ 32)"
    using 2 by (intro mult_left_mono; simp)+
  have e1: "d * (2 * (c * 2 ^ 32)) = 2 ^ 33 * (d * c)" and e2: "f * (2 * (N * 2 ^ 32)) = 2 ^ 33 * (N * f)"
    by (simp_all add: algebra_simps)
  have e3: "d * (2 * (M * f)) = f * (2 * (d * M))" by (simp add: algebra_simps)
  show "2 ^ 33 * (d * c) \<le> 2 ^ 33 * (N * f) + f * (2 ^ 32 + d)"
    using 3(1) 4(1) e1 e2 e3 by (simp only: distrib_left mult.commute [of d f])
  show "2 ^ 33 * (N * f) \<le> 2 ^ 33 * (d * c) + f * (2 ^ 32 + d)"
    using 3(2) 4(2) e1 e2 e3 by (simp only: distrib_left mult.commute [of d f])
qed

lemma clocksource_error:
  assumes "f \<noteq> 0" "compute_mult_shift f = (m, s)" "cycles_to_ns d m s \<noteq> - 1"
  shows "s = 32" "2 ^ 33 * (unat d * 1000000000) \<le> 2 ^ 33 * (unat (cycles_to_ns d m s) * unat f) + unat f * (2 ^ 32 + unat d)"
    "2 ^ 33 * (unat (cycles_to_ns d m s) * unat f) \<le> 2 ^ 33 * (unat d * 1000000000) + unat f * (2 ^ 32 + unat d)"
proof -
  let ?M = "(1000000000 * 2 ^ 32 + unat f div 2) div unat f"
  show s: "s = 32" using assms(2) compute_mult_shift_eq(1) [OF assms(1)] by simp
  have m: "unat m = ?M"
    using assms(2) compute_mult_shift_eq [OF assms(1)] unat_of_nat_u64 by auto
  have u: "unat (cycles_to_ns d m s) = min (round_div (unat d * ?M) 32) (2 ^ 64 - 1)"
    using cycles_to_ns_unat [of s d m] s m by simp
  have "round_div (unat d * ?M) 32 < 2 ^ 64 - 1"
  proof (rule ccontr)
    assume "\<not> ?thesis"
    then have "unat (cycles_to_ns d m s) = unat (- 1 :: u64)" using u by (simp add: unat_max_u64)
    then show False using assms(3) by (simp only: word_unat_eq_iff)
  qed
  then have n: "unat (cycles_to_ns d m s) = round_div (unat d * ?M) 32" using u by simp
  have f: "0 < unat f" using assms(1) by (simp add: unat_gt_0)
  show "2 ^ 33 * (unat d * 1000000000) \<le> 2 ^ 33 * (unat (cycles_to_ns d m s) * unat f) + unat f * (2 ^ 32 + unat d)"
    "2 ^ 33 * (unat (cycles_to_ns d m s) * unat f) \<le> 2 ^ 33 * (unat d * 1000000000) + unat f * (2 ^ 32 + unat d)"
    unfolding n by (rule conversion_error [OF f])+
qed

section \<open>Successive readings\<close>

fun readings :: "clocksource_backend \<Rightarrow> u64 list \<Rightarrow> u64 list" where
  "readings b [] = []"
| "readings b (c # cs) = (let (ns, b') = read_ns b c in ns # readings b' cs)"

definition last_reading :: "clocksource_backend \<Rightarrow> u64" where
  "last_reading b = (case b of Tsc cs \<Rightarrow> last_ns cs | Hpet h \<Rightarrow> hp_last_ns h)"

lemma read_ns_last:
  assumes "read_ns b c = (ns, b')"
  shows "last_reading b \<le> ns" "last_reading b' = ns"
  using assms
  by (cases b; auto simp: elapsed_ns_def hpet_read_ns_def last_reading_def Let_def max_def split: if_splits)+

lemma readings_sorted: "sorted (readings b cs) \<and> (\<forall>r \<in> set (readings b cs). last_reading b \<le> r)"
proof (induction cs arbitrary: b)
  case (Cons c cs)
  obtain ns b' where r: "read_ns b c = (ns, b')" by fastforce
  have "\<forall>r \<in> set (readings b' cs). ns \<le> r" using Cons [of b'] read_ns_last(2) [OF r] by simp
  then show ?case using r Cons [of b'] read_ns_last(1) [OF r] order_trans by (fastforce simp: Let_def)
qed simp

section \<open>Programming the timer\<close>

lemma sat128_id: "n < 2 ^ 128 \<Longrightarrow> sat128 n = n"
  by (simp add: sat128_def)

lemma ticks_to_ns_unat:
  assumes "1000 \<le> unat tps"
  shows "unat (ticks_to_ns t tps) = unat t * 1000000000 div unat tps"
proof -
  have nz: "tps \<noteq> 0" using assms by auto
  have "unat t * 1000000000 \<le> (2 ^ 32 - 1) * 1000000000" using unat_u32_less [of t] by simp
  then have b: "unat t * 1000000000 < 2 ^ 64" by simp
  then have "sat128 (unat t * 1000000000) = unat t * 1000000000" by (intro sat128_id) simp
  moreover have "unat t * 1000000000 div unat tps < 2 ^ 64"
    using b div_le_dividend le_less_trans by blast
  ultimately show ?thesis
    unfolding ticks_to_ns_def using nz by (simp only: unat_of_nat_u64 if_False)
qed

lemma ns_to_ticks_unat:
  assumes "0 < unat d" "0 < unat tps" "unat d * unat tps \<le> (2 ^ 32 - 1) * 1000000000"
  shows "unat (ns_to_ticks d tps) = max 8 ((unat d * unat tps + 999999999) div 1000000000)"
proof -
  let ?t = "(unat d * unat tps + 999999999) div 1000000000"
  have nz: "d \<noteq> 0" "tps \<noteq> 0" using assms(1,2) by auto
  have "unat d * unat tps < 2 ^ 128" "unat d * unat tps + 999999999 < 2 ^ 128" using assms(3) by simp_all
  then have sat: "sat128 (sat128 (unat d * unat tps) + 999999999) = unat d * unat tps + 999999999"
    by (simp add: sat128_id)
  have "?t \<le> ((2 ^ 32 - 1) * 1000000000 + 999999999) div 1000000000"
    using assms(3) by (intro div_le_mono) simp
  then have t: "?t \<le> 2 ^ 32 - 1" by simp
  then have "unat (of_nat ?t :: u32) = ?t" by (intro unat_of_nat_u32) simp
  moreover have "unat (of_nat 8 :: u32) = 8" by simp
  ultimately show ?thesis
    unfolding ns_to_ticks_def sat Let_def MIN_COUNT_TICKS_def using nz t by (auto simp: max_def not_le)
qed

text \<open>The parameters that calibration accepts.\<close>

definition ce_ok :: "lapic_clockevent \<Rightarrow> bool" where
  "ce_ok ce \<longleftrightarrow> ce_mode ce = OneShot \<and> 1000 \<le> unat (ticks_per_sec ce) \<and>
    unat (ticks_per_sec ce) \<le> 10000000000 \<and>
    unat (min_delta ce) = max (8000000000 div unat (ticks_per_sec ce)) 1"

lemma calibrated_ok: "calibrated a b t = Some ce \<Longrightarrow> ce_ok ce"
proof -
  assume c: "calibrated a b t = Some ce"
  let ?n = "unat t * 1000000000 div unat (b - a)"
  have n: "1000 \<le> ?n" "?n \<le> 10000000000"
    and ce: "ce = \<lparr>ticks_per_sec = of_nat ?n, min_delta = max (ticks_to_ns (of_nat 8) (of_nat ?n)) 1, ce_mode = OneShot\<rparr>"
    using c by (auto simp: calibrated_def Let_def FREQ_MIN_HZ_def FREQ_MAX_HZ_def MIN_COUNT_TICKS_def
        split: if_splits)
  have u: "unat (of_nat ?n :: u64) = ?n" using n(2) by (intro unat_of_nat_u64) simp
  have "unat (ticks_to_ns (of_nat 8) (of_nat ?n)) = 8 * 1000000000 div ?n"
    using ticks_to_ns_unat [of "of_nat ?n" "of_nat 8"] n(1) u by simp
  then have "unat (max (ticks_to_ns (of_nat 8) (of_nat ?n)) 1) = max (8000000000 div ?n) 1"
    by (simp add: max_def word_le_nat_alt)
  with n ce u show ?thesis by (simp add: ce_ok_def)
qed

lemma program_oneshot_count:
  assumes ok: "ce_ok ce"
  obtains r' d where "program_oneshot_ns (Some ce) delta r = Some r'"
    "lvt_timer r' = TIMER_ONE_SHOT OR TIMER_VECTOR"
    "d = (if delta < min_delta ce then min_delta ce
      else if delta > max_delta_ns_of ce then max_delta_ns_of ce else delta)"
    "unat (ticr r') = max 8 ((unat d * unat (ticks_per_sec ce) + 999999999) div 1000000000)"
proof -
  let ?tps = "unat (ticks_per_sec ce)"
  have mx: "unat (max_delta_ns_of ce) = (2 ^ 32 - 1) * 1000000000 div ?tps"
    using ok ticks_to_ns_unat [of "ticks_per_sec ce" "- 1"]
    by (simp add: max_delta_ns_of_def ce_ok_def unat_max_u32)
  have one: "1 \<le> (2 ^ 32 - 1) * 1000000000 div ?tps"
    using ok by (simp add: ce_ok_def div_greater_zero_iff Suc_le_eq)
  have "8000000000 div ?tps \<le> (2 ^ 32 - 1) * 1000000000 div ?tps" by (rule div_le_mono) simp
  with one have le: "min_delta ce \<le> max_delta_ns_of ce"
    using ok by (simp add: word_le_nat_alt mx ce_ok_def)
  define d where "d = (if delta < min_delta ce then min_delta ce
      else if delta > max_delta_ns_of ce then max_delta_ns_of ce else delta)"
  have d: "min_delta ce \<le> d" "d \<le> max_delta_ns_of ce" using le by (auto simp: d_def)
  have "0 < unat d" using d(1) ok by (simp add: word_le_nat_alt ce_ok_def)
  moreover have "unat d * ?tps \<le> (2 ^ 32 - 1) * 1000000000"
  proof -
    have "unat d * ?tps \<le> (2 ^ 32 - 1) * 1000000000 div ?tps * ?tps"
      using d(2) mx by (intro mult_right_mono) (simp_all add: word_le_nat_alt)
    also have "\<dots> \<le> (2 ^ 32 - 1) * 1000000000" by (rule div_times_less_eq_dividend)
    finally show ?thesis .
  qed
  ultimately have "unat (ns_to_ticks d (ticks_per_sec ce)) =
      max 8 ((unat d * ?tps + 999999999) div 1000000000)"
    using ok by (intro ns_to_ticks_unat) (simp_all add: ce_ok_def)
  moreover have "program_oneshot_ns (Some ce) delta r =
      Some (r\<lparr>lvt_timer := TIMER_ONE_SHOT OR TIMER_VECTOR, tdcr := DIVIDE_BY_16,
        ticr := ns_to_ticks d (ticks_per_sec ce)\<rparr>)"
    using ok le by (simp add: program_oneshot_ns_def clamp_def d_def ce_ok_def Let_def)
  ultimately show ?thesis using that d_def by simp
qed

section \<open>Properties\<close>

text \<open>
  C20. Accuracy of the clocksource: for every counter frequency the calibrated multiplier uses the full
  32-bit shift, and a reading that is not saturated differs from the exact time
  \<^verbatim>\<open>cycles * 10^9 / freq\<close> by at most half a nanosecond plus one nanosecond in \<^verbatim>\<open>2^33\<close> cycles.
\<close>

theorem clocksource_accuracy:
  assumes "f \<noteq> 0" "compute_mult_shift f = (m, s)" "cycles_to_ns d m s \<noteq> - 1"
  shows "s = 32 \<and>
    2 ^ 33 * \<bar>int (unat (cycles_to_ns d m s)) * int (unat f) - int (unat d) * 1000000000\<bar>
      \<le> int (unat f) * (2 ^ 32 + int (unat d))"
proof -
  let ?n = "unat (cycles_to_ns d m s)" and ?f = "unat f" and ?d = "unat d"
  note err = clocksource_error [OF assms]
  have "int (2 ^ 33 * (?d * 1000000000)) \<le> int (2 ^ 33 * (?n * ?f) + ?f * (2 ^ 32 + ?d))"
    "int (2 ^ 33 * (?n * ?f)) \<le> int (2 ^ 33 * (?d * 1000000000) + ?f * (2 ^ 32 + ?d))"
    using err(2,3) by (simp_all only: of_nat_le_iff)
  then have "2 ^ 33 * (int ?n * int ?f - int ?d * 1000000000) \<le> int ?f * (2 ^ 32 + int ?d)"
    "2 ^ 33 * (int ?d * 1000000000 - int ?n * int ?f) \<le> int ?f * (2 ^ 32 + int ?d)"
    by (simp_all add: algebra_simps)
  then have "2 ^ 33 * \<bar>int ?n * int ?f - int ?d * 1000000000\<bar> \<le> int ?f * (2 ^ 32 + int ?d)"
    by (cases "int ?n * int ?f \<le> int ?d * 1000000000") simp_all
  with err(1) show ?thesis by blast
qed

text \<open>
  C21. The monotonic clock never goes back: whatever values the hardware counter shows, even if it
  jumps backwards or wraps, the sequence of readings is non-decreasing.
\<close>

theorem clock_monotonic: "sorted (readings b counters)"
  using readings_sorted by blast

text \<open>
  C14. A one-shot event never fires early and at most one tick late: with parameters accepted by
  calibration, programming a delta between the minimum and the maximum does not panic, unmasks the
  timer, and loads the smallest count of at least the minimum whose duration is not shorter than the
  delta.
\<close>

theorem oneshot_not_early:
  assumes "calibrated a b t = Some ce" "min_delta ce \<le> delta" "delta \<le> max_delta_ns_of ce"
  shows "\<exists>r'. program_oneshot_ns (Some ce) delta r = Some r' \<and>
    lvt_timer r' = TIMER_ONE_SHOT OR TIMER_VECTOR \<and> MIN_COUNT_TICKS \<le> unat (ticr r') \<and>
    unat delta * unat (ticks_per_sec ce) \<le> unat (ticr r') * 1000000000 \<and>
    (unat (ticr r') = MIN_COUNT_TICKS \<or>
     unat (ticr r') * 1000000000 < unat delta * unat (ticks_per_sec ce) + 1000000000)"
proof -
  let ?x = "unat delta * unat (ticks_per_sec ce)"
  obtain r' where r': "program_oneshot_ns (Some ce) delta r = Some r'"
    "lvt_timer r' = TIMER_ONE_SHOT OR TIMER_VECTOR"
    "unat (ticr r') = max 8 ((?x + 999999999) div 1000000000)"
    using program_oneshot_count [OF calibrated_ok [OF assms(1)], of delta r] assms(2,3)
    by (metis linorder_not_le)
  have "?x \<le> (?x + 999999999) div 1000000000 * 1000000000"
    "(?x + 999999999) div 1000000000 * 1000000000 \<le> ?x + 999999999"
    by linarith+
  with r' show ?thesis by (intro exI [of _ r']) (auto simp: MIN_COUNT_TICKS_def max_def)
qed

text \<open>
  The HPET reports its period in femtoseconds; a 14.318 MHz counter has a period of 69841279 fs, which
  the conversion turns into 70 ns.  The period 69841 that the unit test of the module takes for the
  same counter is a thousand times too short, and gives 0.
\<close>

lemma hpet_period_in_femtoseconds:
  "case compute_mult_shift_period 69841279 of (m, s) \<Rightarrow> cycles_to_ns 1 m s = 70"
  "case compute_mult_shift_period 69841 of (m, s) \<Rightarrow> cycles_to_ns 1 m s = 0"
  unfolding compute_mult_shift_period_def
  by (simp_all add: mult_shift_32 cycles_to_ns_def unat_of_nat_u64)

subsection \<open>Witnesses\<close>

theorem clocksource_accuracy_witness:
  "compute_mult_shift 1000000000 = (4294967296, 32) \<and>
    2 ^ 33 * \<bar>int (unat (cycles_to_ns 1000 4294967296 32)) * 1000000000 - 1000 * 1000000000\<bar>
      \<le> 1000000000 * (2 ^ 32 + (1000 :: int))"
proof -
  have c: "compute_mult_shift 1000000000 = (4294967296, 32)"
    using compute_mult_shift_eq(1) [of 1000000000] by simp
  have "cycles_to_ns 1000 4294967296 32 \<noteq> - 1" by (simp add: cycles_to_ns_def)
  from clocksource_accuracy [OF _ c this] c show ?thesis by simp
qed

theorem oneshot_not_early_witness:
  "\<exists>ce r'. calibrated 0 10000000 625000 = Some ce \<and>
    program_oneshot_ns (Some ce) 1000000 \<lparr>lvt_timer = MASKED, tdcr = 0, ticr = 0\<rparr> = Some r' \<and>
    1000000 * 62500000 \<le> unat (ticr r') * 1000000000"
proof -
  define ce where "ce = \<lparr>ticks_per_sec = 62500000, min_delta = 128, ce_mode = OneShot\<rparr>"
  have c: "calibrated 0 10000000 625000 = Some ce"
    by (simp add: calibrated_def ce_def FREQ_MIN_HZ_def FREQ_MAX_HZ_def MIN_COUNT_TICKS_def
        ticks_to_ns_def sat128_def max_def Let_def word_le_nat_alt)
  have "min_delta ce \<le> 1000000" "1000000 \<le> max_delta_ns_of ce"
    by (simp_all add: ce_def max_delta_ns_of_def ticks_to_ns_def sat128_def unat_max_u32)
  from oneshot_not_early [OF c this, of "\<lparr>lvt_timer = MASKED, tdcr = 0, ticr = 0\<rparr>"] c
  show ?thesis by (auto simp: ce_def)
qed

end
