(* ===== verification/Kernel_Wait.thy ===== *)
theory Kernel_Wait
  imports Proc Preempt Clock
begin

text \<open>
  Blocking and waking: the process timers (\<^verbatim>\<open>sys/timer/mod.rs\<close>), the clock-event policy
  (\<^verbatim>\<open>driver/time/clockevent.rs\<close>), the timer interrupt (\<^verbatim>\<open>driver/time/mod.rs\<close>) and the waiting and
  scheduling functions of \<^verbatim>\<open>sys/proc/mod.rs\<close>, over one kernel state that holds the process table, the
  deadline queue, the armed event and the timer hardware.

  The process table exists (the code runs after \<^verbatim>\<open>proc::init\<close>), all of this runs on the boot
  processor, and the queue lock is held where the code holds it; its guards restore the state they
  found, which is the nesting theorem of the preemption theory, and are left out here.  The clock is
  an argument: a parameter \<^verbatim>\<open>now\<close> is the value that the code reads from \<^verbatim>\<open>monotonic_ns\<close>.
\<close>

section \<open>Model\<close>

record kernel = preempt +
  procs :: "process list"
  current :: u16
  tq :: timer_queue
  deferred_expiry :: bool
  armed :: u64
  hlt_deadline :: u64
  lapic_ce :: "lapic_clockevent option"
  lapic :: lapic_regs
  timer_events :: u64
  next_pid :: u16

definition EXPIRY_BATCH :: nat where "EXPIRY_BATCH = 32"
definition ARMED_NONE :: u64 where "ARMED_NONE = - 1"

definition is_live_wait :: "kernel \<Rightarrow> u16 \<Rightarrow> wait_token \<Rightarrow> bool" where
  "is_live_wait k i t =
    (case get_process (procs k) i of None \<Rightarrow> False | Some p \<Rightarrow> p_wait_token p = Some t)"

subsection \<open>Clock events\<close>

definition next_deadline_ns :: "kernel \<Rightarrow> (u64 option \<times> kernel) rs" where
  "next_deadline_ns k = do {
     (d, q) \<leftarrow> peek_deadline_ns (tq k) (is_live_wait k);
     Some (d, k\<lparr>tq := q\<rparr>)
   }"

fun opt_min :: "u64 option \<Rightarrow> u64 option \<Rightarrow> u64 option" where
  "opt_min None b = b"
| "opt_min a None = a"
| "opt_min (Some a) (Some b) = Some (min a b)"

definition hlt_deadline_ns :: "kernel \<Rightarrow> u64 option" where
  "hlt_deadline_ns k = (if hlt_deadline k = 0 then None else Some (hlt_deadline k))"

definition earliest_deadline :: "kernel \<Rightarrow> (u64 option \<times> kernel) rs" where
  "earliest_deadline k = do {
     (sw, k1) \<leftarrow> next_deadline_ns k;
     Some (opt_min sw (opt_min (quantum_deadline_ns k1) (hlt_deadline_ns k1)), k1)
   }"

text \<open>Program the hardware for an absolute deadline, seen from \<^verbatim>\<open>now\<close>.\<close>

definition program_abs :: "u64 \<Rightarrow> u64 \<Rightarrow> kernel \<Rightarrow> kernel rs" where
  "program_abs now target k = do {
     let delta = max (saturating_sub target now) (min_delta_ns (lapic_ce k));
     r \<leftarrow> program_oneshot_ns (lapic_ce k) delta (lapic k);
     Some (k\<lparr>lapic := r\<rparr>)
   }"

definition rearm :: "u64 \<Rightarrow> kernel \<Rightarrow> kernel rs" where
  "rearm now k = do {
     (target, k1) \<leftarrow> earliest_deadline k;
     case target of
       None \<Rightarrow> Some (k1\<lparr>armed := ARMED_NONE, lapic := cancel_timer (lapic_ce k1) (lapic k1)\<rparr>)
     | Some a \<Rightarrow> program_abs now a (k1\<lparr>armed := a\<rparr>)
   }"

definition should_replace :: "u64 \<Rightarrow> u64 \<Rightarrow> bool" where
  "should_replace cur new_abs \<longleftrightarrow> new_abs < cur"

text \<open>With interrupts off on the only processor the compare-and-exchange succeeds at once.\<close>

definition rearm_if_earlier :: "u64 \<Rightarrow> u64 \<Rightarrow> kernel \<Rightarrow> kernel rs" where
  "rearm_if_earlier now new_abs k =
    (if \<not> should_replace (armed k) new_abs then Some k
     else program_abs now new_abs (k\<lparr>armed := new_abs\<rparr>))"

definition disarm :: "kernel \<Rightarrow> kernel" where
  "disarm k = k\<lparr>armed := ARMED_NONE, lapic := cancel_timer (lapic_ce k) (lapic k)\<rparr>"

definition clockevent_init :: "u64 \<Rightarrow> kernel \<Rightarrow> kernel rs" where
  "clockevent_init now k = rearm now (k\<lparr>armed := ARMED_NONE, hlt_deadline := 0\<rparr>)"

definition arm_kernel_hlt_wake :: "u64 \<Rightarrow> u64 \<Rightarrow> kernel \<Rightarrow> kernel rs" where
  "arm_kernel_hlt_wake now deadline k = rearm now (k\<lparr>hlt_deadline := deadline\<rparr>)"

definition clear_kernel_hlt_wake :: "u64 \<Rightarrow> kernel \<Rightarrow> kernel rs" where
  "clear_kernel_hlt_wake now k = rearm now (k\<lparr>hlt_deadline := 0\<rparr>)"

definition account_kernel_hlt_wake :: "u64 \<Rightarrow> kernel \<Rightarrow> kernel" where
  "account_kernel_hlt_wake now k =
    (if hlt_deadline k \<noteq> 0 \<and> now \<ge> hlt_deadline k then k\<lparr>hlt_deadline := 0\<rparr> else k)"

subsection \<open>Waking\<close>

definition wake_process :: "u64 \<Rightarrow> u16 \<Rightarrow> kernel \<Rightarrow> kernel rs" where
  "wake_process now i k =
    (case get_process (procs k) i of
       None \<Rightarrow> Some k
     | Some p \<Rightarrow>
         (case p_state p of
            AwaitingIo \<Rightarrow>
              let k1 = k\<lparr>procs := set_process (procs k) i
                    (p\<lparr>p_state := Runnable, p_pending_io := True, p_wake_reason := Some Event\<rparr>)\<rparr> in
              if i \<noteq> current k1 \<and> quantum_deadline_ns k1 = None then
                let k2 = reset_quantum now k1 in
                (case quantum_deadline_ns k2 of
                   None \<Rightarrow> Some k2
                 | Some d \<Rightarrow> rearm_if_earlier now d k2)
              else Some k1
          | Dead \<Rightarrow> Some k
          | Stopped \<Rightarrow> Some k
          | _ \<Rightarrow> Some (k\<lparr>procs := set_process (procs k) i (p\<lparr>p_pending_io := True\<rparr>)\<rparr>)))"

definition wake_from_timer :: "u16 \<Rightarrow> wait_token \<Rightarrow> deadline_kind \<Rightarrow> kernel \<Rightarrow> kernel" where
  "wake_from_timer i t kd k =
    (case get_process (procs k) i of
       None \<Rightarrow> k
     | Some p \<Rightarrow>
         if p_wait_token p \<noteq> Some t then k
         else
           (case kd of
              Sleep \<Rightarrow>
                if p_state p \<noteq> Sleeping then k
                else k\<lparr>procs := set_process (procs k) i
                  (p\<lparr>p_state := Runnable, p_wait_token := None, p_wait_deadline_ns := None,
                     p_wake_reason := Some Deadline\<rparr>)\<rparr>
            | IoTimeout \<Rightarrow>
                if p_state p \<noteq> AwaitingIo then k
                else k\<lparr>procs := set_process (procs k) i
                  (p\<lparr>p_state := Runnable, p_pending_io := True, p_wait_token := None,
                     p_wait_deadline_ns := None, p_wake_reason := Some Deadline\<rparr>)\<rparr>))"

text \<open>\<^verbatim>\<open>proc::queue_signal\<close>: queue the signal on the process, then wake it.\<close>

definition queue_signal :: "u64 \<Rightarrow> u16 \<Rightarrow> nat \<Rightarrow> kernel \<Rightarrow> (bool \<times> kernel) rs" where
  "queue_signal now i sig k =
    (case get_process (procs k) i of
       None \<Rightarrow> Some (False, k)
     | Some p \<Rightarrow> do {
         p' \<leftarrow> queue_signal_proc p sig;
         k' \<leftarrow> wake_process now i (k\<lparr>procs := set_process (procs k) i p'\<rparr>);
         Some (True, k')
       })"

subsection \<open>Expiry\<close>

text \<open>The collection loop: up to \<^verbatim>\<open>n\<close> due entries, with the queue that remains.\<close>

fun collect_due ::
  "nat \<Rightarrow> u64 \<Rightarrow> (u16 \<Rightarrow> wait_token \<Rightarrow> bool) \<Rightarrow> timer_queue \<Rightarrow> (deadline_entry list \<times> timer_queue) rs" where
  "collect_due 0 now live q = Some ([], q)"
| "collect_due (Suc n) now live q = do {
     (r, q1) \<leftarrow> pop_due q now live;
     case r of
       None \<Rightarrow> Some ([], q1)
     | Some e \<Rightarrow> do {
         (es, q2) \<leftarrow> collect_due n now live q1;
         Some (e # es, q2)
       }
   }"

definition wake_batch :: "deadline_entry list \<Rightarrow> kernel \<Rightarrow> kernel" where
  "wake_batch es k = fold (\<lambda>e. wake_from_timer (pid e) (token e) (kind e)) es k"

text \<open>One batch: collect, look whether more is due, then wake what was collected.\<close>

definition expire_batch :: "u64 \<Rightarrow> kernel \<Rightarrow> (bool \<times> kernel) rs" where
  "expire_batch now k = do {
     (es, q1) \<leftarrow> collect_due EXPIRY_BATCH now (is_live_wait k) (tq k);
     (d, q2) \<leftarrow> peek_deadline_ns q1 (is_live_wait k);
     let more_due = (case d of None \<Rightarrow> False | Some d \<Rightarrow> d \<le> now);
     Some (more_due, wake_batch es (k\<lparr>tq := q2\<rparr>))
   }"

definition expire_due :: "u64 \<Rightarrow> kernel \<Rightarrow> kernel rs" where
  "expire_due now k = do {
     (more_due, k1) \<leftarrow> expire_batch now k;
     Some (if more_due then k1\<lparr>deferred_expiry := True\<rparr> else k1)
   }"

text \<open>Every round of the deferred drain that asks for another one has shortened the queue.\<close>

definition head_not_due :: "u64 \<Rightarrow> timer_queue \<Rightarrow> bool" where
  "head_not_due now q \<longleftrightarrow> (case heap q of [] \<Rightarrow> True | e # _ \<Rightarrow> now < deadline_ns e)"

lemma pop_due_length:
  assumes "pop_due q now live = Some (r, q')"
  shows "length (heap q') \<le> length (heap q) \<and> (r \<noteq> None \<longrightarrow> length (heap q') < length (heap q)) \<and>
    (r = None \<longrightarrow> head_not_due now q')"
  using assms
proof (induction q now live arbitrary: r q' rule: pop_due.induct)
  case (1 q now live)
  show ?case
  proof (cases "heap q")
    case Nil
    then show ?thesis using 1(2) by (auto simp: pop_due.simps head_not_due_def)
  next
    case (Cons e es)
    show ?thesis
    proof (cases "now < deadline_ns e")
      case True
      then show ?thesis using 1(2) Cons by (auto simp: pop_due.simps head_not_due_def)
    next
      case False
      then obtain x q1 where ph: "pop_head q = Some (x, q1)"
        and rest: "(if live (pid e) (token e) then Some (Some e, q1) else pop_due q1 now live) = Some (r, q')"
        using 1(2) Cons by (subst (asm) pop_due.simps) (auto split: bind_splits)
      have less: "length (heap q1) < length (heap q)" using pop_head_length [OF ph] Cons by simp
      show ?thesis
      proof (cases "live (pid e) (token e)")
        case True
        then show ?thesis using rest less by auto
      next
        case nl: False
        then show ?thesis using 1(1) [OF Cons False ph refl nl] rest less by fastforce
      qed
    qed
  qed
qed

lemma collect_due_length:
  assumes "collect_due n now live q = Some (es, q')"
  shows "length (heap q') \<le> length (heap q) \<and> (es \<noteq> [] \<longrightarrow> length (heap q') < length (heap q)) \<and>
    (0 < n \<and> es = [] \<longrightarrow> head_not_due now q')"
  using assms
proof (induction n now live q arbitrary: es q' rule: collect_due.induct)
  case (2 n now live q)
  then obtain r q1 where p: "pop_due q now live = Some (r, q1)" by (auto split: bind_splits)
  note len = pop_due_length [OF p]
  show ?case
  proof (cases r)
    case None
    then show ?thesis using 2(2) p len by simp
  next
    case (Some e)
    then obtain es1 q2 where c: "collect_due n now live q1 = Some (es1, q2)" "es = e # es1" "q' = q2"
      using 2(2) p by (auto split: bind_splits)
    from 2(1) [OF p refl Some c(1)] len Some c show ?thesis by auto
  qed
qed simp

lemma drain_length:
  assumes "drain_stale_loop q live b = Some (b', q')"
  shows "length (heap q') \<le> length (heap q) \<and> (length (heap q') = length (heap q) \<longrightarrow> q' = q)"
  using assms
proof (induction q live b arbitrary: b' q' rule: drain_stale_loop.induct)
  case (1 q live b)
  show ?case
  proof (cases "heap q = [] \<or> (\<exists>e es. heap q = e # es \<and> live (pid e) (token e))")
    case True
    then show ?thesis using 1(2) by (auto simp: drain_stale_loop.simps)
  next
    case False
    then obtain e es where e: "heap q = e # es" "\<not> live (pid e) (token e)" by (cases "heap q") auto
    then obtain x q1 where ph: "pop_head q = Some (x, q1)" "drain_stale_loop q1 live True = Some (b', q')"
      using 1(2) by (subst (asm) drain_stale_loop.simps) (auto split: bind_splits)
    have "length (heap q1) < length (heap q)" using pop_head_length [OF ph(1)] e by simp
    moreover have "length (heap q') \<le> length (heap q1)" using 1(1) [OF e ph(1) refl ph(2)] by simp
    ultimately show ?thesis by simp
  qed
qed

lemma wake_from_timer_fields [simp]:
  "tq (wake_from_timer i t kd k) = tq k" "armed (wake_from_timer i t kd k) = armed k"
  "current (wake_from_timer i t kd k) = current k" "deferred_expiry (wake_from_timer i t kd k) = deferred_expiry k"
  "quantum_deadline (wake_from_timer i t kd k) = quantum_deadline k"
  "hlt_deadline (wake_from_timer i t kd k) = hlt_deadline k" "lapic_ce (wake_from_timer i t kd k) = lapic_ce k"
  by (simp_all add: wake_from_timer_def split: option.splits deadline_kind.splits)

lemma wake_batch_fields [simp]:
  "tq (wake_batch es k) = tq k" "armed (wake_batch es k) = armed k" "current (wake_batch es k) = current k"
  "deferred_expiry (wake_batch es k) = deferred_expiry k"
  "quantum_deadline (wake_batch es k) = quantum_deadline k" "hlt_deadline (wake_batch es k) = hlt_deadline k"
  "lapic_ce (wake_batch es k) = lapic_ce k"
  unfolding wake_batch_def by (induction es arbitrary: k) simp_all

lemma expire_batch_length:
  assumes "expire_batch now k = Some (True, k')"
  shows "length (heap (tq k')) < length (heap (tq k))"
proof -
  obtain es q1 d q2 where c: "collect_due EXPIRY_BATCH now (is_live_wait k) (tq k) = Some (es, q1)"
    and p: "peek_deadline_ns q1 (is_live_wait k) = Some (d, q2)" "tq k' = q2"
    and d: "\<exists>x. d = Some x \<and> x \<le> now"
    using assms by (auto simp: expire_batch_def split: bind_splits option.splits)
  note len = collect_due_length [OF c]
  from p(1) obtain b where dr: "drain_stale_loop q1 (is_live_wait k) False = Some (b, q2)"
    "d = (case heap q2 of [] \<Rightarrow> None | e # _ \<Rightarrow> Some (deadline_ns e))"
    by (auto simp: peek_deadline_ns_def drain_stale_head_def split: bind_splits)
  note dlen = drain_length [OF dr(1)]
  show ?thesis
  proof (cases "es = []")
    case False
    then show ?thesis using len dlen p(2) by auto
  next
    case True
    then have "head_not_due now q1" using len by (simp add: EXPIRY_BATCH_def)
    then have "q2 \<noteq> q1" using d dr(2) by (auto simp: head_not_due_def split: list.splits)
    then show ?thesis using len dlen p(2) by force
  qed
qed

function deferred_loop :: "u64 \<Rightarrow> kernel \<Rightarrow> kernel rs" where
  "deferred_loop now k = do {
     (more_due, k1) \<leftarrow> expire_batch now k;
     if \<not> more_due then Some k1 else deferred_loop now k1
   }"
  by pat_completeness auto

termination
  by (relation "measure (\<lambda>(_, k). length (heap (tq k)))") (auto dest: expire_batch_length)

declare deferred_loop.simps [simp del]

text \<open>\<^verbatim>\<open>now\<close> is the reading before the loop, \<^verbatim>\<open>later\<close> the one for the final rearm.\<close>

definition process_deferred_expiry :: "u64 \<Rightarrow> u64 \<Rightarrow> kernel \<Rightarrow> kernel rs" where
  "process_deferred_expiry now later k =
    (if \<not> deferred_expiry k then Some k
     else do {
       k1 \<leftarrow> deferred_loop now k;
       rearm later (k1\<lparr>deferred_expiry := False\<rparr>)
     })"

definition handle_timer_event :: "u64 \<Rightarrow> kernel \<Rightarrow> kernel rs" where
  "handle_timer_event now k = do {
     let k1 = k\<lparr>timer_events := timer_events k + 1\<rparr>;
     let k2 = account_quantum now k1;
     let k3 = account_kernel_hlt_wake now k2;
     k4 \<leftarrow> expire_due now k3;
     rearm now k4
   }"

subsection \<open>Scheduling\<close>

definition arm_quantum_for_current :: "u64 \<Rightarrow> nat \<Rightarrow> kernel \<Rightarrow> kernel rs" where
  "arm_quantum_for_current now cur_idx k = do {
     peer \<leftarrow> find_next_runnable_index (procs k) cur_idx;
     rearm now (if peer \<noteq> None then reset_quantum now k else clear_quantum k)
   }"

text \<open>
  \<^verbatim>\<open>switch_by_index_guarded\<close> up to the register switch itself: the caller holds the scheduler guard,
  which is released on every path.
\<close>

definition switch_by_index :: "u64 \<Rightarrow> nat \<Rightarrow> nat \<Rightarrow> kernel \<Rightarrow> (bool \<times> kernel) rs" where
  "switch_by_index now cur_idx next_idx k = do {
     (ok, ps) \<leftarrow> switch_states (procs k) cur_idx next_idx;
     let k1 = k\<lparr>procs := ps\<rparr>;
     if \<not> ok then Some (False, snd (scheduler_release True k1))
     else do {
       k2 \<leftarrow> arm_quantum_for_current now next_idx k1;
       n \<leftarrow> idx (procs k2) next_idx;
       Some (True, snd (scheduler_release True (k2\<lparr>current := p_pid n\<rparr>)))
     }
   }"

definition schedule_now :: "u64 \<Rightarrow> kernel \<Rightarrow> (bool \<times> kernel) rs" where
  "schedule_now now k =
    (case scheduler_try_enter k of
       (False, k1) \<Rightarrow> Some (False, k1)
     | (True, k1) \<Rightarrow>
         let k2 = clear_need_resched k1;
             give_up = Some (False, snd (scheduler_release True k2)) in
         if length (procs k2) < 2 then give_up
         else
           (case find_process_index (procs k2) (current k2) of
              None \<Rightarrow> give_up
            | Some cur_idx \<Rightarrow> do {
                nxt \<leftarrow> find_next_runnable_index (procs k2) cur_idx;
                case nxt of
                  None \<Rightarrow> give_up
                | Some next_idx \<Rightarrow> switch_by_index now cur_idx next_idx k2
              }))"

text \<open>
  The timer interrupt: \<^verbatim>\<open>apic_timer_preempt\<close> and \<^verbatim>\<open>timer_preempt_common\<close>.  \<^verbatim>\<open>t1\<close> to \<^verbatim>\<open>t4\<close> are the
  clock readings in program order.
\<close>

definition timer_preempt_common :: "u64 \<Rightarrow> u64 \<Rightarrow> u64 \<Rightarrow> bool \<Rightarrow> kernel \<Rightarrow> kernel rs" where
  "timer_preempt_common t2 t3 t4 from_user k = do {
     k1 \<leftarrow> process_deferred_expiry t2 t3 k;
     if from_user then do {(_, k2) \<leftarrow> schedule_now t4 k1; Some k2}
     else if ENABLE_KERNEL_PREEMPTION \<and> can_preempt_kernel k1 then
       do {(_, k2) \<leftarrow> schedule_now t4 k1; Some k2}
     else Some k1
   }"

definition apic_timer_preempt :: "u64 \<Rightarrow> u64 \<Rightarrow> u64 \<Rightarrow> u64 \<Rightarrow> bool \<Rightarrow> kernel \<Rightarrow> kernel rs" where
  "apic_timer_preempt t1 t2 t3 t4 from_user k = do {
     k1 \<leftarrow> handle_timer_event t1 (irq_enter k);
     timer_preempt_common t2 t3 t4 from_user (irq_exit k1)
   }"

subsection \<open>Blocking\<close>

text \<open>
  \<^verbatim>\<open>block_current_until\<close> up to the context switch: an early return with its reason, or the token
  under which the current process now sleeps.  The scheduler guard is dropped on every path.
\<close>

definition block_publish ::
  "(nat \<Rightarrow> nat option) \<Rightarrow> u64 \<Rightarrow> u64 \<Rightarrow> kernel \<Rightarrow> ((wake_reason + wait_token) \<times> kernel) rs" where
  "block_publish reserve now deadline k =
    (case scheduler_try_enter k of
       (False, k1) \<Rightarrow> Some (Inl Cancelled, k1)
     | (True, k1) \<Rightarrow>
         let return = (\<lambda>r k. Some (Inl r, snd (scheduler_release True k))) in
         if deadline \<le> now then return Deadline k1
         else do {
           has_signal \<leftarrow> (case get_process (procs k1) (current k1) of
               None \<Rightarrow> Some False | Some p \<Rightarrow> has_sleep_interrupting_signal p);
           if has_signal then return Signal k1
           else
             let (t, q) = next_token (tq k1); k2 = k1\<lparr>tq := q\<rparr> in
             if t = EXHAUSTED then return Cancelled k2
             else do {
               let e = \<lparr>deadline_ns = deadline, pid = current k2, token = t, kind = Sleep\<rparr>;
               (r, q') \<leftarrow> try_reserve_push reserve (tq k2) e;
               let k3 = k2\<lparr>tq := q'\<rparr>;
               case r of
                 Inl _ \<Rightarrow> return Cancelled k3
               | Inr _ \<Rightarrow>
                   (case get_process (procs k3) (current k3) of
                      None \<Rightarrow> return Cancelled k3
                    | Some p \<Rightarrow> do {
                        let k4 = k3\<lparr>procs := set_process (procs k3) (current k3)
                          (p\<lparr>p_wait_token := Some t, p_wait_deadline_ns := Some deadline,
                             p_wake_reason := None, p_state := Sleeping\<rparr>)\<rparr>;
                        k5 \<leftarrow> rearm_if_earlier now deadline k4;
                        Some (Inr t, snd (scheduler_release True k5))
                      })
             }
         })"

definition read_and_clear_wake_reason :: "u64 \<Rightarrow> u64 \<Rightarrow> u16 \<Rightarrow> kernel \<Rightarrow> wake_reason \<times> kernel" where
  "read_and_clear_wake_reason now deadline i k =
    (case get_process (procs k) i of
       None \<Rightarrow> (Deadline, k)
     | Some p \<Rightarrow>
         let reason = (case p_wake_reason p of
               Some r \<Rightarrow> r
             | None \<Rightarrow> if now \<ge> deadline then Deadline else Cancelled) in
         (reason, k\<lparr>procs := set_process (procs k) i
            (p\<lparr>p_wait_token := None, p_wait_deadline_ns := None, p_wake_reason := None,
               p_state := Running\<rparr>)\<rparr>))"

definition arm_current_locked ::
  "(nat \<Rightarrow> nat option) \<Rightarrow> u64 \<Rightarrow> deadline_kind \<Rightarrow> kernel \<Rightarrow> (wait_token \<times> kernel) rs" where
  "arm_current_locked reserve deadline kd k =
    (let (t, q) = next_token (tq k); k1 = k\<lparr>tq := q\<rparr> in
     if t = EXHAUSTED then Some (t, k1)
     else do {
       (r, q') \<leftarrow> try_reserve_push reserve (tq k1)
         \<lparr>deadline_ns = deadline, pid = current k1, token = t, kind = kd\<rparr>;
       let k2 = k1\<lparr>tq := q'\<rparr>;
       Some (case r of Inl _ \<Rightarrow> EXHAUSTED | Inr _ \<Rightarrow> t, k2)
     })"

text \<open>The process that \<^verbatim>\<open>arm_io_timeout_locked\<close> is given is always the current one.\<close>

definition arm_io_timeout_locked ::
  "(nat \<Rightarrow> nat option) \<Rightarrow> u64 \<Rightarrow> u64 \<Rightarrow> kernel \<Rightarrow> (wait_token option \<times> kernel) rs" where
  "arm_io_timeout_locked reserve now deadline k = do {
     (t, k1) \<leftarrow> arm_current_locked reserve deadline IoTimeout k;
     if t = EXHAUSTED then Some (None, k1)
     else do {
       let k2 = (case get_process (procs k1) (current k1) of
           None \<Rightarrow> k1
         | Some p \<Rightarrow> k1\<lparr>procs := set_process (procs k1) (current k1)
             (p\<lparr>p_wait_token := Some t, p_wait_deadline_ns := Some deadline, p_wake_reason := None\<rparr>)\<rparr>);
       k3 \<leftarrow> rearm_if_earlier now deadline k2;
       Some (Some t, k3)
     }
   }"

definition cancel_owned :: "wait_token \<Rightarrow> kernel \<Rightarrow> kernel" where
  "cancel_owned t k =
    (case get_process (procs k) (current k) of
       None \<Rightarrow> k
     | Some p \<Rightarrow>
         if p_wait_token p = Some t then
           k\<lparr>procs := set_process (procs k) (current k)
             (p\<lparr>p_wait_token := None, p_wait_deadline_ns := None\<rparr>)\<rparr>
         else k)"

text \<open>
  The entry of \<^verbatim>\<open>await_io_until\<close>: one pass of the loop up to the switch.  Either a wake that came
  first is honoured and its reason returned, or the current process is now waiting, with the token
  of its timeout if one could be armed.
\<close>

definition await_io_enter ::
  "(nat \<Rightarrow> nat option) \<Rightarrow> u64 \<Rightarrow> u64 option \<Rightarrow> wait_token option \<Rightarrow> kernel \<Rightarrow>
    ((wake_reason + wait_token option) \<times> kernel) rs" where
  "await_io_enter reserve now timeout outstanding k0 =
    (let k = (case outstanding of None \<Rightarrow> k0 | Some t \<Rightarrow> cancel_owned t k0) in
     case scheduler_try_enter k of
       (False, k1) \<Rightarrow> Some (Inl Cancelled, k1)
     | (True, k1) \<Rightarrow>
         let cur = current k1;
             resume = (\<lambda>p. let (r, ps) = take_wake_reason (set_process (procs k1) cur p) cur
                in Some (Inl r, snd (scheduler_release True (k1\<lparr>procs := ps\<rparr>)))) in
         case get_process (procs k1) cur of
           None \<Rightarrow> Some (Inl Cancelled, snd (scheduler_release True k1))
         | Some p \<Rightarrow>
             if p_pending_io p then
               resume (p\<lparr>p_pending_io := False,
                 p_state := (if p_state p = Runnable \<or> p_state p = AwaitingIo then Running else p_state p)\<rparr>)
             else if p_state p = Runnable then resume (p\<lparr>p_state := Running\<rparr>)
             else do {
               let k2 = k1\<lparr>procs := set_process (procs k1) cur (p\<lparr>p_state := AwaitingIo\<rparr>)\<rparr>;
               (t, k3) \<leftarrow> (case timeout of
                   None \<Rightarrow> Some (None, k2)
                 | Some d \<Rightarrow> arm_io_timeout_locked reserve now d k2);
               Some (Inr t, snd (scheduler_release True k3))
             })"

section \<open>Invariant\<close>

abbreviation entries :: "kernel \<Rightarrow> deadline_entry multiset" where
  "entries k \<equiv> tq_entries (tq k)"

abbreviation live :: "kernel \<Rightarrow> deadline_entry multiset" where
  "live k \<equiv> live_entries (is_live_wait k) (entries k)"

text \<open>Tokens in the queue are pairwise distinct and were all handed out; so were published tokens.\<close>

definition tokens_ok :: "timer_queue \<Rightarrow> bool" where
  "tokens_ok q \<longleftrightarrow>
    (\<forall>e \<in># tq_entries q. token e < next_token_field q) \<and>
    (\<forall>e e' S. tq_entries q = add_mset e (add_mset e' S) \<longrightarrow> token e \<noteq> token e')"

definition published_ok :: "kernel \<Rightarrow> bool" where
  "published_ok k \<longleftrightarrow> (\<forall>p \<in> set (procs k). \<forall>t. p_wait_token p = Some t \<longrightarrow> t < next_token_field (tq k))"

text \<open>Every sleeping process has published a token and its entry is in the queue.\<close>

definition sleep_entry :: "process \<Rightarrow> wait_token \<Rightarrow> u64 \<Rightarrow> deadline_entry" where
  "sleep_entry p t d = \<lparr>deadline_ns = d, pid = p_pid p, token = t, kind = Sleep\<rparr>"

definition sleeper_ok :: "deadline_entry multiset \<Rightarrow> process \<Rightarrow> bool" where
  "sleeper_ok E p \<longleftrightarrow> (p_state p = Sleeping \<longrightarrow>
    (\<exists>t d. p_wait_token p = Some t \<and> p_wait_deadline_ns p = Some d \<and> sleep_entry p t d \<in># E))"

definition lapic_ok :: "kernel \<Rightarrow> bool" where
  "lapic_ok k \<longleftrightarrow> (case lapic_ce k of None \<Rightarrow> True | Some ce \<Rightarrow> ce_mode ce = OneShot \<longrightarrow> ce_ok ce)"

definition core_inv :: "kernel \<Rightarrow> bool" where
  "core_inv k \<longleftrightarrow> table_wf (procs k) \<and> tq_inv (tq k) \<and> tokens_ok (tq k) \<and> published_ok k \<and>
    (\<forall>p \<in> set (procs k). sleeper_ok (entries k) p) \<and> lapic_ok k"

text \<open>The armed event is not later than any deadline that has to be served.\<close>

definition armed_ok :: "kernel \<Rightarrow> bool" where
  "armed_ok k \<longleftrightarrow> (\<forall>e \<in># live k. armed k \<le> deadline_ns e) \<and>
    (\<forall>d. quantum_deadline_ns k = Some d \<longrightarrow> armed k \<le> d) \<and>
    (\<forall>d. hlt_deadline_ns k = Some d \<longrightarrow> armed k \<le> d)"

definition kernel_inv :: "kernel \<Rightarrow> bool" where
  "kernel_inv k \<longleftrightarrow> core_inv k \<and> armed_ok k"

lemma core_inv_D:
  assumes "core_inv k"
  shows "table_wf (procs k)" "tq_inv (tq k)" "tokens_ok (tq k)" "published_ok k" "lapic_ok k"
    "p \<in> set (procs k) \<Longrightarrow> sleeper_ok (entries k) p"
  using assms by (simp_all add: core_inv_def)

lemma core_inv_I [wf_intro]:
  assumes "table_wf (procs k)" "tq_inv (tq k)" "tokens_ok (tq k)" "published_ok k" "lapic_ok k"
    "\<And>p. p \<in> set (procs k) \<Longrightarrow> sleeper_ok (entries k) p"
  shows "core_inv k"
  using assms by (simp add: core_inv_def)

lemma is_live_wait_iff:
  assumes "table_wf (procs k)"
  shows "is_live_wait k i t \<longleftrightarrow> (\<exists>p \<in> set (procs k). p_pid p = i \<and> p_wait_token p = Some t)"
proof (cases "get_process (procs k) i")
  case None
  then have "i \<notin> p_pid ` set (procs k)" by (simp add: get_process_None)
  with None show ?thesis by (auto simp: is_live_wait_def)
next
  case (Some p)
  have d: "distinct (map p_pid (procs k))" using assms by (simp add: table_wf_def)
  note g = get_process_Some [OF Some]
  show ?thesis
  proof
    assume "is_live_wait k i t"
    then show "\<exists>p \<in> set (procs k). p_pid p = i \<and> p_wait_token p = Some t"
      using Some g by (auto simp: is_live_wait_def)
  next
    assume "\<exists>p \<in> set (procs k). p_pid p = i \<and> p_wait_token p = Some t"
    then obtain q where "q \<in> set (procs k)" "p_pid q = i" "p_wait_token q = Some t" by blast
    then show "is_live_wait k i t" using get_process_in [OF d, of q] by (simp add: is_live_wait_def)
  qed
qed

lemma tokens_ok_subset:
  assumes "tokens_ok q" "tq_entries q' \<subseteq># tq_entries q" "next_token_field q' = next_token_field q"
  shows "tokens_ok q'"
proof -
  obtain R where R: "tq_entries q = tq_entries q' + R" using assms(2) by (metis mset_subset_eq_exists_conv)
  show ?thesis
    unfolding tokens_ok_def
  proof (intro conjI ballI allI impI)
    fix e assume "e \<in># tq_entries q'"
    then show "token e < next_token_field q'" using assms(1,3) R by (simp add: tokens_ok_def)
  next
    fix e e' S assume "tq_entries q' = add_mset e (add_mset e' S)"
    then have "tq_entries q = add_mset e (add_mset e' (S + R))" using R by simp
    then show "token e \<noteq> token e'" using assms(1) unfolding tokens_ok_def by blast
  qed
qed

lemma tokens_ok_unique:
  assumes "tokens_ok q" "e \<in># tq_entries q" "e' \<in># tq_entries q" "token e = token e'"
  shows "e = e'"
proof (rule ccontr)
  assume n: "e \<noteq> e'"
  obtain S where S: "tq_entries q = add_mset e S" using assms(2) by (metis multi_member_split)
  then have "e' \<in># S" using assms(3) n by auto
  then obtain S' where "S = add_mset e' S'" by (metis multi_member_split)
  with S assms(1,4) show False unfolding tokens_ok_def by blast
qed

lemma word_less_Suc:
  fixes n :: u64
  assumes "n \<noteq> - 1" "t \<le> n"
  shows "t < n + 1"
proof -
  have "1 + n \<noteq> 0" using assms(1) by (metis add.commute add_eq_0_iff)
  then have "unat (n + 1) = Suc (unat n)" using unatSuc [of n] by (simp add: add.commute)
  with assms(2) show ?thesis by (simp add: word_less_nat_alt word_le_nat_alt)
qed

lemma tokens_ok_push:
  assumes "tokens_ok q" "tq_entries q' = add_mset e (tq_entries q)" "next_token_field q' = next_token_field q + 1"
    "next_token_field q \<noteq> - 1" "token e = next_token_field q"
  shows "tokens_ok q'"
proof -
  have less: "t < next_token_field q + 1" if "t \<le> next_token_field q" for t
    using word_less_Suc [OF assms(4) that] .
  have fresh: "token x \<noteq> token e" if "x \<in># tq_entries q" for x
    using that assms(1,5) by (auto simp: tokens_ok_def)
  show ?thesis
    unfolding tokens_ok_def
  proof (intro conjI ballI allI impI)
    fix x assume "x \<in># tq_entries q'"
    then show "token x < next_token_field q'"
      using assms(1,2,3,5) less by (auto simp: tokens_ok_def intro: order_less_imp_le)
  next
    fix x y S assume *: "tq_entries q' = add_mset x (add_mset y S)"
    show "token x \<noteq> token y"
    proof
      assume t: "token x = token y"
      have "x \<in># tq_entries q'" "y \<in># tq_entries q'" using * by simp_all
      then consider "x = e" "y = e" | "x = e" "y \<in># tq_entries q" | "y = e" "x \<in># tq_entries q"
        | "x \<noteq> e" "y \<noteq> e" "x \<in># tq_entries q" "y \<in># tq_entries q"
        using assms(2) by auto
      then show False
      proof cases
        case 1
        then have "tq_entries q = add_mset e S" using * assms(2) by simp
        then show False using fresh [of e] by simp
      next
        case 2 then show False using fresh [of y] t by simp
      next
        case 3 then show False using fresh [of x] t by simp
      next
        case 4
        then have "x = y" using tokens_ok_unique [OF assms(1)] t by blast
        have "e \<in># S"
          using * assms(2) 4 by (metis add_mset_commute insert_noteq_member set_mset_add_mset_insert insertE union_single_eq_member)
        then obtain S' where "S = add_mset e S'" by (metis multi_member_split)
        then have "tq_entries q = add_mset x (add_mset y S')" using * assms(2) by (simp add: add_mset_commute)
        then show False using assms(1) t unfolding tokens_ok_def by blast
      qed
    qed
  qed
qed

lemma core_inv_cong:
  assumes "procs k' = procs k" "tq k' = tq k" "lapic_ce k' = lapic_ce k"
  shows "core_inv k' = core_inv k"
  using assms by (simp add: core_inv_def published_ok_def lapic_ok_def)

lemma live_cong:
  assumes "procs k' = procs k"
  shows "is_live_wait k' = is_live_wait k"
  using assms by (intro ext) (simp add: is_live_wait_def)

lemma sleeper_live:
  assumes "table_wf (procs k)" "p \<in> set (procs k)" "p_wait_token p = Some t"
  shows "is_live_entry (is_live_wait k) (sleep_entry p t d)"
  using assms by (auto simp: is_live_entry_def sleep_entry_def is_live_wait_iff)

lemma core_inv_stale:
  assumes "core_inv k" "tq_inv q'" "next_token_field q' = next_token_field (tq k)"
    "stale_dropped (is_live_wait k) (entries k) (tq_entries q')"
  shows "core_inv (k\<lparr>tq := q'\<rparr>)"
proof (rule core_inv_I)
  note inv = core_inv_D [OF assms(1)]
  show "tokens_ok (tq (k\<lparr>tq := q'\<rparr>))"
    using tokens_ok_subset [OF inv(3) stale_dropped_subset [OF assms(4)] assms(3)] by simp
  fix p assume p: "p \<in> set (procs (k\<lparr>tq := q'\<rparr>))"
  then have "p \<in> set (procs k)" by simp
  note sl = inv(6) [OF this]
  show "sleeper_ok (entries (k\<lparr>tq := q'\<rparr>)) p"
    unfolding sleeper_ok_def
  proof
    assume "p_state p = Sleeping"
    then obtain t d where td: "p_wait_token p = Some t" "p_wait_deadline_ns p = Some d"
      "sleep_entry p t d \<in># entries k"
      using sl by (auto simp: sleeper_ok_def)
    then have "sleep_entry p t d \<in># live k"
      using sleeper_live [OF inv(1)] p by (simp add: in_live_entries)
    then have "sleep_entry p t d \<in># tq_entries q'"
      unfolding stale_dropped_live [OF assms(4), symmetric] by (simp add: in_live_entries)
    with td show "\<exists>t d. p_wait_token p = Some t \<and> p_wait_deadline_ns p = Some d \<and>
        sleep_entry p t d \<in># entries (k\<lparr>tq := q'\<rparr>)"
      by auto
  qed
qed (use assms core_inv_D [OF assms(1)] in \<open>simp_all add: published_ok_def lapic_ok_def\<close>)

lemma program_abs_Some:
  assumes "lapic_ok k"
  obtains r where "program_abs now a k = Some (k\<lparr>lapic := r\<rparr>)"
proof -
  have "\<exists>r. program_oneshot_ns (lapic_ce k) d (lapic k) = Some r" for d
  proof (cases "lapic_ce k")
    case (Some ce)
    show ?thesis
    proof (cases "ce_mode ce = OneShot")
      case True
      then have "ce_ok ce" using assms Some by (simp add: lapic_ok_def)
      then show ?thesis using program_oneshot_count [of ce d "lapic k"] Some by metis
    qed (simp add: program_oneshot_ns_def Some)
  qed (simp add: program_oneshot_ns_def)
  then obtain r where "program_oneshot_ns (lapic_ce k)
      (max (saturating_sub a now) (min_delta_ns (lapic_ce k))) (lapic k) = Some r"
    by blast
  then show ?thesis by (intro that [of r]) (simp add: program_abs_def Let_def)
qed

text \<open>Fields that the clock-event code leaves alone.\<close>

definition same_tasks :: "kernel \<Rightarrow> kernel \<Rightarrow> bool" where
  "same_tasks k k' \<longleftrightarrow> procs k' = procs k \<and> current k' = current k \<and> quantum_deadline k' = quantum_deadline k \<and>
    hlt_deadline k' = hlt_deadline k \<and> deferred_expiry k' = deferred_expiry k \<and> lapic_ce k' = lapic_ce k \<and>
    preempt_count k' = preempt_count k \<and> in_scheduler k' = in_scheduler k \<and> need_resched k' = need_resched k \<and>
    irq_depth k' = irq_depth k"

lemma opt_min_le:
  assumes "opt_min a b = Some m"
  shows "a = Some x \<Longrightarrow> m \<le> x" "b = Some x \<Longrightarrow> m \<le> x"
  using assms by (cases a; cases b; auto)+

lemma opt_min_None: "opt_min a b = None \<longleftrightarrow> a = None \<and> b = None"
  by (cases a; cases b) auto

lemma rearm_result:
  assumes "core_inv k"
  obtains k' where "rearm now k = Some k'" "core_inv k'" "armed_ok k'" "same_tasks k k'"
    "stale_dropped (is_live_wait k) (entries k) (entries k')"
    "next_token_field (tq k') = next_token_field (tq k)"
proof -
  note inv = core_inv_D [OF assms]
  obtain d q where pk: "peek_deadline_ns (tq k) (is_live_wait k) = Some (d, q)" "tq_inv q"
    "next_token_field q = next_token_field (tq k)"
    "stale_dropped (is_live_wait k) (entries k) (tq_entries q)" "earliest (is_live_wait k) (entries k) d"
    by (rule peek_result [OF inv(2), of "is_live_wait k"])
  let ?k = "k\<lparr>tq := q\<rparr>"
  define hw where "hw = opt_min (quantum_deadline_ns ?k) (hlt_deadline_ns ?k)"
  define m where "m = opt_min d hw"
  have core: "core_inv ?k" by (rule core_inv_stale [OF assms pk(2-4)])
  have ed: "earliest_deadline k = Some (m, ?k)"
    by (simp add: earliest_deadline_def next_deadline_ns_def pk(1) m_def hw_def)
  note goal = that
  have result: thesis if k': "rearm now k = Some (?k\<lparr>armed := a, lapic := r\<rparr>)" (is "_ = Some ?k'")
    and sw: "\<And>e. e \<in># live k \<Longrightarrow> a \<le> deadline_ns e"
    and q: "\<And>x. quantum_deadline_ns ?k = Some x \<or> hlt_deadline_ns ?k = Some x \<Longrightarrow> a \<le> x" for a r
  proof (rule goal)
    show "rearm now k = Some ?k'" by (fact k')
    show "core_inv ?k'" using core core_inv_cong [of ?k' ?k] by simp
    have "is_live_wait ?k' = is_live_wait k" by (rule live_cong) simp
    then have "live ?k' = live k" using stale_dropped_live [OF pk(4)] by simp
    moreover have "quantum_deadline_ns ?k' = quantum_deadline_ns ?k" "hlt_deadline_ns ?k' = hlt_deadline_ns ?k"
      by (simp_all add: quantum_deadline_ns_def hlt_deadline_ns_def)
    moreover have "armed ?k' = a" by simp
    ultimately show "armed_ok ?k'" unfolding armed_ok_def using sw q by simp
    show "same_tasks k ?k'" by (simp add: same_tasks_def)
    show "stale_dropped (is_live_wait k) (entries k) (entries ?k')" using pk(4) by simp
    show "next_token_field (tq ?k') = next_token_field (tq k)" using pk(3) by simp
  qed
  show ?thesis
  proof (cases m)
    case None
    then have n: "d = None" "quantum_deadline_ns ?k = None" "hlt_deadline_ns ?k = None"
      by (simp_all add: m_def hw_def opt_min_None)
    show ?thesis
    proof (rule result)
      show "rearm now k = Some (?k\<lparr>armed := ARMED_NONE, lapic := cancel_timer (lapic_ce ?k) (lapic ?k)\<rparr>)"
        using None ed by (simp add: rearm_def)
      show "ARMED_NONE \<le> deadline_ns e" if "e \<in># live k" for e
        using that pk(5) n(1) by (simp add: earliest_def)
    qed (simp add: n)
  next
    case (Some a)
    have "lapic_ok (?k\<lparr>armed := a\<rparr>)" using inv(5) by (simp add: lapic_ok_def)
    then obtain r where r: "program_abs now a (?k\<lparr>armed := a\<rparr>) = Some (?k\<lparr>armed := a, lapic := r\<rparr>)"
      by (rule program_abs_Some [of _ now a]) simp
    show ?thesis
    proof (rule result)
      show "rearm now k = Some (?k\<lparr>armed := a, lapic := r\<rparr>)" using Some ed r by (simp add: rearm_def)
      show "a \<le> deadline_ns e" if e: "e \<in># live k" for e
      proof (cases d)
        case None
        then show ?thesis using pk(5) e by (simp add: earliest_def)
      next
        case (Some x)
        then have "x \<le> deadline_ns e" using pk(5) e by (simp add: earliest_def)
        with opt_min_le(1) [OF \<open>m = Some a\<close> [unfolded m_def] Some] show ?thesis by simp
      qed
      show "a \<le> x" if x: "quantum_deadline_ns ?k = Some x \<or> hlt_deadline_ns ?k = Some x" for x
      proof -
        obtain y where y: "hw = Some y"
          using x opt_min_None [of "quantum_deadline_ns ?k" "hlt_deadline_ns ?k"]
          by (cases hw) (auto simp: hw_def)
        have "y \<le> x" using x opt_min_le [OF y [unfolded hw_def]] by blast
        with opt_min_le(2) [OF Some [unfolded m_def] y] show ?thesis by simp
      qed
    qed
  qed
qed

section \<open>Expiry\<close>

text \<open>Collecting a batch, on the multiset of entries.\<close>

lemma collect_due_result:
  assumes "tq_inv q"
  shows "\<exists>es q' S. collect_due n now lv q = Some (es, q') \<and> tq_inv q' \<and>
    next_token_field q' = next_token_field q \<and> tq_entries q = mset es + (tq_entries q' + S) \<and>
    (\<forall>x \<in># S. \<not> is_live_entry lv x) \<and>
    (\<forall>e \<in> set es. is_live_entry lv e \<and> deadline_ns e \<le> now)"
  using assms
proof (induction n arbitrary: q)
  case 0
  then show ?case by (intro exI [of _ "[]"] exI [of _ q] exI [of _ "{#}"]) simp
next
  case (Suc n)
  obtain r q1 where r: "pop_due q now lv = Some (r, q1)" "tq_inv q1"
    "next_token_field q1 = next_token_field q" "popped now lv (tq_entries q) r (tq_entries q1)"
    by (rule pop_due_result [OF Suc.prems, of now lv])
  show ?case
  proof (cases r)
    case None
    with r(4) obtain S where "tq_entries q = tq_entries q1 + S" "\<forall>x \<in># S. \<not> is_live_entry lv x"
      by (auto simp: popped_def)
    then show ?thesis using None r(1-3) by (intro exI [of _ "[]"] exI [of _ q1] exI [of _ S]) simp
  next
    case (Some e)
    with r(4) obtain S where S: "tq_entries q = add_mset e (tq_entries q1 + S)"
      "\<forall>x \<in># S. \<not> is_live_entry lv x" "is_live_entry lv e" "deadline_ns e \<le> now"
      by (auto simp: popped_def)
    from Suc.IH [OF r(2)] obtain es q2 S2 where
      c: "collect_due n now lv q1 = Some (es, q2)" "tq_inv q2" "next_token_field q2 = next_token_field q1"
      "tq_entries q1 = mset es + (tq_entries q2 + S2)" "\<forall>x \<in># S2. \<not> is_live_entry lv x"
      "\<forall>e \<in> set es. is_live_entry lv e \<and> deadline_ns e \<le> now"
      by blast
    have "collect_due (Suc n) now lv q = Some (e # es, q2)" using r(1) Some c(1) by simp
    moreover have "tq_entries q = mset (e # es) + (tq_entries q2 + (S2 + S))"
      using S(1) c(4) by (simp add: ac_simps)
    moreover have "\<forall>x \<in># S2 + S. \<not> is_live_entry lv x" using c(5) S(2) by auto
    moreover have "\<forall>x \<in> set (e # es). is_live_entry lv x \<and> deadline_ns x \<le> now" using c(6) S(3,4) by simp
    ultimately show ?thesis
      using c(2,3) r(3) by (intro exI [of _ "e # es"] exI [of _ q2] exI [of _ "S2 + S"]) simp
  qed
qed

text \<open>The effect of a timer wake on one process.\<close>

fun wait_state :: "deadline_kind \<Rightarrow> process_state" where
  "wait_state Sleep = Sleeping"
| "wait_state IoTimeout = AwaitingIo"

fun woken :: "deadline_kind \<Rightarrow> process \<Rightarrow> process" where
  "woken Sleep p = p\<lparr>p_state := Runnable, p_wait_token := None, p_wait_deadline_ns := None,
     p_wake_reason := Some Deadline\<rparr>"
| "woken IoTimeout p = p\<lparr>p_state := Runnable, p_pending_io := True, p_wait_token := None,
     p_wait_deadline_ns := None, p_wake_reason := Some Deadline\<rparr>"

definition waits_for :: "deadline_entry \<Rightarrow> process \<Rightarrow> bool" where
  "waits_for e p \<longleftrightarrow> p_pid p = pid e \<and> p_wait_token p = Some (token e) \<and> p_state p = wait_state (kind e)"

definition wake1 :: "deadline_entry \<Rightarrow> process \<Rightarrow> process" where
  "wake1 e p = (if waits_for e p then woken (kind e) p else p)"

lemma woken_simps [simp]:
  "p_pid (woken kd p) = p_pid p" "p_state (woken kd p) = Runnable" "p_wait_token (woken kd p) = None"
  "p_wake_reason (woken kd p) = Some Deadline" "proc_wf (woken kd p) = proc_wf p"
  "\<not> waits_for e (woken kd p)"
  by (cases kd; simp add: proc_wf_def waits_for_def)+

lemma wake1_simps [simp]: "p_pid (wake1 e p) = p_pid p" "proc_wf (wake1 e p) = proc_wf p"
  by (simp_all add: wake1_def)

lemma fold_wake1_simps [simp]:
  "p_pid (fold wake1 es p) = p_pid p" "proc_wf (fold wake1 es p) = proc_wf p"
  by (induction es arbitrary: p) simp_all

lemma fold_wake1_woken [simp]: "fold wake1 es (woken kd p) = woken kd p"
  by (induction es) (simp_all add: wake1_def)

lemma fold_wake1_cases:
  "fold wake1 es p = p \<and> (\<forall>e \<in> set es. \<not> waits_for e p) \<or>
    (\<exists>e \<in> set es. waits_for e p \<and> fold wake1 es p = woken (kind e) p)"
  by (induction es arbitrary: p) (auto simp: wake1_def)

lemma set_process_map:
  assumes "distinct (map p_pid ps)" "get_process ps i = Some p"
  shows "set_process ps i q = map (\<lambda>x. if p_pid x = i then q else x) ps"
  using assms
proof (induction ps)
  case (Cons x ps)
  show ?case
  proof (cases "p_pid x = i")
    case True
    then have "\<forall>y \<in> set ps. p_pid y \<noteq> i" using Cons.prems(1) by (auto simp: image_iff)
    then have "map (\<lambda>x. if p_pid x = i then q else x) ps = ps" by (intro map_idI) auto
    then show ?thesis using True by simp
  next
    case False
    then show ?thesis using Cons by (simp add: get_process_def)
  qed
qed simp

lemma wake_from_timer_map:
  assumes "distinct (map p_pid (procs k))"
  shows "wake_from_timer (pid e) (token e) (kind e) k = k\<lparr>procs := map (wake1 e) (procs k)\<rparr>"
proof (cases "get_process (procs k) (pid e)")
  case None
  then have "map (wake1 e) (procs k) = procs k"
    by (intro map_idI) (auto simp: wake1_def waits_for_def get_process_None image_iff)
  then show ?thesis using None by (simp add: wake_from_timer_def)
next
  case (Some p)
  note p = get_process_Some [OF Some]
  have uniq: "x = p" if "x \<in> set (procs k)" "p_pid x = pid e" for x
    using get_process_in [OF assms that(1)] that(2) Some by simp
  show ?thesis
  proof (cases "waits_for e p")
    case True
    have "map (wake1 e) (procs k) = map (\<lambda>x. if p_pid x = pid e then woken (kind e) p else x) (procs k)"
    proof (intro map_cong refl)
      fix x assume "x \<in> set (procs k)"
      then show "wake1 e x = (if p_pid x = pid e then woken (kind e) p else x)"
        using uniq [of x] True by (auto simp: wake1_def waits_for_def)
    qed
    also have "\<dots> = set_process (procs k) (pid e) (woken (kind e) p)"
      using set_process_map [OF assms Some] by simp
    finally show ?thesis
      using Some True by (cases "kind e") (simp_all add: wake_from_timer_def waits_for_def)
  next
    case False
    have "map (wake1 e) (procs k) = procs k"
      using uniq False by (intro map_idI) (auto simp: wake1_def waits_for_def)
    then show ?thesis
      using Some False p by (cases "kind e") (auto simp: wake_from_timer_def waits_for_def)
  qed
qed

lemma wake_batch_map:
  assumes "distinct (map p_pid (procs k))"
  shows "wake_batch es k = k\<lparr>procs := map (fold wake1 es) (procs k)\<rparr>"
  using assms
proof (induction es arbitrary: k)
  case Nil
  then show ?case by (simp add: wake_batch_def)
next
  case (Cons e es)
  have "distinct (map p_pid (map (wake1 e) (procs k)))" using Cons.prems by (simp add: comp_def)
  from Cons.IH [of "k\<lparr>procs := map (wake1 e) (procs k)\<rparr>"] this
  show ?case using wake_from_timer_map [OF Cons.prems, of e] by (simp add: wake_batch_def comp_def)
qed

text \<open>
  How expiry at \<^verbatim>\<open>now\<close> relates two kernel states: each process is unchanged or was woken by a live
  entry that was due, and the queue only lost entries.
\<close>

definition expired_proc :: "u64 \<Rightarrow> deadline_entry multiset \<Rightarrow> process \<Rightarrow> process \<Rightarrow> bool" where
  "expired_proc now E p p' \<longleftrightarrow> p' = p \<or> (\<exists>e \<in># E. deadline_ns e \<le> now \<and> waits_for e p \<and> p' = woken (kind e) p)"

definition expired :: "u64 \<Rightarrow> kernel \<Rightarrow> kernel \<Rightarrow> bool" where
  "expired now k k' \<longleftrightarrow> list_all2 (expired_proc now (entries k)) (procs k) (procs k') \<and>
    entries k' \<subseteq># entries k \<and> next_token_field (tq k') = next_token_field (tq k) \<and>
    current k' = current k \<and> quantum_deadline k' = quantum_deadline k \<and> hlt_deadline k' = hlt_deadline k"

lemma expired_refl: "expired now k k"
  by (simp add: expired_def expired_proc_def list_all2_same)

lemma expired_trans:
  assumes "expired t1 k k1" "expired t2 k1 k2" "t1 \<le> t" "t2 \<le> t"
  shows "expired t k k2"
proof -
  have sub: "entries k1 \<subseteq># entries k" using assms(1) by (simp add: expired_def)
  have step: "expired_proc t (entries k) p p2"
    if 1: "expired_proc t1 (entries k) p p1" and 2: "expired_proc t2 (entries k1) p1 p2" for p p1 p2
  proof (cases "p1 = p")
    case True
    then show ?thesis using 2 assms(4) mset_subset_eqD [OF sub] by (fastforce simp: expired_proc_def)
  next
    case False
    then obtain e where e: "e \<in># entries k" "deadline_ns e \<le> t1" "waits_for e p" "p1 = woken (kind e) p"
      using 1 by (auto simp: expired_proc_def)
    have "p2 = woken (kind e) p" using 2 e(4) by (auto simp: expired_proc_def)
    with e(1,3) order_trans [OF e(2) assms(3)] show ?thesis unfolding expired_proc_def by blast
  qed
  have "list_all2 (expired_proc t (entries k)) (procs k) (procs k2)"
    using assms(1,2) step unfolding expired_def list_all2_conv_all_nth by metis
  then show ?thesis using assms(1,2) by (auto simp: expired_def)
qed

lemma waits_for_live:
  assumes "table_wf (procs k)" "is_live_entry (is_live_wait k) e"
  obtains p where "p \<in> set (procs k)" "p_pid p = pid e" "p_wait_token p = Some (token e)"
  using assms by (auto simp: is_live_entry_def is_live_wait_iff)

text \<open>Waking the processes of entries that were taken from the queue keeps the invariant.\<close>

lemma core_inv_woken:
  assumes inv: "core_inv k" and q: "tq_inv q'" "next_token_field q' = next_token_field (tq k)"
    and split: "entries k = mset es + (tq_entries q' + S)" "\<forall>x \<in># S. \<not> is_live_entry (is_live_wait k) x"
  defines "k' \<equiv> k\<lparr>tq := q', procs := map (fold wake1 es) (procs k)\<rparr>"
  shows "core_inv k'" "\<And>i t. is_live_wait k' i t \<Longrightarrow> is_live_wait k i t"
proof -
  note i = core_inv_D [OF inv]
  have dist: "distinct (map p_pid (procs k))" using i(1) by (simp add: table_wf_def)
  show core: "core_inv k'"
  proof (rule core_inv_I)
    show wf: "table_wf (procs k')" using i(1) by (simp add: table_wf_def k'_def comp_def)
    show "tokens_ok (tq k')"
      using tokens_ok_subset [OF i(3), of q'] q(2) split(1) by (simp add: k'_def)
    show "published_ok k'"
      unfolding published_ok_def
    proof (intro ballI allI impI)
      fix p' t assume "p' \<in> set (procs k')" "p_wait_token p' = Some t"
      then obtain p where "p \<in> set (procs k)" "p' = fold wake1 es p" by (auto simp: k'_def)
      with \<open>p_wait_token p' = Some t\<close> have "p_wait_token p = Some t"
        using fold_wake1_cases [of es p] by auto
      then show "t < next_token_field (tq k')"
        using i(4) \<open>p \<in> set (procs k)\<close> q(2) by (auto simp: published_ok_def k'_def)
    qed
    fix p' assume "p' \<in> set (procs k')"
    then obtain p where p: "p \<in> set (procs k)" "p' = fold wake1 es p" by (auto simp: k'_def)
    show "sleeper_ok (entries k') p'"
      unfolding sleeper_ok_def
    proof
      assume "p_state p' = Sleeping"
      then have p': "p' = p" "\<forall>e \<in> set es. \<not> waits_for e p" using p(2) fold_wake1_cases [of es p] by auto
      then obtain t d where td: "p_wait_token p = Some t" "p_wait_deadline_ns p = Some d"
        "sleep_entry p t d \<in># entries k"
        using i(6) [OF p(1)] \<open>p_state p' = Sleeping\<close> by (auto simp: sleeper_ok_def)
      have "sleep_entry p t d \<notin> set es"
        using p'(2) td(1) \<open>p_state p' = Sleeping\<close> p'(1) by (auto simp: waits_for_def sleep_entry_def)
      moreover have "sleep_entry p t d \<notin># S"
        using split(2) sleeper_live [OF i(1) p(1) td(1)] by blast
      ultimately have "sleep_entry p t d \<in># entries k'" using td(3) split(1) by (simp add: k'_def)
      with td p'(1) show "\<exists>t d. p_wait_token p' = Some t \<and> p_wait_deadline_ns p' = Some d \<and>
          sleep_entry p' t d \<in># entries k'"
        by blast
    qed
  qed (use i q in \<open>simp_all add: k'_def lapic_ok_def\<close>)
  fix ia t assume "is_live_wait k' ia t"
  then obtain p where p: "p \<in> set (procs k)" "p_pid p = ia" "p_wait_token (fold wake1 es p) = Some t"
    unfolding is_live_wait_iff [OF core_inv_D(1) [OF core]] by (auto simp: k'_def)
  then have "p_wait_token p = Some t" using fold_wake1_cases [of es p] by auto
  then show "is_live_wait k ia t" unfolding is_live_wait_iff [OF i(1)] using p(1,2) by blast
qed

lemma expire_batch_result:
  assumes inv: "core_inv k"
  obtains more k' where "expire_batch now k = Some (more, k')" "core_inv k'" "expired now k k'"
    "\<not> more \<longrightarrow> (\<forall>e \<in># live k'. now < deadline_ns e)"
proof -
  note i = core_inv_D [OF inv]
  let ?lv = "is_live_wait k"
  obtain es q1 S1 where c: "collect_due EXPIRY_BATCH now ?lv (tq k) = Some (es, q1)" "tq_inv q1"
    "next_token_field q1 = next_token_field (tq k)" "entries k = mset es + (tq_entries q1 + S1)"
    "\<forall>x \<in># S1. \<not> is_live_entry ?lv x" "\<forall>e \<in> set es. is_live_entry ?lv e \<and> deadline_ns e \<le> now"
    using collect_due_result [OF i(2), of EXPIRY_BATCH now ?lv] by blast
  obtain d q2 where d: "peek_deadline_ns q1 ?lv = Some (d, q2)" "tq_inv q2"
    "next_token_field q2 = next_token_field q1" "stale_dropped ?lv (tq_entries q1) (tq_entries q2)"
    "earliest ?lv (tq_entries q1) d"
    by (rule peek_result [OF c(2), of ?lv])
  from d(4) obtain S2 where S2: "tq_entries q1 = tq_entries q2 + S2" "\<forall>x \<in># S2. \<not> is_live_entry ?lv x"
    by (auto simp: stale_dropped_def)
  define more where "more = (case d of None \<Rightarrow> False | Some d \<Rightarrow> d \<le> now)"
  define k' where "k' = k\<lparr>tq := q2, procs := map (fold wake1 es) (procs k)\<rparr>"
  have split: "entries k = mset es + (tq_entries q2 + (S2 + S1))" using c(4) S2(1) by (simp add: ac_simps)
  have stale: "\<forall>x \<in># S2 + S1. \<not> is_live_entry ?lv x" using S2(2) c(5) by auto
  have nx: "next_token_field q2 = next_token_field (tq k)" using d(3) c(3) by simp
  note woken = core_inv_woken [OF inv d(2) nx split stale, folded k'_def]
  have "distinct (map p_pid (procs (k\<lparr>tq := q2\<rparr>)))" using i(1) by (simp add: table_wf_def)
  then have "wake_batch es (k\<lparr>tq := q2\<rparr>) = k'" by (simp add: wake_batch_map k'_def)
  then have eb: "expire_batch now k = Some (more, k')"
    by (simp add: expire_batch_def c(1) d(1) more_def Let_def)
  have "expired_proc now (entries k) p (fold wake1 es p)" for p
    using fold_wake1_cases [of es p] c(6) split by (fastforce simp: expired_proc_def)
  then have ex: "expired now k k'"
    using nx split by (simp add: expired_def k'_def list_all2_map2 list_all2_same)
  have none: "\<not> more \<longrightarrow> (\<forall>e \<in># live k'. now < deadline_ns e)"
  proof (intro impI ballI)
    fix e assume nm: "\<not> more" assume "e \<in># live k'"
    then have "e \<in># live_entries ?lv (tq_entries q2)"
      using woken(2) by (auto simp: in_live_entries is_live_entry_def k'_def)
    then have "e \<in># live_entries ?lv (tq_entries q1)" using stale_dropped_live [OF d(4)] by simp
    with d(5) nm show "now < deadline_ns e"
      by (cases d) (auto simp: earliest_def more_def)
  qed
  show ?thesis by (rule that [OF eb woken(1) ex none])
qed

lemma deferred_loop_result:
  assumes "core_inv k"
  shows "\<exists>k'. deferred_loop now k = Some k' \<and> core_inv k' \<and> expired now k k' \<and>
    (\<forall>e \<in># live k'. now < deadline_ns e)"
  using assms
proof (induction now k rule: deferred_loop.induct)
  case (1 now k)
  obtain more k1 where b: "expire_batch now k = Some (more, k1)" "core_inv k1" "expired now k k1"
    "\<not> more \<longrightarrow> (\<forall>e \<in># live k1. now < deadline_ns e)"
    by (rule expire_batch_result [OF 1(2), of now])
  show ?case
  proof (cases more)
    case False
    then show ?thesis using b by (subst deferred_loop.simps) simp
  next
    case True
    then obtain k2 where k2: "deferred_loop now k1 = Some k2" "core_inv k2" "expired now k1 k2"
      "\<forall>e \<in># live k2. now < deadline_ns e"
      using 1(1) [OF b(1) refl _ b(2)] by blast
    have "expired now k k2" using expired_trans [OF b(3) k2(3)] by simp
    then show ?thesis using b(1) True k2 by (subst deferred_loop.simps) simp
  qed
qed

lemma live_same_tasks:
  assumes "same_tasks k k'" "stale_dropped (is_live_wait k) (entries k) (entries k')"
  shows "live k' = live k"
proof -
  have "is_live_wait k' = is_live_wait k" using assms(1) by (intro live_cong) (simp add: same_tasks_def)
  then show ?thesis using stale_dropped_live [OF assms(2)] by simp
qed

lemma expired_rearm:
  assumes "expired now k k1" "same_tasks k1 k2" "entries k2 \<subseteq># entries k1"
    "next_token_field (tq k2) = next_token_field (tq k1)"
  shows "expired now k k2"
  using assms by (auto simp: expired_def same_tasks_def)

lemma handle_timer_event_result:
  assumes "core_inv k"
  obtains k' where "handle_timer_event now k = Some k'" "kernel_inv k'"
    "list_all2 (expired_proc now (entries k)) (procs k) (procs k')" "entries k' \<subseteq># entries k"
    "current k' = current k"
    "\<not> deferred_expiry k' \<longrightarrow> (\<forall>e \<in># live k'. now < deadline_ns e)"
proof -
  define k3 where "k3 = account_kernel_hlt_wake now (account_quantum now (k\<lparr>timer_events := timer_events k + 1\<rparr>))"
  have k3: "procs k3 = procs k" "tq k3 = tq k" "lapic_ce k3 = lapic_ce k" "current k3 = current k"
    by (simp_all add: k3_def account_kernel_hlt_wake_def account_quantum_def set_need_resched_def Let_def)
  have "core_inv k3" using assms core_inv_cong [OF k3(1-3)] by simp
  then obtain more k4 where b: "expire_batch now k3 = Some (more, k4)" "core_inv k4" "expired now k3 k4"
    "\<not> more \<longrightarrow> (\<forall>e \<in># live k4. now < deadline_ns e)"
    by (rule expire_batch_result [of _ now])
  define k5 where "k5 = (if more then k4\<lparr>deferred_expiry := True\<rparr> else k4)"
  have "core_inv k5" using b(2) core_inv_cong [of k5 k4] by (simp add: k5_def)
  then obtain k' where r: "rearm now k5 = Some k'" "core_inv k'" "armed_ok k'" "same_tasks k5 k'"
    "stale_dropped (is_live_wait k5) (entries k5) (entries k')"
    by (rule rearm_result [of _ now])
  have k5: "procs k5 = procs k4" "tq k5 = tq k4" "current k5 = current k4" by (simp_all add: k5_def)
  show ?thesis
  proof (rule that)
    show "handle_timer_event now k = Some k'"
      using b(1) r(1) by (simp add: handle_timer_event_def expire_due_def k3_def [symmetric] k5_def Let_def)
    show "kernel_inv k'" using r(2,3) by (simp add: kernel_inv_def)
    show "list_all2 (expired_proc now (entries k)) (procs k) (procs k')"
      using b(3) k3 k5 r(4) by (simp add: expired_def same_tasks_def)
    have "entries k4 \<subseteq># entries k3" using b(3) by (simp add: expired_def)
    then show "entries k' \<subseteq># entries k" using stale_dropped_subset [OF r(5)] k3(2) k5(2) by simp
    show "current k' = current k" using b(3) r(4) k3(4) k5(3) by (simp add: expired_def same_tasks_def)
    have "\<forall>e \<in># live k'. now < deadline_ns e" if "\<not> deferred_expiry k'"
    proof -
    have "\<not> more" using that r(4) by (simp add: same_tasks_def k5_def split: if_splits)
    then have "\<forall>e \<in># live k4. now < deadline_ns e" "k5 = k4" using b(4) by (simp_all add: k5_def)
    then show ?thesis using live_same_tasks [OF r(4,5)] by simp
    qed
    then show "\<not> deferred_expiry k' \<longrightarrow> (\<forall>e \<in># live k'. now < deadline_ns e)" by blast
  qed
qed

lemma process_deferred_result:
  assumes "kernel_inv k"
  obtains k' where "process_deferred_expiry now later k = Some k'" "kernel_inv k'"
    "list_all2 (expired_proc now (entries k)) (procs k) (procs k')"
    "current k' = current k"
    "if deferred_expiry k then \<forall>e \<in># live k'. now < deadline_ns e else k' = k"
proof (cases "deferred_expiry k")
  case False
  note goal = that
  show ?thesis
    by (rule goal [of k]) (use False assms in \<open>simp_all add: process_deferred_expiry_def expired_proc_def list_all2_same\<close>)
next
  case True
  note goal = that
  have "core_inv k" using assms by (simp add: kernel_inv_def)
  then obtain k1 where k1: "deferred_loop now k = Some k1" "core_inv k1" "expired now k k1"
    "\<forall>e \<in># live k1. now < deadline_ns e"
    using deferred_loop_result by blast
  let ?k2 = "k1\<lparr>deferred_expiry := False\<rparr>"
  have "core_inv ?k2" using k1(2) core_inv_cong [of ?k2 k1] by simp
  then obtain k' where r: "rearm later ?k2 = Some k'" "core_inv k'" "armed_ok k'" "same_tasks ?k2 k'"
    "stale_dropped (is_live_wait ?k2) (entries ?k2) (entries k')"
    by (rule rearm_result [of _ later])
  have "live ?k2 = live k1" using live_cong [of ?k2 k1] by simp
  then have "live k' = live k1" using live_same_tasks [OF r(4,5)] by simp
  show ?thesis
  proof (rule goal)
    show "process_deferred_expiry now later k = Some k'"
      using True k1(1) r(1) by (simp add: process_deferred_expiry_def)
    show "kernel_inv k'" using r(2,3) by (simp add: kernel_inv_def)
    show "list_all2 (expired_proc now (entries k)) (procs k) (procs k')" "current k' = current k"
      using k1(3) r(4) by (simp_all add: expired_def same_tasks_def)
    show "if deferred_expiry k then \<forall>e \<in># live k'. now < deadline_ns e else k' = k"
      using k1(4) \<open>live k' = live k1\<close> True by simp
  qed
qed

section \<open>The other operations keep the invariant\<close>

text \<open>
  A process may be replaced by one that waits for no more than before: the same token or none, and
  sleeping only if it slept under that token.
\<close>

definition waits_less :: "process \<Rightarrow> process \<Rightarrow> bool" where
  "waits_less p q \<longleftrightarrow> p_pid q = p_pid p \<and> (proc_wf p \<longrightarrow> proc_wf q) \<and>
    (p_wait_token q = p_wait_token p \<or> p_wait_token q = None) \<and>
    (p_state q = Sleeping \<longrightarrow> p_state p = Sleeping \<and> p_wait_token q = p_wait_token p \<and>
      p_wait_deadline_ns q = p_wait_deadline_ns p)"

lemma live_entries_mono:
  assumes "\<And>i t. is_live_wait k' i t \<Longrightarrow> is_live_wait k i t" "tq k' = tq k" "e \<in># live k'"
  shows "e \<in># live k"
  using assms by (auto simp: in_live_entries is_live_entry_def)

lemma armed_ok_mono:
  assumes "armed_ok k" "\<And>i t. is_live_wait k' i t \<Longrightarrow> is_live_wait k i t" "tq k' = tq k" "armed k' = armed k"
    "quantum_deadline k' = quantum_deadline k" "hlt_deadline k' = hlt_deadline k"
  shows "armed_ok k'"
proof -
  have "quantum_deadline_ns k' = quantum_deadline_ns k" "hlt_deadline_ns k' = hlt_deadline_ns k"
    using assms(5,6) by (simp_all add: quantum_deadline_ns_def hlt_deadline_ns_def)
  then show ?thesis
    using assms(1,4) live_entries_mono [OF assms(2,3)] by (simp add: armed_ok_def)
qed

lemma is_live_set_process:
  assumes "get_process (procs k) i = Some p" "waits_less p q"
    "is_live_wait (k\<lparr>procs := set_process (procs k) i q\<rparr>) j t"
  shows "is_live_wait k j t"
proof -
  have pid: "p_pid q = i" using assms(1,2) get_process_Some by (auto simp: waits_less_def)
  show ?thesis
    using assms(3) get_set_process [OF pid, of "procs k" j] assms(1,2)
    by (cases "j = i") (auto simp: is_live_wait_def waits_less_def get_process_None split: if_splits option.splits)
qed

lemma core_inv_set_process:
  assumes inv: "core_inv k" and p: "get_process (procs k) i = Some p" and q: "waits_less p q"
  shows "core_inv (k\<lparr>procs := set_process (procs k) i q\<rparr>)" (is "core_inv ?k")
proof (rule core_inv_I)
  note c = core_inv_D [OF inv]
  note gp = get_process_Some [OF p]
  have pid: "p_pid q = i" using gp q by (simp add: waits_less_def)
  have wfp: "proc_wf p" using c(1) gp by (simp add: table_wf_def)
  have set: "set (procs ?k) \<subseteq> insert q (set (procs k))"
    using c(1) set_set_process [of "procs k" q i] pid by (auto simp: table_wf_def)
  show "table_wf (procs ?k)" using set_process_wf [OF c(1) pid] q wfp by (simp add: waits_less_def)
  show "published_ok ?k"
    unfolding published_ok_def
  proof (intro ballI allI impI)
    fix x t assume x: "x \<in> set (procs ?k)" "p_wait_token x = Some t"
    show "t < next_token_field (tq ?k)"
    proof (cases "x = q")
      case True
      then have "p_wait_token p = Some t" using x(2) q by (auto simp: waits_less_def)
      then show ?thesis using c(4) gp by (auto simp: published_ok_def)
    next
      case False
      then show ?thesis using c(4) x set by (auto simp: published_ok_def)
    qed
  qed
  fix x assume x: "x \<in> set (procs ?k)"
  show "sleeper_ok (entries ?k) x"
  proof (cases "x = q")
    case True
    then show ?thesis using c(6) [of p] gp q pid by (auto simp: sleeper_ok_def waits_less_def sleep_entry_def)
  next
    case False
    then show ?thesis using c(6) [of x] x set by auto
  qed
qed (use core_inv_D [OF inv] in \<open>simp_all add: lapic_ok_def\<close>)

lemma kernel_inv_set_process:
  assumes "kernel_inv k" "get_process (procs k) i = Some p" "waits_less p q"
  shows "kernel_inv (k\<lparr>procs := set_process (procs k) i q\<rparr>)"
  using assms core_inv_set_process [OF _ assms(2,3)] is_live_set_process [OF assms(2,3)]
    armed_ok_mono [of k "k\<lparr>procs := set_process (procs k) i q\<rparr>"]
  by (auto simp: kernel_inv_def)

text \<open>Fields that do not enter the invariant.\<close>

lemma kernel_inv_cong:
  assumes "procs k' = procs k" "tq k' = tq k" "lapic_ce k' = lapic_ce k" "armed k' = armed k"
    "quantum_deadline k' = quantum_deadline k" "hlt_deadline k' = hlt_deadline k"
  shows "kernel_inv k' = kernel_inv k"
proof -
  have "is_live_wait k' = is_live_wait k" using live_cong [OF assms(1)] .
  then show ?thesis
    using assms core_inv_cong [OF assms(1-3)]
    by (simp add: kernel_inv_def armed_ok_def quantum_deadline_ns_def hlt_deadline_ns_def)
qed

lemma rearm_if_earlier_result:
  assumes "lapic_ok k"
  obtains r where "rearm_if_earlier now d k = Some (k\<lparr>armed := min (armed k) d, lapic := r\<rparr>)"
proof (cases "d < armed k")
  case True
  have "lapic_ok (k\<lparr>armed := d\<rparr>)" using assms by (simp add: lapic_ok_def)
  then obtain r where "program_abs now d (k\<lparr>armed := d\<rparr>) = Some (k\<lparr>armed := d, lapic := r\<rparr>)"
    by (rule program_abs_Some [of _ now d]) simp
  then show ?thesis
    using True by (intro that [of r]) (simp add: rearm_if_earlier_def should_replace_def min_def)
next
  case False
  then show ?thesis
    by (intro that [of "lapic k"]) (simp add: rearm_if_earlier_def should_replace_def min_def)
qed

lemma kernel_inv_D: "kernel_inv k \<Longrightarrow> core_inv k" "kernel_inv k \<Longrightarrow> armed_ok k"
  by (simp_all add: kernel_inv_def)

lemma armed_ok_D:
  assumes "armed_ok k"
  shows "e \<in># live k \<Longrightarrow> armed k \<le> deadline_ns e" "quantum_deadline_ns k = Some d \<Longrightarrow> armed k \<le> d"
    "hlt_deadline_ns k = Some d \<Longrightarrow> armed k \<le> d"
  using assms by (auto simp: armed_ok_def)

lemma reset_quantum_inv:
  assumes "kernel_inv k" "quantum_deadline_ns (reset_quantum now k) = Some d"
    "rearm_if_earlier now d (reset_quantum now k) = Some k'"
  shows "kernel_inv k' \<and> procs k' = procs k \<and> tq k' = tq k \<and> current k' = current k"
proof -
  have "lapic_ok (reset_quantum now k)"
    using core_inv_D(5) [OF kernel_inv_D(1) [OF assms(1)]] by (simp add: lapic_ok_def reset_quantum_def)
  then obtain r where "rearm_if_earlier now d (reset_quantum now k) =
      Some ((reset_quantum now k)\<lparr>armed := min (armed (reset_quantum now k)) d, lapic := r\<rparr>)"
    by (rule rearm_if_earlier_result)
  with assms(3) have k': "k' = (reset_quantum now k)\<lparr>armed := min (armed k) d, lapic := r\<rparr>"
    by (simp add: reset_quantum_def)
  then have f: "procs k' = procs k" "tq k' = tq k" "current k' = current k" "lapic_ce k' = lapic_ce k"
    "hlt_deadline k' = hlt_deadline k" "armed k' = min (armed k) d"
    by (simp_all add: reset_quantum_def)
  have "quantum_deadline_ns k' = Some d"
    using assms(2) k' by (simp add: quantum_deadline_ns_def)
  moreover have "hlt_deadline_ns k' = hlt_deadline_ns k" using f(5) by (simp add: hlt_deadline_ns_def)
  moreover have "live k' = live k" using live_cong [OF f(1)] f(2) by simp
  ultimately have "armed_ok k'"
    using armed_ok_D [OF kernel_inv_D(2) [OF assms(1)]] f(6) by (auto simp: armed_ok_def min.coboundedI1)
  then show ?thesis using assms(1) core_inv_cong [OF f(1,2,4)] f by (simp add: kernel_inv_def)
qed

lemma reset_quantum_armed: "\<exists>d. quantum_deadline_ns (reset_quantum now k) = Some d"
proof -
  have "saturating_add now QUANTUM_NS \<noteq> 0"
  proof (cases "unat now + unat QUANTUM_NS < 2 ^ 64")
    case True
    then have "unat (now + QUANTUM_NS) = unat now + unat QUANTUM_NS" by (subst unat_word_ariths(1)) simp
    then have "0 < unat (now + QUANTUM_NS)" by (simp add: QUANTUM_NS_def)
    then show ?thesis using True by (auto simp: saturating_add_def)
  qed (simp add: saturating_add_def)
  then show ?thesis by (simp add: quantum_deadline_ns_def reset_quantum_def)
qed

lemma wake_process_result:
  assumes "kernel_inv k"
  obtains k' where "wake_process now i k = Some k'" "kernel_inv k'" "current k' = current k" "tq k' = tq k"
    "procs k' = procs k \<or> (\<exists>p q. get_process (procs k) i = Some p \<and> waits_less p q \<and>
      procs k' = set_process (procs k) i q \<and>
      p_state q = (if p_state p = AwaitingIo then Runnable else p_state p))"
proof (cases "get_process (procs k) i")
  case None
  then show ?thesis using assms by (intro that [of k]) (simp_all add: wake_process_def)
next
  case (Some p)
  note goal = that
  show ?thesis
  proof (cases "p_state p = AwaitingIo")
    case True
    let ?q = "p\<lparr>p_state := Runnable, p_pending_io := True, p_wake_reason := Some Event\<rparr>"
    let ?k1 = "k\<lparr>procs := set_process (procs k) i ?q\<rparr>"
    have wl: "waits_less p ?q" by (simp add: waits_less_def proc_wf_def)
    have inv1: "kernel_inv ?k1" by (rule kernel_inv_set_process [OF assms Some wl])
    show ?thesis
    proof (cases "i \<noteq> current ?k1 \<and> quantum_deadline_ns ?k1 = None")
      case reset: True
      obtain d where d: "quantum_deadline_ns (reset_quantum now ?k1) = Some d" using reset_quantum_armed by blast
      have "lapic_ok (reset_quantum now ?k1)"
        using core_inv_D(5) [OF kernel_inv_D(1) [OF inv1]] by (simp add: lapic_ok_def reset_quantum_def)
      then obtain k' where k': "rearm_if_earlier now d (reset_quantum now ?k1) = Some k'"
        by (metis rearm_if_earlier_result)
      note r = reset_quantum_inv [OF inv1 d k']
      have "wake_process now i k = Some k'" using Some True reset d k' by (simp add: wake_process_def Let_def)
      then show ?thesis by (rule goal) (use r Some wl True in auto)
    next
      case False
      have "wake_process now i k = Some ?k1" using Some True False by (auto simp: wake_process_def Let_def)
      then show ?thesis by (rule goal) (use inv1 Some wl True in auto)
    qed
  next
    case False
    let ?q = "p\<lparr>p_pending_io := True\<rparr>"
    have wl: "waits_less p ?q" by (simp add: waits_less_def proc_wf_def)
    have inv1: "kernel_inv (k\<lparr>procs := set_process (procs k) i ?q\<rparr>)"
      by (rule kernel_inv_set_process [OF assms Some wl])
    show ?thesis
    proof (cases "p_state p = Dead \<or> p_state p = Stopped")
      case True
      then have "wake_process now i k = Some k" using Some by (auto simp: wake_process_def)
      then show ?thesis by (rule goal) (use assms in simp_all)
    next
      case nd: False
      have "wake_process now i k = Some (k\<lparr>procs := set_process (procs k) i ?q\<rparr>)"
        using Some False nd by (cases "p_state p") (simp_all add: wake_process_def)
      then show ?thesis by (rule goal) (use inv1 Some wl False in auto)
    qed
  qed
qed

end
