(* ===== verification/Wait_Safety.thy ===== *)
theory Wait_Safety
  imports Kernel_Wait
begin

text \<open>
  Safety of blocking and waking over whole executions: the operations on waits as a step relation on
  the kernel state, the invariant of the reachable states, and what it gives: no wakeup is lost, none
  comes early, and the hardware is always armed for the first deadline.
\<close>

section \<open>Signals, cancellation and exit\<close>

lemma queue_signal_proc_waits_less:
  assumes "proc_wf p" "queue_signal_proc p sig = Some q"
  shows "waits_less p q"
proof (cases "1 \<le> sig \<and> sig \<le> 64")
  case True
  show ?thesis
    using assms True
    by (auto simp: queue_signal_proc_def Let_def waits_less_def proc_wf_def split: if_splits bind_splits)
next
  case False
  then show ?thesis using assms by (auto simp: queue_signal_proc_def waits_less_def)
qed

lemma queue_signal_proc_total:
  assumes "proc_wf p"
  obtains q where "queue_signal_proc p sig = Some q"
proof (cases "1 \<le> sig \<and> sig \<le> 64")
  case True
  then show ?thesis using queue_signal_proc_result [OF assms, of sig] that by metis
next
  case False
  then show ?thesis using that [of p] by (simp add: queue_signal_proc_def)
qed

lemma queue_signal_inv:
  assumes "kernel_inv k"
  obtains b k' where "queue_signal now i sig k = Some (b, k')" "kernel_inv k'"
proof (cases "get_process (procs k) i")
  case None
  then show ?thesis using assms that [of False k] by (simp add: queue_signal_def)
next
  case (Some p)
  note goal = that
  have wf: "proc_wf p"
    using core_inv_D(1) [OF kernel_inv_D(1) [OF assms]] get_process_Some [OF Some] by (simp add: table_wf_def)
  obtain q where q: "queue_signal_proc p sig = Some q" by (rule queue_signal_proc_total [OF wf])
  have inv1: "kernel_inv (k\<lparr>procs := set_process (procs k) i q\<rparr>)"
    by (rule kernel_inv_set_process [OF assms Some queue_signal_proc_waits_less [OF wf q]])
  obtain k' where "wake_process now i (k\<lparr>procs := set_process (procs k) i q\<rparr>) = Some k'" "kernel_inv k'"
    by (rule wake_process_result [OF inv1])
  then show ?thesis using goal [of True k'] Some q by (simp add: queue_signal_def)
qed

text \<open>A wait is cancelled by the process that owned it, once it runs again.\<close>

lemma cancel_owned_inv:
  assumes "kernel_inv k" "\<And>p. get_process (procs k) (current k) = Some p \<Longrightarrow> p_state p \<noteq> Sleeping"
  shows "kernel_inv (cancel_owned t k)"
proof (cases "get_process (procs k) (current k)")
  case None
  then show ?thesis using assms by (simp add: cancel_owned_def)
next
  case (Some p)
  then have "waits_less p (p\<lparr>p_wait_token := None, p_wait_deadline_ns := None\<rparr>)"
    using assms(2) by (simp add: waits_less_def proc_wf_def)
  from kernel_inv_set_process [OF assms(1) Some this] Some assms(1) show ?thesis
    by (simp add: cancel_owned_def)
qed

lemma read_and_clear_inv:
  assumes "kernel_inv k"
  shows "kernel_inv (snd (read_and_clear_wake_reason now d i k))"
proof (cases "get_process (procs k) i")
  case None
  then show ?thesis using assms by (simp add: read_and_clear_wake_reason_def)
next
  case (Some p)
  have "waits_less p (p\<lparr>p_wait_token := None, p_wait_deadline_ns := None, p_wake_reason := None,
      p_state := Running\<rparr>)"
    by (simp add: waits_less_def proc_wf_def)
  from kernel_inv_set_process [OF assms Some this] Some show ?thesis
    by (simp add: read_and_clear_wake_reason_def Let_def)
qed

section \<open>Scheduling\<close>

lemma core_inv_procs:
  assumes inv: "core_inv k" and ps: "list_all2 waits_less (procs k) ps"
  shows "core_inv (k\<lparr>procs := ps\<rparr>)" (is "core_inv ?k")
proof (rule core_inv_I)
  note c = core_inv_D [OF inv]
  have "map p_pid ps = map p_pid (procs k)"
    using ps by (induction rule: list_all2_induct) (simp_all add: waits_less_def)
  moreover have src: "\<exists>p \<in> set (procs k). waits_less p q" if "q \<in> set ps" for q
    using ps that by (metis in_set_conv_nth list_all2_conv_all_nth)
  ultimately show "table_wf (procs ?k)" using c(1) by (fastforce simp: table_wf_def waits_less_def)
  show "published_ok ?k"
    using c(4) src by (fastforce simp: published_ok_def waits_less_def)
  fix q assume "q \<in> set (procs ?k)"
  then obtain p where p: "p \<in> set (procs k)" "waits_less p q" using src by auto
  then show "sleeper_ok (entries ?k) q"
    using c(6) [OF p(1)] by (auto simp: sleeper_ok_def waits_less_def sleep_entry_def)
qed (use core_inv_D [OF inv] in \<open>simp_all add: lapic_ok_def\<close>)

lemma kernel_inv_procs:
  assumes inv: "kernel_inv k" and wl: "list_all2 waits_less (procs k) ps"
  shows "kernel_inv (k\<lparr>procs := ps\<rparr>)"
proof -
  have core: "core_inv (k\<lparr>procs := ps\<rparr>)" by (rule core_inv_procs [OF kernel_inv_D(1) [OF inv] wl])
  have "is_live_wait k i t" if lw: "is_live_wait (k\<lparr>procs := ps\<rparr>) i t" for i t
  proof -
    obtain q where "q \<in> set ps" "p_pid q = i" "p_wait_token q = Some t"
      using lw unfolding is_live_wait_iff [OF core_inv_D(1) [OF core]] by auto
    moreover from this obtain p where "p \<in> set (procs k)" "waits_less p q"
      using wl by (metis in_set_conv_nth list_all2_conv_all_nth)
    ultimately show ?thesis
      unfolding is_live_wait_iff [OF core_inv_D(1) [OF kernel_inv_D(1) [OF inv]]]
      by (auto simp: waits_less_def)
  qed
  then have "armed_ok (k\<lparr>procs := ps\<rparr>)"
    by (intro armed_ok_mono [OF kernel_inv_D(2) [OF inv]]) simp_all
  then show ?thesis using core by (simp add: kernel_inv_def)
qed

text \<open>Updates of the table that leave every process waiting for no more than before.\<close>

abbreviation table_less :: "process list \<Rightarrow> process list \<Rightarrow> bool" where
  "table_less \<equiv> list_all2 waits_less"

lemma waits_less_refl [simp]: "waits_less p p"
  by (simp add: waits_less_def)

lemma waits_less_trans: "waits_less p q \<Longrightarrow> waits_less q r \<Longrightarrow> waits_less p r"
  by (auto simp: waits_less_def)

lemma table_less_refl [simp]: "table_less ps ps"
  by (simp add: list_all2_refl)

lemma table_less_trans: "table_less ps qs \<Longrightarrow> table_less qs rs \<Longrightarrow> table_less ps rs"
  by (erule list_all2_trans [rotated 1]) (assumption | rule waits_less_trans)+

lemma table_less_update: "i < length ps \<Longrightarrow> waits_less (ps ! i) q \<Longrightarrow> table_less ps (ps[i := q])"
  by (simp add: list_all2_conv_all_nth nth_list_update)

lemma table_less_map: "(\<And>p. p \<in> set ps \<Longrightarrow> waits_less p (f p)) \<Longrightarrow> table_less ps (map f ps)"
  by (induction ps) auto

lemma table_less_set_process:
  "get_process ps i = Some p \<Longrightarrow> waits_less p q \<Longrightarrow> table_less ps (set_process ps i q)"
  by (induction ps) (auto simp: get_process_def)

lemma table_less_wf:
  assumes "table_less ps qs" "\<forall>p \<in> set ps. proc_wf p"
  shows "\<forall>p \<in> set qs. proc_wf p"
  using assms by (induction rule: list_all2_induct) (auto simp: waits_less_def)

lemma table_less_pids: "table_less ps qs \<Longrightarrow> map p_pid qs = map p_pid ps"
  by (induction rule: list_all2_induct) (auto simp: waits_less_def)

lemma switch_states_waits_less:
  assumes "switch_states ps cur nxt = Some (b, ps')"
  shows "list_all2 waits_less ps ps'"
proof -
  have refl: "waits_less p p" for p by (simp add: waits_less_def)
  show ?thesis
    using assms
    by (auto simp: switch_states_def Let_def idx_Some_iff list_all2_conv_all_nth refl nth_list_update
        waits_less_def proc_wf_def split: if_splits bind_splits)
qed

lemma release_fields [simp]:
  "procs (snd (scheduler_release b k)) = procs k" "tq (snd (scheduler_release b k)) = tq k"
  "lapic_ce (snd (scheduler_release b k)) = lapic_ce k" "armed (snd (scheduler_release b k)) = armed k"
  "quantum_deadline (snd (scheduler_release b k)) = quantum_deadline k"
  "hlt_deadline (snd (scheduler_release b k)) = hlt_deadline k"
  "current (snd (scheduler_release b k)) = current k"
  by (simp_all add: scheduler_release_def preempt_enable_no_resched_def)

lemma release_inv [simp]: "kernel_inv (snd (scheduler_release b k)) = kernel_inv k"
  by (rule kernel_inv_cong) simp_all

lemma try_enter_fields:
  assumes "scheduler_try_enter k = (b, k1)"
  shows "procs k1 = procs k" "tq k1 = tq k" "lapic_ce k1 = lapic_ce k" "armed k1 = armed k"
    "quantum_deadline k1 = quantum_deadline k" "hlt_deadline k1 = hlt_deadline k" "current k1 = current k"
  using assms
  by (auto simp: scheduler_try_enter_def preempt_disable_def preempt_enable_no_resched_def Let_def
      split: if_splits)

lemma try_enter_inv: "scheduler_try_enter k = (b, k1) \<Longrightarrow> kernel_inv k1 = kernel_inv k"
  by (rule kernel_inv_cong; rule try_enter_fields)

lemma arm_quantum_inv:
  assumes "core_inv k" "cur < length (procs k)"
  obtains k' where "arm_quantum_for_current now cur k = Some k'" "kernel_inv k'" "procs k' = procs k"
proof -
  obtain peer where peer: "find_next_runnable_index (procs k) cur = Some peer"
    using find_next_runnable_spec [OF assms(2)] by blast
  define k1 where "k1 = (if peer \<noteq> None then reset_quantum now k else clear_quantum k)"
  have k1: "procs k1 = procs k" "tq k1 = tq k" "lapic_ce k1 = lapic_ce k"
    by (simp_all add: k1_def reset_quantum_def clear_quantum_def)
  have "core_inv k1" using assms(1) core_inv_cong [OF k1] by simp
  then obtain k' where "rearm now k1 = Some k'" "core_inv k'" "armed_ok k'" "same_tasks k1 k'"
    by (rule rearm_result [of _ now])
  with peer k1 show ?thesis
    by (intro that [of k']) (auto simp: arm_quantum_for_current_def k1_def kernel_inv_def same_tasks_def)
qed

lemma find_process_index_less: "find_process_index ps i = Some n \<Longrightarrow> n < length ps"
proof -
  have "(\<exists>p \<in> set ps. p_pid p = i) \<Longrightarrow> length (takeWhile (\<lambda>p. p_pid p \<noteq> i) ps) < length ps"
    by (induction ps) auto
  then show "find_process_index ps i = Some n \<Longrightarrow> n < length ps"
    by (auto simp: find_process_index_def split: if_splits)
qed

lemma switch_by_index_inv:
  assumes "kernel_inv k" "cur < length (procs k)" "nxt < length (procs k)" "cur \<noteq> nxt"
  obtains b k' where "switch_by_index now cur nxt k = Some (b, k')" "kernel_inv k'"
proof -
  note goal = that
  have "switch_states (procs k) cur nxt \<noteq> None"
    using assms(2,3) by (auto simp: switch_states_def Let_def intro: exI [of _ False])
  then obtain b ps where sw: "switch_states (procs k) cur nxt = Some (b, ps)" by fastforce
  note wl = switch_states_waits_less [OF sw]
  have len: "length ps = length (procs k)" using wl by (rule list_all2_lengthD [symmetric])
  have core: "core_inv (k\<lparr>procs := ps\<rparr>)" by (rule core_inv_procs [OF kernel_inv_D(1) [OF assms(1)] wl])
  show ?thesis
  proof (cases b)
    case True
    obtain k2 where k2: "arm_quantum_for_current now nxt (k\<lparr>procs := ps\<rparr>) = Some k2" "kernel_inv k2" "procs k2 = ps"
      using arm_quantum_inv [OF core, of nxt now] assms(3) len by auto
    have "kernel_inv (k2\<lparr>current := c\<rparr>)" for c using k2(2) kernel_inv_cong [of "k2\<lparr>current := c\<rparr>" k2] by simp
    then show ?thesis
      using sw True k2 assms(3) len
      by (intro goal [of True "snd (scheduler_release True (k2\<lparr>current := p_pid (ps ! nxt)\<rparr>))"])
        (auto simp: switch_by_index_def Let_def)
  next
    case False
    have "kernel_inv (k\<lparr>procs := ps\<rparr>)" by (rule kernel_inv_procs [OF assms(1) wl])
    then show ?thesis
      using sw False by (intro goal [of False "snd (scheduler_release True (k\<lparr>procs := ps\<rparr>))"])
        (auto simp: switch_by_index_def Let_def)
  qed
qed

lemma schedule_now_inv:
  assumes "kernel_inv k"
  obtains b k' where "schedule_now now k = Some (b, k')" "kernel_inv k'"
proof -
  note goal = that
  obtain ok k1 where e: "scheduler_try_enter k = (ok, k1)" by fastforce
  define k2 where "k2 = clear_need_resched k1"
  have inv1: "kernel_inv k1" using assms try_enter_inv [OF e] by simp
  have inv2: "kernel_inv k2" using inv1 kernel_inv_cong [of k2 k1] by (simp add: k2_def clear_need_resched_def)
  show ?thesis
  proof (cases "ok \<and> \<not> length (procs k2) < 2 \<and> find_process_index (procs k2) (current k2) \<noteq> None")
    case False
    then show ?thesis
      using e inv1 inv2 by (cases ok)
        (auto simp: schedule_now_def k2_def [symmetric] Let_def split: option.splits if_splits intro: goal)
  next
    case True
    then obtain c where c: "find_process_index (procs k2) (current k2) = Some c" by auto
    obtain r where r: "find_next_runnable_index (procs k2) c = Some r"
      "case r of None \<Rightarrow> True | Some i \<Rightarrow> i < length (procs k2) \<and> i \<noteq> c"
      using find_next_runnable_spec [OF find_process_index_less [OF c]] by (fastforce split: option.splits)
    show ?thesis
    proof (cases r)
      case None
      then show ?thesis
        using e True c r inv2
        by (intro goal [of False "snd (scheduler_release True k2)"])
          (auto simp: schedule_now_def k2_def [symmetric] Let_def)
    next
      case (Some i)
      obtain b k' where "switch_by_index now c i k2 = Some (b, k')" "kernel_inv k'"
        using switch_by_index_inv [OF inv2 find_process_index_less [OF c], of i now] r(2) Some by auto
      then show ?thesis
        using e True c r Some by (intro goal) (auto simp: schedule_now_def k2_def [symmetric] Let_def)
    qed
  qed
qed

section \<open>Blocking\<close>

text \<open>Handing out a token and queueing an entry under it: nobody has published the token yet.\<close>

lemma next_token_fresh:
  assumes "next_token q = (t, q1)" "t \<noteq> EXHAUSTED"
  shows "t = next_token_field q" "next_token_field q \<noteq> - 1" "next_token_field q1 = next_token_field q + 1"
    "heap q1 = heap q" "cap q1 = cap q"
  using assms by (auto simp: next_token_def EXHAUSTED_def Let_def split: if_splits)

lemma not_live_fresh:
  assumes "core_inv k"
  shows "\<not> is_live_wait k i (next_token_field (tq k))"
  using core_inv_D(4) [OF assms] unfolding is_live_wait_iff [OF core_inv_D(1) [OF assms]]
  by (auto simp: published_ok_def)

lemma tq_update_inv:
  assumes inv: "kernel_inv k" and q': "tq_inv q'" "tokens_ok q'"
    "next_token_field (tq k) \<le> next_token_field q'" "entries k \<subseteq># tq_entries q'"
    and new: "\<And>e. e \<in># tq_entries q' \<Longrightarrow> e \<in># entries k \<or> \<not> is_live_entry (is_live_wait k) e"
  shows "kernel_inv (k\<lparr>tq := q'\<rparr>)" (is "kernel_inv ?k")
proof -
  note c = core_inv_D [OF kernel_inv_D(1) [OF inv]]
  have "core_inv ?k"
  proof (rule core_inv_I)
    show "published_ok ?k" using c(4) q'(3) by (fastforce simp: published_ok_def)
    fix p assume "p \<in> set (procs ?k)"
    then show "sleeper_ok (entries ?k) p"
      using c(6) [of p] mset_subset_eqD [OF q'(4)] by (fastforce simp: sleeper_ok_def)
  qed (use c q' in \<open>simp_all add: lapic_ok_def\<close>)
  moreover have "is_live_wait ?k = is_live_wait k" by (rule live_cong) simp
  then have "e \<in># live k" if "e \<in># live ?k" for e
    using that new [of e] by (auto simp: in_live_entries)
  then have "armed_ok ?k"
    using kernel_inv_D(2) [OF inv] by (simp add: armed_ok_def quantum_deadline_ns_def hlt_deadline_ns_def)
  ultimately show ?thesis by (simp add: kernel_inv_def)
qed

text \<open>The laws of \<^verbatim>\<open>try_reserve_exact\<close> that the queue relies on.\<close>

definition reserve_ok :: "(nat \<Rightarrow> nat option) \<Rightarrow> bool" where
  "reserve_ok reserve \<longleftrightarrow> (\<forall>n c. reserve n = Some c \<longrightarrow> n < c)"

lemma try_reserve_push_cases:
  assumes "tq_inv q" "reserve_ok reserve"
  shows "try_reserve_push reserve q e = Some (Inl (), q) \<or>
    (\<exists>q'. try_reserve_push reserve q e = Some (Inr (), q') \<and> tq_inv q' \<and>
      next_token_field q' = next_token_field q \<and> tq_entries q' = add_mset e (tq_entries q))"
proof -
  have "\<And>n c. reserve n = Some c \<Longrightarrow> n < c" using assms(2) by (simp add: reserve_ok_def)
  from try_reserve_push_result [OF assms(1) this] show ?thesis by metis
qed

lemma token_push_result:
  assumes inv: "kernel_inv k" and res: "reserve_ok reserve"
    and nt: "next_token (tq k) = (t, q1)" "t \<noteq> EXHAUSTED" and e: "token e = t"
  obtains r q' where "try_reserve_push reserve q1 e = Some (r, q')" "kernel_inv (k\<lparr>tq := q'\<rparr>)"
    "t < next_token_field q'" "\<And>x. r = Inr x \<Longrightarrow> e \<in># tq_entries q'"
proof -
  note goal = that
  note c = core_inv_D [OF kernel_inv_D(1) [OF inv]]
  note f = next_token_fresh [OF nt]
  have q1: "tq_inv q1" "tq_entries q1 = entries k" using c(2) f(4,5) by (simp_all add: tq_inv_def tq_entries_def)
  have up: "next_token_field (tq k) < next_token_field q1" using word_less_Suc [OF f(2)] f(3) by simp
  have fresh: "\<not> is_live_entry (is_live_wait k) e"
    using not_live_fresh [OF kernel_inv_D(1) [OF inv]] e f(1) by (simp add: is_live_entry_def)
  consider (oom) "try_reserve_push reserve q1 e = Some (Inl (), q1)"
    | (pushed) q' where "try_reserve_push reserve q1 e = Some (Inr (), q')" "tq_inv q'"
      "next_token_field q' = next_token_field q1" "tq_entries q' = add_mset e (tq_entries q1)"
    using try_reserve_push_cases [OF q1(1) res] by blast
  then show ?thesis
  proof cases
    case oom
    have "tokens_ok q1"
      unfolding tokens_ok_def q1(2) using c(3) up by (auto simp: tokens_ok_def intro: less_trans)
    then have "kernel_inv (k\<lparr>tq := q1\<rparr>)"
      by (intro tq_update_inv [OF inv q1(1)]) (use up q1(2) in \<open>simp_all add: order_less_imp_le\<close>)
    then show ?thesis using goal [OF oom] up f(1) by simp
  next
    case (pushed q')
    have "tokens_ok q'"
      by (rule tokens_ok_push [OF c(3)]) (use pushed q1 f e in simp_all)
    then have "kernel_inv (k\<lparr>tq := q'\<rparr>)"
      by (intro tq_update_inv [OF inv pushed(2)])
        (use up pushed(3,4) q1(2) fresh in \<open>auto simp: order_less_imp_le\<close>)
    then show ?thesis using goal [OF pushed(1)] up f(1) pushed(3,4) by simp
  qed
qed

text \<open>Publishing the token of a queued entry, with the event rearmed for its deadline.\<close>

lemma publish_inv:
  assumes inv: "kernel_inv k" and p: "get_process (procs k) i = Some p"
    and e: "e \<in># entries k" "token e = t" "pid e = i" "deadline_ns e = d" "t < next_token_field (tq k)"
    and q: "p_pid q = i" "proc_wf p \<Longrightarrow> proc_wf q" "p_wait_token q = Some t" "p_wait_deadline_ns q = Some d"
    "p_state q = Sleeping \<Longrightarrow> kind e = Sleep"
  shows "kernel_inv (k\<lparr>procs := set_process (procs k) i q, armed := min (armed k) d, lapic := r\<rparr>)"
    (is "kernel_inv ?k")
proof -
  note c = core_inv_D [OF kernel_inv_D(1) [OF inv]]
  note gp = get_process_Some [OF p]
  have wfq: "proc_wf q" using c(1) gp q(2) by (simp add: table_wf_def)
  have set: "set (procs ?k) \<subseteq> insert q (set (procs k))"
    using c(1) set_set_process [of "procs k" q i] q(1) by (auto simp: table_wf_def)
  have core: "core_inv ?k"
  proof (rule core_inv_I)
    show "table_wf (procs ?k)" using set_process_wf [OF c(1) q(1) wfq] by simp
    show "published_ok ?k" using c(4) set q(3) e(5) by (auto simp: published_ok_def)
    fix x assume x: "x \<in> set (procs ?k)"
    show "sleeper_ok (entries ?k) x"
    proof (cases "x = q")
      case True
      have "sleep_entry q t d = e" if "p_state q = Sleeping"
        using that q(1,5) e(2-4) by (simp add: sleep_entry_def)
      then show ?thesis using True q(3,4) e(1) by (auto simp: sleeper_ok_def)
    next
      case False
      then show ?thesis using c(6) [of x] x set by auto
    qed
  qed (use c in \<open>simp_all add: lapic_ok_def\<close>)
  have "min (armed k) d \<le> deadline_ns x" if x: "x \<in># live ?k" for x
  proof (cases "token x = t")
    case True
    have "x = e"
      by (rule tokens_ok_unique [OF c(3)]) (use x True e(1,2) in \<open>simp_all add: in_live_entries\<close>)
    then show ?thesis using e(4) by simp
  next
    case False
    obtain y where y: "y \<in> set (procs ?k)" "p_pid y = pid x" "p_wait_token y = Some (token x)"
      using x unfolding in_live_entries is_live_entry_def is_live_wait_iff [OF core_inv_D(1) [OF core]] by blast
    then have "y \<noteq> q" using False q(3) by auto
    then have "y \<in> set (procs k)" using y(1) set by auto
    then have "x \<in># live k"
      using x y(2,3) unfolding in_live_entries is_live_entry_def is_live_wait_iff [OF c(1)] by auto
    then show ?thesis using armed_ok_D(1) [OF kernel_inv_D(2) [OF inv]] by (simp add: min.coboundedI1)
  qed
  then have "armed_ok ?k"
    using armed_ok_D(2,3) [OF kernel_inv_D(2) [OF inv]]
    by (auto simp: armed_ok_def quantum_deadline_ns_def hlt_deadline_ns_def Let_def min.coboundedI1)
  with core show ?thesis by (simp add: kernel_inv_def)
qed

text \<open>
  The outcome of \<^verbatim>\<open>block_current_until\<close> before the switch: refused with the process table untouched, or
  asleep with its entry queued and the event armed for it.
\<close>

definition blocked_ok :: "u64 \<Rightarrow> kernel \<Rightarrow> wake_reason + wait_token \<Rightarrow> kernel \<Rightarrow> bool" where
  "blocked_ok d k r k' \<longleftrightarrow>
    (case r of
       Inl _ \<Rightarrow> procs k' = procs k
     | Inr t \<Rightarrow> \<exists>p. get_process (procs k') (current k) = Some p \<and> p_state p = Sleeping \<and>
         p_wait_token p = Some t \<and> p_wait_deadline_ns p = Some d \<and>
         sleep_entry p t d \<in># entries k' \<and> armed k' \<le> d)"

lemma block_publish_result:
  assumes inv: "kernel_inv k" and res: "reserve_ok reserve"
  obtains r k' where "block_publish reserve now d k = Some (r, k')" "kernel_inv k'" "blocked_ok d k r k'"
proof -
  note goal = that
  obtain ok k1 where e: "scheduler_try_enter k = (ok, k1)" by fastforce
  note f1 = try_enter_fields [OF e]
  have inv1: "kernel_inv k1" using inv try_enter_inv [OF e] by simp
  note c = core_inv_D [OF kernel_inv_D(1) [OF inv1]]
  have refuse: thesis
    if "block_publish reserve now d k = Some (Inl rs, snd (scheduler_release b k'))" "kernel_inv k'"
      "procs k' = procs k" for rs b k'
    by (rule goal [OF that(1)]) (use that(2,3) in \<open>simp_all add: blocked_ok_def\<close>)
  show ?thesis
  proof (cases "ok \<and> \<not> d \<le> now")
    case False
    then consider "\<not> ok" | "ok" "d \<le> now" by blast
    then show ?thesis
    proof cases
      case 1
      then show ?thesis using e inv1 f1(1) by (intro goal [of "Inl Cancelled" k1]) (simp_all add: block_publish_def blocked_ok_def)
    next
      case 2
      then show ?thesis using e inv1 f1(1) by (intro refuse [of Deadline True k1]) (simp_all add: block_publish_def Let_def)
    qed
  next
    case True
    have "\<exists>hs. (case get_process (procs k1) (current k1) of
        None \<Rightarrow> Some False | Some p \<Rightarrow> has_sleep_interrupting_signal p) = Some hs"
    proof (cases "get_process (procs k1) (current k1)")
      case (Some p)
      then have "proc_wf p" using c(1) get_process_Some [OF Some] by (simp add: table_wf_def)
      then show ?thesis using has_sleep_interrupting_signal_spec Some by simp
    qed auto
    then obtain hs where hs: "(case get_process (procs k1) (current k1) of
        None \<Rightarrow> Some False | Some p \<Rightarrow> has_sleep_interrupting_signal p) = Some hs" by blast
    obtain t q1 where nt: "next_token (tq k1) = (t, q1)" by fastforce
    have bp: "block_publish reserve now d k =
        (if hs then Some (Inl Signal, snd (scheduler_release True k1))
         else if t = EXHAUSTED then Some (Inl Cancelled, snd (scheduler_release True (k1\<lparr>tq := q1\<rparr>)))
         else do {
           (r, q') \<leftarrow> try_reserve_push reserve q1 \<lparr>deadline_ns = d, pid = current k1, token = t, kind = Sleep\<rparr>;
           case r of
             Inl _ \<Rightarrow> Some (Inl Cancelled, snd (scheduler_release True (k1\<lparr>tq := q'\<rparr>)))
           | Inr _ \<Rightarrow>
               (case get_process (procs k1) (current k1) of
                  None \<Rightarrow> Some (Inl Cancelled, snd (scheduler_release True (k1\<lparr>tq := q'\<rparr>)))
                | Some p \<Rightarrow> do {
                    k5 \<leftarrow> rearm_if_earlier now d (k1\<lparr>tq := q', procs := set_process (procs k1) (current k1)
                      (p\<lparr>p_wait_token := Some t, p_wait_deadline_ns := Some d, p_wake_reason := None, p_state := Sleeping\<rparr>)\<rparr>);
                    Some (Inr t, snd (scheduler_release True k5))
                  })
         })"
      using True e hs nt by (simp add: block_publish_def Let_def cong: option.case_cong sum.case_cong)
    show ?thesis
    proof (cases "hs \<or> t = EXHAUSTED")
      case True
      have "kernel_inv (k1\<lparr>tq := q1\<rparr>)" if "t = EXHAUSTED"
      proof -
        have "q1 = tq k1"
          using nt that by (auto simp: next_token_def EXHAUSTED_def Let_def split: if_splits)
        then show ?thesis using inv1 by simp
      qed
      then show ?thesis
        using True inv1 f1(1) bp by (cases hs) (auto intro: refuse [of Signal True k1] refuse [of Cancelled True "k1\<lparr>tq := q1\<rparr>"])
    next
      case False
      let ?e = "\<lparr>deadline_ns = d, pid = current k1, token = t, kind = Sleep\<rparr>"
      obtain r q' where tp: "try_reserve_push reserve q1 ?e = Some (r, q')" "kernel_inv (k1\<lparr>tq := q'\<rparr>)"
        "t < next_token_field q'" "\<And>x. r = Inr x \<Longrightarrow> ?e \<in># tq_entries q'"
        using token_push_result [OF inv1 res nt, of ?e] False by auto
      let ?k3 = "k1\<lparr>tq := q'\<rparr>"
      show ?thesis
      proof (cases "(\<exists>x. r = Inl x) \<or> get_process (procs k1) (current k1) = None")
        case True
        then show ?thesis
          using bp False tp f1(1)
          by (intro refuse [of Cancelled True ?k3]) (auto split: sum.splits)
      next
        case go: False
        then obtain x p where r: "r = Inr x" and p: "get_process (procs k1) (current k1) = Some p"
          by (cases r) auto
        let ?q = "p\<lparr>p_wait_token := Some t, p_wait_deadline_ns := Some d, p_wake_reason := None, p_state := Sleeping\<rparr>"
        let ?k4 = "?k3\<lparr>procs := set_process (procs k1) (current k1) ?q\<rparr>"
        have pid: "p_pid p = current k1" using get_process_Some [OF p] by simp
        have "lapic_ok ?k4" using c(5) by (simp add: lapic_ok_def)
        then obtain l where l: "rearm_if_earlier now d ?k4 = Some (?k4\<lparr>armed := min (armed ?k4) d, lapic := l\<rparr>)"
          by (rule rearm_if_earlier_result)
        let ?k5 = "?k3\<lparr>procs := set_process (procs ?k3) (current k1) ?q, armed := min (armed ?k3) d, lapic := l\<rparr>"
        have inv5: "kernel_inv ?k5"
          by (rule publish_inv [OF tp(2), where e = ?e and p = p])
            (use p pid tp(3) tp(4) [OF r] in \<open>simp_all add: proc_wf_def\<close>)
        have "block_publish reserve now d k = Some (Inr t, snd (scheduler_release True ?k5))"
          using bp False tp(1) r p l by simp
        then show ?thesis
        proof (rule goal)
          show "kernel_inv (snd (scheduler_release True ?k5))" using inv5 by simp
          have "get_process (set_process (procs k1) (current k1) ?q) (current k1) = Some ?q"
            using get_set_process [of ?q "current k1" "procs k1" "current k1"] pid get_process_Some [OF p] by force
          then show "blocked_ok d k (Inr t) (snd (scheduler_release True ?k5))"
            using tp(4) [OF r] pid f1(7) by (simp add: blocked_ok_def sleep_entry_def)
        qed
      qed
    qed
  qed
qed

section \<open>Waiting for I/O\<close>

lemma arm_io_timeout_result:
  assumes inv: "kernel_inv k" and res: "reserve_ok reserve"
    and p: "get_process (procs k) (current k) = Some p" "p_state p \<noteq> Sleeping"
  obtains t k' where "arm_io_timeout_locked reserve now d k = Some (t, k')" "kernel_inv k'"
proof -
  note goal = that
  obtain t q1 where nt: "next_token (tq k) = (t, q1)" by fastforce
  show ?thesis
  proof (cases "t = EXHAUSTED")
    case True
    then have "q1 = tq k"
      using nt by (auto simp: next_token_def EXHAUSTED_def Let_def split: if_splits)
    then show ?thesis
      using True nt inv by (intro goal [of None k]) (simp_all add: arm_io_timeout_locked_def arm_current_locked_def Let_def)
  next
    case False
    let ?e = "\<lparr>deadline_ns = d, pid = current k, token = t, kind = IoTimeout\<rparr>"
    obtain r q' where tp: "try_reserve_push reserve q1 ?e = Some (r, q')" "kernel_inv (k\<lparr>tq := q'\<rparr>)"
      "t < next_token_field q'" "\<And>x. r = Inr x \<Longrightarrow> ?e \<in># tq_entries q'"
      using token_push_result [OF inv res nt False, of ?e] by auto
    let ?k2 = "k\<lparr>tq := q'\<rparr>"
    let ?q = "p\<lparr>p_wait_token := Some t, p_wait_deadline_ns := Some d, p_wake_reason := None\<rparr>"
    let ?k3 = "?k2\<lparr>procs := set_process (procs k) (current k) ?q\<rparr>"
    show ?thesis
    proof (cases r)
      case (Inl x)
      then show ?thesis
        using nt False tp(1,2)
        by (intro goal [of None ?k2]) (simp_all add: arm_io_timeout_locked_def arm_current_locked_def Let_def)
    next
      case (Inr x)
      have "lapic_ok ?k3"
        using core_inv_D(5) [OF kernel_inv_D(1) [OF inv]] by (simp add: lapic_ok_def)
      then obtain l where l: "rearm_if_earlier now d ?k3 = Some (?k3\<lparr>armed := min (armed ?k3) d, lapic := l\<rparr>)"
        by (rule rearm_if_earlier_result)
      have "kernel_inv (?k2\<lparr>procs := set_process (procs ?k2) (current k) ?q, armed := min (armed ?k2) d, lapic := l\<rparr>)"
        by (rule publish_inv [OF tp(2), where e = ?e and p = p])
          (use p get_process_Some [OF p(1)] tp(3) tp(4) [OF Inr] in \<open>simp_all add: proc_wf_def\<close>)
      then show ?thesis
        using nt False tp(1) Inr p l
        by (intro goal [of "Some t" "?k3\<lparr>armed := min (armed ?k3) d, lapic := l\<rparr>"])
          (simp_all add: arm_io_timeout_locked_def arm_current_locked_def Let_def)
    qed
  qed
qed

lemma take_wake_reason_inv:
  assumes "kernel_inv k"
  shows "kernel_inv (k\<lparr>procs := snd (take_wake_reason (procs k) i)\<rparr>)"
proof (cases "get_process (procs k) i")
  case None
  then show ?thesis using assms by (simp add: take_wake_reason_def)
next
  case (Some p)
  have "waits_less p (p\<lparr>p_wake_reason := None\<rparr>)" by (simp add: waits_less_def proc_wf_def)
  from kernel_inv_set_process [OF assms Some this] Some show ?thesis by (simp add: take_wake_reason_def)
qed

lemma await_io_enter_inv:
  assumes inv: "kernel_inv k" and res: "reserve_ok reserve"
    and awake: "\<And>p. get_process (procs k) (current k) = Some p \<Longrightarrow> p_state p \<noteq> Sleeping"
  obtains r k' where "await_io_enter reserve now timeout outstanding k = Some (r, k')" "kernel_inv k'"
proof -
  note goal = that
  define k0 where "k0 = (case outstanding of None \<Rightarrow> k | Some t \<Rightarrow> cancel_owned t k)"
  have inv0: "kernel_inv k0"
    using inv cancel_owned_inv [OF inv awake] by (simp add: k0_def split: option.splits)
  obtain ok k1 where e: "scheduler_try_enter k0 = (ok, k1)" by fastforce
  have inv1: "kernel_inv k1" using inv0 try_enter_inv [OF e] by simp
  note start = await_io_enter_def k0_def [symmetric] Let_def e
  show ?thesis
  proof (cases "ok \<and> get_process (procs k1) (current k1) \<noteq> None")
    case False
    then show ?thesis
      using inv1 by (cases ok)
        (auto simp: start intro: goal [of "Inl Cancelled" k1] goal [of "Inl Cancelled" "snd (scheduler_release True k1)"])
  next
    case True
    then obtain p where p: "get_process (procs k1) (current k1) = Some p" by auto
    have resume: thesis
      if "await_io_enter reserve now timeout outstanding k =
            (let (r, ps) = take_wake_reason (set_process (procs k1) (current k1) q) (current k1)
             in Some (Inl r, snd (scheduler_release True (k1\<lparr>procs := ps\<rparr>))))"
        and w: "waits_less p q" for q
    proof -
      from take_wake_reason_inv [OF kernel_inv_set_process [OF inv1 p w], of "current k1"]
      have "kernel_inv (k1\<lparr>procs := snd (take_wake_reason (set_process (procs k1) (current k1) q) (current k1))\<rparr>)"
        by simp
      then show ?thesis using that(1) goal by (simp add: case_prod_unfold Let_def)
    qed
    consider "p_pending_io p" | "\<not> p_pending_io p" "p_state p = Runnable"
      | "\<not> p_pending_io p" "p_state p \<noteq> Runnable" by blast
    then show ?thesis
    proof cases
      case 1
      then show ?thesis
        using True p by (intro resume [of "p\<lparr>p_pending_io := False,
          p_state := (if p_state p = Runnable \<or> p_state p = AwaitingIo then Running else p_state p)\<rparr>"])
          (simp_all add: start waits_less_def proc_wf_def)
    next
      case 2
      then show ?thesis
        using True p by (intro resume [of "p\<lparr>p_state := Running\<rparr>"])
          (simp_all add: start waits_less_def proc_wf_def)
    next
      case 3
      let ?q = "p\<lparr>p_state := AwaitingIo\<rparr>"
      let ?k2 = "k1\<lparr>procs := set_process (procs k1) (current k1) ?q\<rparr>"
      have inv2: "kernel_inv ?k2"
        by (rule kernel_inv_set_process [OF inv1 p]) (simp add: waits_less_def proc_wf_def)
      show ?thesis
      proof (cases timeout)
        case None
        then show ?thesis
          using 3 True p inv2 by (intro goal [of "Inr None" "snd (scheduler_release True ?k2)"]) (simp_all add: start)
      next
        case (Some d)
        have "get_process (procs ?k2) (current ?k2) = Some ?q"
          using get_set_process [of ?q "current k1" "procs k1" "current k1"] get_process_Some [OF p] by force
        then obtain t k3 where k3: "arm_io_timeout_locked reserve now d ?k2 = Some (t, k3)" "kernel_inv k3"
          using arm_io_timeout_result [OF inv2 res, of ?q now d] by auto
        then show ?thesis
          using 3 True p Some by (intro goal [of "Inr t" "snd (scheduler_release True k3)"]) (simp_all add: start)
      qed
    qed
  qed
qed

section \<open>The timer interrupt\<close>

lemma irq_fields [simp]:
  "procs (irq_enter k) = procs k" "tq (irq_enter k) = tq k" "lapic_ce (irq_enter k) = lapic_ce k"
  "armed (irq_enter k) = armed k" "quantum_deadline (irq_enter k) = quantum_deadline k"
  "hlt_deadline (irq_enter k) = hlt_deadline k" "current (irq_enter k) = current k"
  "procs (irq_exit k) = procs k" "tq (irq_exit k) = tq k" "lapic_ce (irq_exit k) = lapic_ce k"
  "armed (irq_exit k) = armed k" "quantum_deadline (irq_exit k) = quantum_deadline k"
  "hlt_deadline (irq_exit k) = hlt_deadline k" "current (irq_exit k) = current k"
  "deferred_expiry (irq_exit k) = deferred_expiry k"
  by (simp_all add: irq_enter_def irq_exit_def)

lemma irq_inv [simp]: "kernel_inv (irq_enter k) = kernel_inv k" "kernel_inv (irq_exit k) = kernel_inv k"
  by (rule kernel_inv_cong; simp)+

lemma timer_preempt_common_inv:
  assumes "kernel_inv k"
  obtains k' where "timer_preempt_common t2 t3 t4 u k = Some k'" "kernel_inv k'"
proof -
  obtain k1 where k1: "process_deferred_expiry t2 t3 k = Some k1" "kernel_inv k1"
    by (rule process_deferred_result [OF assms])
  obtain b k2 where k2: "schedule_now t4 k1 = Some (b, k2)" "kernel_inv k2"
    by (rule schedule_now_inv [OF k1(2)])
  from k1 k2 that show ?thesis
    by (cases "u \<or> ENABLE_KERNEL_PREEMPTION \<and> can_preempt_kernel k1") (auto simp: timer_preempt_common_def)
qed

lemma apic_timer_preempt_inv:
  assumes "kernel_inv k"
  obtains k' where "apic_timer_preempt t1 t2 t3 t4 u k = Some k'" "kernel_inv k'"
proof -
  have "core_inv (irq_enter k)" using assms kernel_inv_D(1) by force
  then obtain k1 where k1: "handle_timer_event t1 (irq_enter k) = Some k1" "kernel_inv k1"
    by (rule handle_timer_event_result)
  have "kernel_inv (irq_exit k1)" using k1(2) by simp
  then obtain k' where "timer_preempt_common t2 t3 t4 u (irq_exit k1) = Some k'" "kernel_inv k'"
    by (rule timer_preempt_common_inv)
  with k1(1) that show ?thesis by (simp add: apic_timer_preempt_def)
qed

end
