(* ===== verification/Lifecycle.thy ===== *)
theory Lifecycle
  imports Wait_Safety
begin

text \<open>
  The life of a process: creation (\<^verbatim>\<open>fork\<close>, \<^verbatim>\<open>clone_thread\<close>), signals sent with \<^verbatim>\<open>kill\<close>, exit, reaping with
  \<^verbatim>\<open>wait4\<close>, process groups and sessions (\<^verbatim>\<open>sys/proc/mod.rs\<close>, \<^verbatim>\<open>sys/syscall/service.rs\<close>).  An exit path ends in a
  switch or in the idle loop; the model stops there, with a flag that says which.  Address spaces,
  register frames and the release of memory are left out.
\<close>

section \<open>Model\<close>

definition EPERM :: int where "EPERM = 1"
definition ESRCH :: int where "ESRCH = 3"
definition ECHILD :: int where "ECHILD = 10"

definition SIGHUP :: nat where "SIGHUP = 1"
definition SIGINT :: nat where "SIGINT = 2"
definition SIGQUIT :: nat where "SIGQUIT = 3"
definition SIGPIPE :: nat where "SIGPIPE = 13"
definition SIGALRM :: nat where "SIGALRM = 14"
definition SIGTERM :: nat where "SIGTERM = 15"
definition SIGCONT :: nat where "SIGCONT = 18"
definition SIGTSTP :: nat where "SIGTSTP = 20"
definition SIGTTIN :: nat where "SIGTTIN = 21"
definition SIGTTOU :: nat where "SIGTTOU = 22"

subsection \<open>Creation\<close>

text \<open>\<^verbatim>\<open>NEXT_PID.fetch_add(1)\<close> wraps; nothing checks that the number is unused.\<close>

definition alloc_pid :: "kernel \<Rightarrow> u16 \<times> kernel" where
  "alloc_pid k = (next_pid k, k\<lparr>next_pid := next_pid k + 1\<rparr>)"

definition fork_child :: "u16 \<Rightarrow> process \<Rightarrow> process" where
  "fork_child child p =
    \<lparr>p_pid = child, p_tgid = child, p_is_thread = False, p_parent_pid = p_pid p, p_pgid = p_pgid p,
     p_sid = p_sid p, p_state = Runnable, p_fd_table = p_fd_table p, p_exit_code = 0,
     p_wait_status = 0, p_wait_reported = False, p_pending_io = False,
     p_signal_actions = p_signal_actions p, p_signal_mask = p_signal_mask p, p_pending_signals = 0,
     p_sigsuspend_saved_mask = (0, 0), p_in_sigsuspend = False, p_wait_token = None,
     p_wait_deadline_ns = None, p_wake_reason = None\<rparr>"

definition thread_child :: "u16 \<Rightarrow> process \<Rightarrow> process" where
  "thread_child child p =
    \<lparr>p_pid = child, p_tgid = p_tgid p, p_is_thread = True, p_parent_pid = p_parent_pid p, p_pgid = p_pgid p,
     p_sid = p_sid p, p_state = Runnable, p_fd_table = p_fd_table p, p_exit_code = 0,
     p_wait_status = 0, p_wait_reported = False, p_pending_io = False,
     p_signal_actions = p_signal_actions p, p_signal_mask = p_signal_mask p, p_pending_signals = 0,
     p_sigsuspend_saved_mask = (0, 0), p_in_sigsuspend = False, p_wait_token = None,
     p_wait_deadline_ns = None, p_wake_reason = None\<rparr>"

text \<open>
  \<^verbatim>\<open>mem_ok\<close> stands for the outcome of copying the address space or of allocating the kernel stack; the
  number is used up either way.
\<close>

definition ENOSYS :: int where "ENOSYS = 38"
definition EAGAIN :: int where "EAGAIN = 11"

definition sys_fork :: "bool \<Rightarrow> kernel \<Rightarrow> int \<times> kernel" where
  "sys_fork mem_ok k =
    (case get_process (procs k) (current k) of
       None \<Rightarrow> (- ENOSYS, k)
     | Some p \<Rightarrow>
         let (child, k1) = alloc_pid k in
         if mem_ok then (uint child, k1\<lparr>procs := procs k1 @ [fork_child child p]\<rparr>)
         else (- ENOSYS, k1))"

definition CLONE_REQUIRED :: u64 where
  "CLONE_REQUIRED = 0x100 OR 0x200 OR 0x400 OR 0x800 OR 0x10000 OR 0x40000"

definition CLONE_SETTLS :: u64 where "CLONE_SETTLS = 0x80000"

definition sys_clone :: "bool \<Rightarrow> u64 \<Rightarrow> u64 \<Rightarrow> kernel \<Rightarrow> int \<times> kernel" where
  "sys_clone mem_ok flags child_stack k =
    (if child_stack = 0 \<or> flags AND CLONE_REQUIRED \<noteq> CLONE_REQUIRED \<or>
        flags AND NOT (CLONE_REQUIRED OR CLONE_SETTLS) \<noteq> 0 then (- EINVAL, k)
     else
       case get_process (procs k) (current k) of
         None \<Rightarrow> (- ESRCH, k)
       | Some p \<Rightarrow>
           let (child, k1) = alloc_pid k in
           if mem_ok then (uint child, k1\<lparr>procs := procs k1 @ [thread_child child p]\<rparr>)
           else (- EAGAIN, k1))"

subsection \<open>Exit\<close>

definition mark_dead :: "int \<Rightarrow> process \<Rightarrow> process" where
  "mark_dead code p =
    (invalidate_wait_token (p\<lparr>p_fd_table := close_all_fds (p_fd_table p)\<rparr>))\<lparr>p_state := Dead, p_exit_code := code\<rparr>"

text \<open>SIGCHLD to the parent, which is also taken out of a wait.\<close>

definition signal_parent :: "process list \<Rightarrow> u16 \<Rightarrow> process list rs" where
  "signal_parent ps parent_pid =
    (case find_process_index ps parent_pid of
       None \<Rightarrow> Some ps
     | Some i \<Rightarrow> do {
         p \<leftarrow> idx ps i;
         p1 \<leftarrow> queue_signal_proc p SIGCHLD;
         Some (ps[i := (if p_state p1 \<in> {Waiting, SignalWait, AwaitingIo}
           then p1\<lparr>p_state := Runnable, p_pending_io := False\<rparr> else p1)])
       })"

text \<open>The notification of \<^verbatim>\<open>exit_group\<close>, which only queues the signal.\<close>

definition queue_sigchld :: "process list \<Rightarrow> u16 \<Rightarrow> process list rs" where
  "queue_sigchld ps parent_pid =
    (case find_process_index ps parent_pid of
       None \<Rightarrow> Some ps
     | Some i \<Rightarrow> do {
         q \<leftarrow> idx ps i;
         q1 \<leftarrow> queue_signal_proc q SIGCHLD;
         Some (ps[i := q1])
       })"

text \<open>The task to run after an exit: the parent if it can run, else the next in turn.\<close>

definition exit_target :: "process list \<Rightarrow> u16 \<Rightarrow> nat \<Rightarrow> nat option rs" where
  "exit_target ps parent_pid cur_idx =
    (case find_process_index ps parent_pid of
       Some i \<Rightarrow> if p_state (ps ! i) = Runnable then Some (Some i) else find_next_runnable_index ps cur_idx
     | None \<Rightarrow> find_next_runnable_index ps cur_idx)"

definition idle_until_runnable_enter :: "u64 \<Rightarrow> kernel \<Rightarrow> kernel rs" where
  "idle_until_runnable_enter now k = do {
     k1 \<leftarrow> rearm now (clear_quantum k);
     Some (snd (irq_save k1))
   }"

definition leave_cpu :: "u64 \<Rightarrow> nat \<Rightarrow> nat option \<Rightarrow> kernel \<Rightarrow> (bool \<times> kernel) rs" where
  "leave_cpu now cur_idx nxt k =
    (case nxt of
       Some n \<Rightarrow> switch_by_index now cur_idx n k
     | None \<Rightarrow> do {
         k' \<leftarrow> idle_until_runnable_enter now (snd (scheduler_release True k));
         Some (False, k')
       })"

definition exit_proc :: "u64 \<Rightarrow> int \<Rightarrow> kernel \<Rightarrow> (bool \<times> kernel) rs" where
  "exit_proc now code k =
    (case scheduler_try_enter k of
       (False, k1) \<Rightarrow> Some (False, k1)
     | (True, k1) \<Rightarrow>
         (case find_process_index (procs k1) (current k1) of
            None \<Rightarrow> Some (False, k1)
          | Some c \<Rightarrow> do {
              p \<leftarrow> idx (procs k1) c;
              if p_is_thread p then do {
                let ps = (procs k1)[c := mark_dead code p];
                nxt \<leftarrow> find_next_runnable_index ps c;
                leave_cpu now c nxt (k1\<lparr>procs := ps\<rparr>)
              } else do {
                ps1 \<leftarrow> reparent_children (procs k1) (current k1);
                p1 \<leftarrow> idx ps1 c;
                let ps2 = ps1[c := (mark_dead code p1)\<lparr>p_wait_status := push_bit 8 (code AND 0xff),
                  p_wait_reported := False\<rparr>];
                ps3 \<leftarrow> signal_parent ps2 (p_parent_pid p);
                nxt \<leftarrow> exit_target ps3 (p_parent_pid p) c;
                leave_cpu now c nxt (k1\<lparr>procs := ps3\<rparr>)
              }
            }))"

definition terminate_current_by_signal :: "u64 \<Rightarrow> int \<Rightarrow> kernel \<Rightarrow> (bool \<times> kernel) rs" where
  "terminate_current_by_signal now sig k =
    (case scheduler_try_enter k of
       (False, k1) \<Rightarrow> Some (False, k1)
     | (True, k1) \<Rightarrow>
         (case find_process_index (procs k1) (current k1) of
            None \<Rightarrow> Some (False, k1)
          | Some c \<Rightarrow> do {
              p \<leftarrow> idx (procs k1) c;
              ps1 \<leftarrow> reparent_children (procs k1) (current k1);
              p1 \<leftarrow> idx ps1 c;
              let ps2 = ps1[c := (mark_dead (128 + sig) p1)\<lparr>p_wait_status := sig AND 0x7f,
                p_wait_reported := False\<rparr>];
              ps3 \<leftarrow> signal_parent ps2 (p_parent_pid p);
              nxt \<leftarrow> exit_target ps3 (p_parent_pid p) c;
              leave_cpu now c nxt (k1\<lparr>procs := ps3\<rparr>)
            }))"

definition exit_group :: "u64 \<Rightarrow> int \<Rightarrow> kernel \<Rightarrow> (bool \<times> kernel) rs" where
  "exit_group now code k =
    (case scheduler_try_enter k of
       (False, k1) \<Rightarrow> Some (False, k1)
     | (True, k1) \<Rightarrow>
         (case find_process_index (procs k1) (current k1) of
            None \<Rightarrow> Some (False, k1)
          | Some c \<Rightarrow> do {
              p \<leftarrow> idx (procs k1) c;
              let tgid = p_tgid p;
              (case find_process_index (procs k1) tgid of
                 None \<Rightarrow> Some (False, k1)
               | Some l \<Rightarrow> do {
                   leader \<leftarrow> idx (procs k1) l;
                   let parent_pid = p_parent_pid leader;
                   ps1 \<leftarrow> reparent_children (procs k1) tgid;
                   let ps2 = map (\<lambda>q. if p_tgid q = tgid then mark_dead code q else q) ps1;
                   l2 \<leftarrow> idx ps2 l;
                   let ps3 = ps2[l := l2\<lparr>p_wait_status := push_bit 8 (code AND 0xff), p_wait_reported := False\<rparr>];
                   ps4 \<leftarrow> queue_sigchld ps3 parent_pid;
                   nxt \<leftarrow> exit_target ps4 parent_pid c;
                   leave_cpu now c nxt (k1\<lparr>procs := ps4\<rparr>)
                 })
            }))"

subsection \<open>Signals sent by processes\<close>

definition valid_signal :: "int \<Rightarrow> bool" where
  "valid_signal sig \<longleftrightarrow> 0 \<le> sig \<and> sig \<le> 64"

definition is_fatal_default :: "nat \<Rightarrow> bool" where
  "is_fatal_default sig \<longleftrightarrow> sig \<in> {SIGHUP, SIGINT, SIGQUIT, SIGKILL, SIGPIPE, SIGALRM, SIGTERM}"

definition is_stop_default :: "nat \<Rightarrow> bool" where
  "is_stop_default sig \<longleftrightarrow> sig \<in> {SIGSTOP, SIGTSTP, SIGTTIN, SIGTTOU}"

definition notify_parent_for_child_event :: "process list \<Rightarrow> u16 \<Rightarrow> process list rs" where
  "notify_parent_for_child_event ps parent_pid =
    (case get_process ps parent_pid of
       None \<Rightarrow> Some ps
     | Some p \<Rightarrow> do {
         p' \<leftarrow> queue_signal_proc p SIGCHLD;
         Some (set_process ps parent_pid p')
       })"

definition apply_signal_to_process :: "process \<Rightarrow> nat \<Rightarrow> (u16 option \<times> process) rs" where
  "apply_signal_to_process p sig =
    (if sig = 0 then Some (None, p)
     else if sig = SIGCONT then do {
       let p1 = (if p_state p = Stopped
         then p\<lparr>p_state := Runnable, p_wait_status := 0xffff, p_wait_reported := False\<rparr> else p);
       p2 \<leftarrow> queue_signal_proc p1 sig;
       Some (Some (p_parent_pid p2), p2)
     } else do {
       action \<leftarrow> idx (p_signal_actions p) sig;
       if handler action = SIG_IGN \<and> sig \<noteq> SIGKILL \<and> sig \<noteq> SIGSTOP then Some (None, p)
       else if handler action > SIG_IGN then do {
         p1 \<leftarrow> queue_signal_proc p sig;
         Some (None, p1)
       } else if is_stop_default sig then
         Some (Some (p_parent_pid p), p\<lparr>p_state := Stopped, p_wait_status := push_bit 8 (int sig) OR 0x7f,
           p_wait_reported := False\<rparr>)
       else if is_fatal_default sig then
         Some (Some (p_parent_pid p), p\<lparr>p_fd_table := close_all_fds (p_fd_table p), p_state := Dead,
           p_wait_status := int sig AND 0x7f, p_wait_reported := False\<rparr>)
       else do {
         p1 \<leftarrow> queue_signal_proc p sig;
         Some (None, p1)
       }
     })"

definition kill_selects :: "int \<Rightarrow> u16 \<Rightarrow> process \<Rightarrow> bool" where
  "kill_selects which current_pgid p =
    (if 0 < which \<and> which \<le> 65535 then p_pid p = of_int which
     else if 0 < which then False
     else if which = 0 then p_pgid p = current_pgid
     else if which = -1 then 1 < p_pid p
     else p_pgid p = of_int (- which))"

text \<open>The delivery loop: the parents to notify and the targets that died, in order.\<close>

fun kill_loop :: "nat \<Rightarrow> u16 list \<Rightarrow> process list \<Rightarrow> (u16 list \<times> u16 list \<times> process list) rs" where
  "kill_loop sig [] ps = Some ([], [], ps)"
| "kill_loop sig (target # targets) ps =
    (case get_process ps target of
       None \<Rightarrow> kill_loop sig targets ps
     | Some p \<Rightarrow> do {
         (notify, p') \<leftarrow> apply_signal_to_process p sig;
         (parents, dead, ps') \<leftarrow> kill_loop sig targets (set_process ps target p');
         Some (case notify of
             None \<Rightarrow> (parents, dead, ps')
           | Some pp \<Rightarrow> (pp # parents, if p_state p' = Dead then target # dead else dead, ps'))
       })"

fun each_process :: "(process list \<Rightarrow> u16 \<Rightarrow> process list rs) \<Rightarrow> u16 list \<Rightarrow> process list \<Rightarrow> process list rs" where
  "each_process f [] ps = Some ps"
| "each_process f (i # is) ps = do {ps' \<leftarrow> f ps i; each_process f is ps'}"

definition kill_table :: "u16 list \<Rightarrow> nat \<Rightarrow> process list \<Rightarrow> process list rs" where
  "kill_table targets sig ps = do {
     (parents, dead, ps1) \<leftarrow> kill_loop sig targets ps;
     ps2 \<leftarrow> each_process reparent_children dead ps1;
     each_process notify_parent_for_child_event parents ps2
   }"

definition sys_kill :: "u64 \<Rightarrow> int \<Rightarrow> int \<Rightarrow> kernel \<Rightarrow> (int \<times> kernel) rs" where
  "sys_kill now which sig k =
    (if \<not> valid_signal sig then Some (- EINVAL, k)
     else
       let current_pgid = (case get_process (procs k) (current k) of None \<Rightarrow> current k | Some p \<Rightarrow> p_pgid p) in
       if which < -1 \<and> (which = - (2 ^ 31) \<or> \<not> - which \<le> 65535) then Some (- EINVAL, k)
       else
         let targets = map p_pid (filter (kill_selects which current_pgid) (procs k)) in
         if targets = [] then Some (- ESRCH, k)
         else if sig = 0 then Some (0, k)
         else do {
           ps \<leftarrow> kill_table targets (nat sig) (procs k);
           let k1 = k\<lparr>procs := ps\<rparr>;
           if \<exists>p \<in> set ps. p_pid p = current k \<and> (p_state p = Dead \<or> p_state p = Stopped)
           then do {(_, k2) \<leftarrow> schedule_now now k1; Some (0, k2)}
           else Some (0, k1)
         })"

subsection \<open>Waiting for children\<close>

definition wait_selects :: "int \<Rightarrow> u16 \<Rightarrow> process \<Rightarrow> bool" where
  "wait_selects which current_pgid p =
    (if which = -1 then True
     else if which = 0 then p_pgid p = current_pgid
     else if 0 < which then uint (p_pid p) = which
     else which \<noteq> - (2 ^ 31) \<and> uint (p_pgid p) = - which)"

definition WNOHANG :: int where "WNOHANG = 1"
definition WUNTRACED :: int where "WUNTRACED = 2"
definition WCONTINUED :: int where "WCONTINUED = 8"

datatype wait_hit = Reap nat int | Report nat int

definition is_child :: "int \<Rightarrow> u16 \<Rightarrow> u16 \<Rightarrow> process \<Rightarrow> bool" where
  "is_child which current_pid current_pgid p \<longleftrightarrow>
    \<not> p_is_thread p \<and> p_parent_pid p = current_pid \<and> wait_selects which current_pgid p"

text \<open>The scan of the table from position \<^verbatim>\<open>i\<close>: is there a child, and the first with something to report.\<close>

fun wait_scan :: "int \<Rightarrow> u16 \<Rightarrow> u16 \<Rightarrow> int \<Rightarrow> nat \<Rightarrow> process list \<Rightarrow> bool \<times> wait_hit option" where
  "wait_scan which cur pgid options i [] = (False, None)"
| "wait_scan which cur pgid options i (p # ps) =
    (if is_child which cur pgid p then
       if p_state p = Dead then (True, Some (Reap i (p_wait_status p)))
       else if options AND WUNTRACED \<noteq> 0 \<and> p_state p = Stopped \<and> \<not> p_wait_reported p
       then (True, Some (Report i (p_wait_status p)))
       else (True, snd (wait_scan which cur pgid options (i + 1) ps))
     else wait_scan which cur pgid options (i + 1) ps)"

definition reap_at :: "nat \<Rightarrow> process list \<Rightarrow> process list" where
  "reap_at i ps =
    filter (\<lambda>q. \<not> (p_is_thread q \<and> p_tgid q = p_tgid (ps ! i))) (take i ps @ drop (i + 1) ps)"

datatype wait_result = WaitError int | Waited u16 int | Nothing_Yet | Blocked bool

text \<open>
  One pass of the loop of \<^verbatim>\<open>wait4\<close>: an error, the child and the status stored for the caller, 0 for
  \<^verbatim>\<open>WNOHANG\<close>, or the caller is made to wait and yields (the flag says whether a switch took place).
\<close>

definition wait4 :: "u64 \<Rightarrow> int \<Rightarrow> int \<Rightarrow> kernel \<Rightarrow> (wait_result \<times> kernel) rs" where
  "wait4 now which options k =
    (if options AND NOT (WNOHANG OR WUNTRACED OR WCONTINUED) \<noteq> 0 then Some (WaitError (- EINVAL), k)
     else
       let cur = current k;
           pgid = (case get_process (procs k) cur of None \<Rightarrow> cur | Some p \<Rightarrow> p_pgid p);
           (has_children, hit) = wait_scan which cur pgid options 0 (procs k) in
       case hit of
         Some (Reap i status) \<Rightarrow>
           Some (Waited (p_pid (procs k ! i)) status, k\<lparr>procs := reap_at i (procs k)\<rparr>)
       | Some (Report i status) \<Rightarrow>
           Some (Waited (p_pid (procs k ! i)) status,
             k\<lparr>procs := (procs k)[i := (procs k ! i)\<lparr>p_wait_reported := True\<rparr>]\<rparr>)
       | None \<Rightarrow>
           if \<not> has_children then Some (WaitError (- ECHILD), k)
           else if options AND WNOHANG \<noteq> 0 then Some (Nothing_Yet, k)
           else do {
             let k1 = (case get_process (procs k) cur of
                 None \<Rightarrow> k
               | Some me \<Rightarrow> k\<lparr>procs := set_process (procs k) cur (me\<lparr>p_state := Waiting\<rparr>)\<rparr>);
             (switched, k2) \<leftarrow> schedule_now now k1;
             Some (Blocked switched, k2)
           })"

subsection \<open>Process groups and sessions\<close>

definition getppid :: "process list \<Rightarrow> u16 \<Rightarrow> int" where
  "getppid ps cur = (case get_process ps cur of None \<Rightarrow> - ESRCH | Some p \<Rightarrow> uint (p_parent_pid p))"

definition target_pid :: "u16 \<Rightarrow> int \<Rightarrow> u16" where
  "target_pid cur which = (if which = 0 then cur else of_int which)"

definition getpgid :: "process list \<Rightarrow> u16 \<Rightarrow> int \<Rightarrow> int" where
  "getpgid ps cur which =
    (if which < 0 \<or> 65535 < which then - ESRCH
     else case get_process ps (target_pid cur which) of None \<Rightarrow> - ESRCH | Some p \<Rightarrow> uint (p_pgid p))"

definition getsid :: "process list \<Rightarrow> u16 \<Rightarrow> int \<Rightarrow> int" where
  "getsid ps cur which =
    (if which < 0 \<or> 65535 < which then - ESRCH
     else case get_process ps (target_pid cur which) of None \<Rightarrow> - ESRCH | Some p \<Rightarrow> uint (p_sid p))"

definition setpgid :: "process list \<Rightarrow> u16 \<Rightarrow> int \<Rightarrow> int \<Rightarrow> int \<times> process list" where
  "setpgid ps cur which pgid =
    (if which < 0 \<or> pgid < 0 \<or> 65535 < which \<or> 65535 < pgid then (- EINVAL, ps)
     else
       let target = target_pid cur which; new_pgid = (if pgid = 0 then target else of_int pgid) in
       case get_process ps cur of
         None \<Rightarrow> (- ESRCH, ps)
       | Some c \<Rightarrow>
           (case get_process ps target of
              None \<Rightarrow> (- ESRCH, ps)
            | Some t \<Rightarrow>
                if target \<noteq> cur \<and> p_parent_pid t \<noteq> cur then (- ESRCH, ps)
                else if p_sid t \<noteq> p_sid c \<or> p_pid t = p_sid t then (- EPERM, ps)
                else if new_pgid \<noteq> target \<and> \<not> (\<exists>p \<in> set ps. p_pgid p = new_pgid \<and> p_sid p = p_sid c)
                then (- EPERM, ps)
                else (0, set_process ps target (t\<lparr>p_pgid := new_pgid\<rparr>))))"

definition setsid :: "process list \<Rightarrow> u16 \<Rightarrow> int \<times> process list" where
  "setsid ps cur =
    (if \<exists>p \<in> set ps. p_pgid p = cur then (- EPERM, ps)
     else case get_process ps cur of
       None \<Rightarrow> (- ESRCH, ps)
     | Some p \<Rightarrow> (uint cur, set_process ps cur (p\<lparr>p_sid := cur, p_pgid := cur\<rparr>)))"

section \<open>The table after each operation\<close>

text \<open>
  Every operation here leaves each remaining process waiting for no more than before, so the
  invariant of the wait machinery carries over.  The signal operations never panic on a table of
  well-formed processes.
\<close>

abbreviation procs_wf :: "process list \<Rightarrow> bool" where
  "procs_wf ps \<equiv> \<forall>p \<in> set ps. proc_wf p"

lemma waits_less_fields [simp]:
  "waits_less p (q\<lparr>p_wait_status := w\<rparr>) = waits_less p q"
  "waits_less p (q\<lparr>p_wait_reported := b\<rparr>) = waits_less p q"
  "waits_less p (q\<lparr>p_parent_pid := i\<rparr>) = waits_less p q"
  "waits_less p (q\<lparr>p_pgid := i\<rparr>) = waits_less p q"
  "waits_less p (q\<lparr>p_sid := i\<rparr>) = waits_less p q"
  "waits_less p (q\<lparr>p_pending_io := b\<rparr>) = waits_less p q"
  "waits_less p (q\<lparr>p_fd_table := t\<rparr>) = waits_less p q"
  "waits_less p (q\<lparr>p_exit_code := c\<rparr>) = waits_less p q"
  by (simp_all add: waits_less_def proc_wf_def)

lemma waits_less_state:
  "waits_less p q \<Longrightarrow> st \<noteq> Sleeping \<Longrightarrow> waits_less p (q\<lparr>p_state := st\<rparr>)"
  by (simp add: waits_less_def proc_wf_def)

lemma waits_less_mark_dead [simp]: "waits_less p (mark_dead code p)"
  by (simp add: waits_less_def mark_dead_def invalidate_wait_token_def proc_wf_def)

lemma mark_dead_simps [simp]:
  "p_state (mark_dead code p) = Dead" "p_pid (mark_dead code p) = p_pid p"
  "p_tgid (mark_dead code p) = p_tgid p" "p_is_thread (mark_dead code p) = p_is_thread p"
  "p_parent_pid (mark_dead code p) = p_parent_pid p" "p_fd_table (mark_dead code p) = []"
  "p_wait_token (mark_dead code p) = None" "p_exit_code (mark_dead code p) = code"
  by (simp_all add: mark_dead_def invalidate_wait_token_def close_all_fds_def)

text \<open>What a queued signal may change: the pending set, and a wait that it ends.\<close>

definition signalled :: "process \<Rightarrow> process \<Rightarrow> bool" where
  "signalled p q \<longleftrightarrow> waits_less p q \<and> p_tgid q = p_tgid p \<and> p_is_thread q = p_is_thread p \<and>
    p_parent_pid q = p_parent_pid p \<and> p_pgid q = p_pgid p \<and> p_sid q = p_sid p \<and>
    p_fd_table q = p_fd_table p \<and> p_wait_status q = p_wait_status p \<and> p_exit_code q = p_exit_code p \<and>
    p_wait_reported q = p_wait_reported p \<and> p_signal_actions q = p_signal_actions p \<and>
    (p_state q = p_state p \<or>
      p_state p \<in> {Waiting, SignalWait, AwaitingIo, Sleeping} \<and> p_state q = Runnable)"

lemma signalled_refl [simp]: "signalled p p"
  by (simp add: signalled_def)

lemma queue_signal_proc_signalled:
  assumes "proc_wf p"
  obtains q where "queue_signal_proc p sig = Some q" "signalled p q"
proof -
  obtain q where q: "queue_signal_proc p sig = Some q" by (rule queue_signal_proc_total [OF assms])
  have "signalled p q"
    using q queue_signal_proc_waits_less [OF assms q]
    by (auto simp: signalled_def queue_signal_proc_def Let_def split: if_splits bind_splits)
  with q that show ?thesis by blast
qed

lemma find_process_index_Some:
  assumes "find_process_index ps i = Some n"
  shows "n < length ps" "p_pid (ps ! n) = i" "get_process ps i = Some (ps ! n)"
proof -
  show n: "n < length ps" using find_process_index_less [OF assms] .
  have len: "length (takeWhile (\<lambda>p. p_pid p \<noteq> i) ps) = n"
    using assms by (auto simp: find_process_index_def split: if_splits)
  show pid: "p_pid (ps ! n) = i"
    using nth_length_takeWhile [of "\<lambda>p. p_pid p \<noteq> i" ps] len n by simp
  have "p_pid (ps ! m) \<noteq> i" if "m < n" for m
    using that len takeWhile_nth [of m "\<lambda>p. p_pid p \<noteq> i" ps] nth_mem [of m "takeWhile (\<lambda>p. p_pid p \<noteq> i) ps"]
      set_takeWhileD [of "ps ! m" "\<lambda>p. p_pid p \<noteq> i" ps] by auto
  then show "get_process ps i = Some (ps ! n)"
    using n pid unfolding get_process_def find_Some_iff by blast
qed

lemma find_process_index_None: "find_process_index ps i = None \<longleftrightarrow> i \<notin> p_pid ` set ps"
  by (auto simp: find_process_index_def)

lemma list_all2_set_process:
  assumes "get_process ps i = Some p" "R p q" "\<And>p. R p p"
  shows "list_all2 R ps (set_process ps i q)"
proof -
  have refl: "list_all2 R xs xs" for xs using assms(3) by (simp add: list_all2_refl)
  show ?thesis using assms(1,2) by (induction ps) (auto simp: get_process_def refl assms(3) split: if_splits)
qed

lemma list_all2_update_refl:
  assumes "i < length xs" "R (xs ! i) y" "\<And>x. R x x"
  shows "list_all2 R xs (xs[i := y])"
  using assms by (simp add: list_all2_conv_all_nth nth_list_update)

lemma signalled_waits_less: "signalled p q \<Longrightarrow> waits_less p q"
  by (simp add: signalled_def)

text \<open>The parent of every process after the children of \<^verbatim>\<open>e\<close> went to init.\<close>

definition adopted :: "process list \<Rightarrow> u16 \<Rightarrow> process \<Rightarrow> process" where
  "adopted ps e p = (if e \<noteq> 1 \<and> 1 \<in> p_pid ` set ps \<and> is_orphan e p then p\<lparr>p_parent_pid := 1\<rparr> else p)"

lemma adopted_simps [simp]:
  "p_pid (adopted ps e p) = p_pid p" "proc_wf (adopted ps e p) = proc_wf p"
  "p_state (adopted ps e p) = p_state p" "p_is_thread (adopted ps e p) = p_is_thread p"
  "p_tgid (adopted ps e p) = p_tgid p" "waits_less q (adopted ps e p) = waits_less q p"
  by (simp_all add: adopted_def proc_wf_def)

lemma reparent_children_result:
  assumes "procs_wf ps"
  obtains ps' where "reparent_children ps e = Some ps'"
    "list_all2 (\<lambda>p q. signalled (adopted ps e p) q) ps ps'"
proof -
  note goal = that
  let ?m = "map (adopted ps e) ps"
  have same: "list_all2 (\<lambda>p q. signalled (adopted ps e p) q) ps ?m"
    by (simp add: list_all2_conv_all_nth)
  show ?thesis
  proof (cases "e = 1 \<or> 1 \<notin> p_pid ` set ps")
    case True
    then have "reparent_children ps e = Some ps" "?m = ps"
      by (auto simp: reparent_children_def adopted_def image_iff intro: map_idI)
    with same goal show ?thesis by metis
  next
    case False
    then have m: "map (\<lambda>p. if is_orphan e p then p\<lparr>p_parent_pid := 1\<rparr> else p) ps = ?m"
      by (simp add: adopted_def)
    have start: "reparent_children ps e =
        (if \<exists>p \<in> set ps. is_orphan e p \<and> p_state p = Dead then
           (case get_process ?m 1 of None \<Rightarrow> Some ?m
            | Some init \<Rightarrow> do {init' \<leftarrow> queue_signal_proc init SIGCHLD; Some (set_process ?m 1 init')})
         else Some ?m)"
      using False unfolding m [symmetric] by (auto simp: reparent_children_def Let_def image_iff)
    show ?thesis
    proof (cases "(\<exists>p \<in> set ps. is_orphan e p \<and> p_state p = Dead) \<and> get_process ?m 1 \<noteq> None")
      case True
      then obtain i where i: "get_process ?m 1 = Some i" by blast
      have "proc_wf i" using assms get_process_Some [OF i] by auto
      then obtain i' where i': "queue_signal_proc i SIGCHLD = Some i'" "signalled i i'"
        by (rule queue_signal_proc_signalled)
      have "list_all2 signalled ?m (set_process ?m 1 i')"
        by (rule list_all2_set_process [OF i, where R = signalled, OF i'(2)]) simp
      then show ?thesis using start True i i'(1) by (intro goal) (simp_all add: list_all2_map1)
    next
      case False
      then show ?thesis using start same by (intro goal [of ?m]) (auto split: option.splits)
    qed
  qed
qed

lemma signalled_adopted_less:
  assumes "list_all2 (\<lambda>p q. signalled (adopted ps e p) q) qs rs"
  shows "table_less qs rs"
  by (rule list_all2_mono [OF assms]) (rule waits_less_trans [OF _ signalled_waits_less]; simp)

text \<open>What \<^verbatim>\<open>signal_parent\<close> may change in an entry.\<close>

definition notified :: "process \<Rightarrow> process \<Rightarrow> bool" where
  "notified p q \<longleftrightarrow> (\<exists>r. signalled p r \<and>
    (q = r \<or> p_state r \<in> {Waiting, SignalWait, AwaitingIo} \<and> q = r\<lparr>p_state := Runnable, p_pending_io := False\<rparr>))"

lemma notified_refl [simp]: "notified p p"
  unfolding notified_def by (rule exI [of _ p]) simp

lemma notified_D:
  assumes "notified p q"
  shows "waits_less p q" "p_tgid q = p_tgid p" "p_is_thread q = p_is_thread p" "p_parent_pid q = p_parent_pid p"
    "p_fd_table q = p_fd_table p" "p_wait_status q = p_wait_status p" "p_exit_code q = p_exit_code p"
    "p_state p = Dead \<Longrightarrow> p_state q = Dead"
proof -
  obtain r where s: "signalled p r"
    and r: "q = r \<or> p_state r \<in> {Waiting, SignalWait, AwaitingIo} \<and> q = r\<lparr>p_state := Runnable, p_pending_io := False\<rparr>"
    using assms unfolding notified_def by blast
  note s = s [unfolded signalled_def]
  have w: "waits_less p (r\<lparr>p_state := Runnable\<rparr>)" using s by (simp add: waits_less_state)
  have q: "p_tgid q = p_tgid r \<and> p_is_thread q = p_is_thread r \<and> p_parent_pid q = p_parent_pid r \<and>
    p_fd_table q = p_fd_table r \<and> p_wait_status q = p_wait_status r \<and> p_exit_code q = p_exit_code r"
    using r by (elim disjE conjE) simp_all
  show "waits_less p q" using r by (elim disjE conjE) (use s w in simp_all)
  show "p_tgid q = p_tgid p" "p_is_thread q = p_is_thread p" "p_parent_pid q = p_parent_pid p"
    "p_fd_table q = p_fd_table p" "p_wait_status q = p_wait_status p" "p_exit_code q = p_exit_code p"
    using q s by simp_all
  show "p_state q = Dead" if "p_state p = Dead" using r by (elim disjE conjE) (use s that in simp_all)
qed

lemma signal_parent_result:
  assumes "procs_wf ps"
  obtains ps' where "signal_parent ps pp = Some ps'" "list_all2 notified ps ps'"
proof (cases "find_process_index ps pp")
  case None
  then show ?thesis using that [of ps] by (simp add: signal_parent_def list_all2_refl)
next
  case (Some n)
  note goal = that
  note n = find_process_index_Some [OF Some]
  have "proc_wf (ps ! n)" using assms n(1) by simp
  then obtain q where q: "queue_signal_proc (ps ! n) SIGCHLD = Some q" "signalled (ps ! n) q"
    by (rule queue_signal_proc_signalled)
  let ?q = "if p_state q \<in> {Waiting, SignalWait, AwaitingIo}
    then q\<lparr>p_state := Runnable, p_pending_io := False\<rparr> else q"
  have "notified (ps ! n) ?q" using q(2) by (auto simp: notified_def)
  then have "list_all2 notified ps (ps[n := ?q])"
    by (rule list_all2_update_refl [OF n(1)]) simp
  then show ?thesis using goal [of "ps[n := ?q]"] Some q n by (simp add: signal_parent_def)
qed

lemma exit_target_result:
  assumes "c < length ps" "p_state (ps ! c) = Dead"
  obtains nxt where "exit_target ps pp c = Some nxt"
    "case nxt of None \<Rightarrow> True | Some n \<Rightarrow> n < length ps \<and> n \<noteq> c \<and> p_state (ps ! n) = Runnable"
proof -
  note goal = that
  have turn: thesis if e: "exit_target ps pp c = find_next_runnable_index ps c"
  proof -
    obtain r where "find_next_runnable_index ps c = Some r"
      "case r of None \<Rightarrow> True | Some i \<Rightarrow> i < length ps \<and> i \<noteq> c \<and> p_state (ps ! i) = Runnable"
      using find_next_runnable_spec [OF assms(1)] by (fastforce split: option.splits)
    with e goal show ?thesis by simp
  qed
  show ?thesis
  proof (cases "find_process_index ps pp")
    case None
    then show ?thesis by (intro turn) (simp add: exit_target_def)
  next
    case (Some n)
    show ?thesis
    proof (cases "p_state (ps ! n) = Runnable")
      case True
      then show ?thesis
        using Some assms find_process_index_Some(1) [OF Some] by (intro goal [of "Some n"]) (auto simp: exit_target_def)
    next
      case False
      with Some show ?thesis by (intro turn) (simp add: exit_target_def)
    qed
  qed
qed

text \<open>A context switch only moves processes between Running and Runnable.\<close>

definition rescheduled :: "process \<Rightarrow> process \<Rightarrow> bool" where
  "rescheduled p q \<longleftrightarrow> q = p \<or>
    p_state p \<in> {Running, Runnable} \<and> (q = p\<lparr>p_state := Running\<rparr> \<or> q = p\<lparr>p_state := Runnable\<rparr>)"

lemma rescheduled_refl [simp]: "rescheduled p p"
  by (simp add: rescheduled_def)

lemma rescheduled_D:
  assumes "rescheduled p q"
  shows "p_pid q = p_pid p" "p_is_thread q = p_is_thread p" "p_parent_pid q = p_parent_pid p"
    "p_state p = Dead \<Longrightarrow> q = p"
  using assms by (elim rescheduled_def [THEN iffD1, elim_format] disjE conjE; simp)+

lemma switch_states_rescheduled:
  assumes "switch_states ps c n = Some (b, ps')"
  shows "list_all2 rescheduled ps ps'"
proof (cases "ps' = ps")
  case True
  then show ?thesis by (simp add: list_all2_refl)
next
  case False
  then have n: "c \<noteq> n" "n < length ps" "p_state (ps ! n) = Runnable" "c < length ps"
    and ps': "ps' = (if p_state (ps ! c) = Running then ps[c := (ps ! c)\<lparr>p_state := Runnable\<rparr>] else ps)
      [n := (ps ! n)\<lparr>p_state := Running\<rparr>]"
    using assms by (auto simp: switch_states_def Let_def idx_Some_iff split: if_splits bind_splits)
  show ?thesis
    unfolding ps' list_all2_conv_all_nth using n by (auto simp: nth_list_update rescheduled_def)
qed

lemma switch_by_index_rescheduled:
  assumes "kernel_inv k" "n < length (procs k)" "switch_by_index now c n k = Some (b, k')"
  shows "list_all2 rescheduled (procs k) (procs k')"
proof -
  obtain ok ps where sw: "switch_states (procs k) c n = Some (ok, ps)"
    using assms(3) by (auto simp: switch_by_index_def split: bind_splits)
  have len: "length ps = length (procs k)"
    using switch_states_waits_less [OF sw] by (rule list_all2_lengthD [symmetric])
  have core: "core_inv (k\<lparr>procs := ps\<rparr>)"
    by (rule core_inv_procs [OF kernel_inv_D(1) [OF assms(1)] switch_states_waits_less [OF sw]])
  obtain k2 where k2: "arm_quantum_for_current now n (k\<lparr>procs := ps\<rparr>) = Some k2" "procs k2 = ps"
    using arm_quantum_inv [OF core, of n now] assms(2) len by auto
  have "procs k' = ps"
    using assms(3) sw k2 by (auto simp: switch_by_index_def Let_def split: if_splits bind_splits)
  then show ?thesis using switch_states_rescheduled [OF sw] by simp
qed

lemma schedule_now_rescheduled:
  assumes "kernel_inv k" "schedule_now now k = Some (b, k')"
  shows "list_all2 rescheduled (procs k) (procs k')"
proof -
  obtain ok k1 where e: "scheduler_try_enter k = (ok, k1)" by fastforce
  let ?k2 = "clear_need_resched k1"
  have p2: "procs ?k2 = procs k" using try_enter_fields [OF e] by (simp add: clear_need_resched_def)
  have inv2: "kernel_inv ?k2"
    using assms(1) try_enter_inv [OF e] kernel_inv_cong [of ?k2 k1] by (simp add: clear_need_resched_def)
  show ?thesis
  proof (cases "ok \<and> (\<exists>c i. find_process_index (procs ?k2) (current ?k2) = Some c \<and>
      find_next_runnable_index (procs ?k2) c = Some (Some i) \<and> switch_by_index now c i ?k2 = Some (b, k'))")
    case True
    then obtain c i where c: "find_process_index (procs ?k2) (current ?k2) = Some c"
      "find_next_runnable_index (procs ?k2) c = Some (Some i)" "switch_by_index now c i ?k2 = Some (b, k')"
      by blast
    have "i < length (procs ?k2)"
      using find_next_runnable_spec [OF find_process_index_less [OF c(1)]] c(2) by auto
    from switch_by_index_rescheduled [OF inv2 this c(3)] p2 show ?thesis by simp
  next
    case False
    then have "procs k' = procs k"
      using assms(2) e p2 try_enter_fields(1) [OF e]
      by (auto simp: schedule_now_def Let_def split: if_splits option.splits bind_splits bool.splits)
    then show ?thesis by (simp add: list_all2_refl)
  qed
qed

lemma leave_cpu_result:
  assumes inv: "kernel_inv k" and c: "c < length (procs k)"
    and nxt: "case nxt of None \<Rightarrow> True | Some n \<Rightarrow> n < length (procs k) \<and> n \<noteq> c"
  obtains b k' where "leave_cpu now c nxt k = Some (b, k')" "kernel_inv k'"
    "list_all2 rescheduled (procs k) (procs k')"
proof (cases nxt)
  case (Some n)
  note goal = that
  obtain b k' where k': "switch_by_index now c n k = Some (b, k')" "kernel_inv k'"
    using switch_by_index_inv [OF inv c, of n now] nxt Some by auto
  have "list_all2 rescheduled (procs k) (procs k')"
    using switch_by_index_rescheduled [OF inv _ k'(1)] nxt Some by simp
  then show ?thesis using goal k' Some by (simp add: leave_cpu_def)
next
  case None
  note goal = that
  let ?k = "clear_quantum (snd (scheduler_release True k))"
  have "core_inv ?k"
    using kernel_inv_D(1) [OF inv] core_inv_cong [of ?k k] by (simp add: clear_quantum_def)
  then obtain k1 where k1: "rearm now ?k = Some k1" "core_inv k1" "armed_ok k1" "same_tasks ?k k1"
    by (rule rearm_result [of _ now])
  let ?k' = "snd (irq_save k1)"
  have "kernel_inv ?k'"
    using k1(2,3) kernel_inv_cong [of ?k' k1] by (simp add: kernel_inv_def irq_save_def Let_def)
  moreover have "procs ?k' = procs k"
    using k1(4) by (simp add: same_tasks_def irq_save_def clear_quantum_def Let_def)
  ultimately show ?thesis
    using None k1(1) by (intro goal [of False ?k'])
      (simp_all add: leave_cpu_def idle_until_runnable_enter_def list_all2_refl)
qed

section \<open>Exit\<close>

text \<open>
  The common end of the exit paths: tell the parent, pick the next task, leave the CPU.  The entry of
  the dead process is not touched any more.
\<close>

lemma list_all2_comp:
  assumes "list_all2 P xs ys" "list_all2 Q ys zs"
  shows "list_all2 (\<lambda>x z. \<exists>y. P x y \<and> Q y z) xs zs"
  using assms unfolding list_all2_conv_all_nth by metis

text \<open>A process that left for good: dead, without descriptors and without a pending wait.\<close>

definition zombie :: "u16 \<Rightarrow> int \<Rightarrow> int \<Rightarrow> process \<Rightarrow> bool" where
  "zombie i code status z \<longleftrightarrow> p_pid z = i \<and> p_state z = Dead \<and> p_exit_code z = code \<and>
    p_wait_status z = status \<and> p_fd_table z = [] \<and> p_wait_token z = None \<and> \<not> p_wait_reported z"

lemma zombie_signalled: "zombie i code status p \<Longrightarrow> signalled p q \<Longrightarrow> zombie i code status q"
  by (auto simp: zombie_def signalled_def waits_less_def)

lemma zombie_notified:
  assumes "zombie i code status p" "notified p q"
  shows "zombie i code status q"
proof -
  obtain r where r: "signalled p r"
    "q = r \<or> p_state r \<in> {Waiting, SignalWait, AwaitingIo} \<and> q = r\<lparr>p_state := Runnable, p_pending_io := False\<rparr>"
    using assms(2) unfolding notified_def by blast
  have z: "zombie i code status r" by (rule zombie_signalled [OF assms(1) r(1)])
  with r(2) show ?thesis by (auto simp: zombie_def)
qed

text \<open>From the table with the zombie in it to the next task.\<close>

lemma target_leave_result:
  assumes inv: "kernel_inv (k\<lparr>procs := ps\<rparr>)" and c: "c < length ps" "zombie i code status (ps ! c)"
  obtains nxt b k' where "exit_target ps pp c = Some nxt" "leave_cpu now c nxt (k\<lparr>procs := ps\<rparr>) = Some (b, k')"
    "kernel_inv k'" "list_all2 rescheduled ps (procs k')" "zombie i code status (procs k' ! c)"
proof -
  note goal = that
  have dead: "p_state (ps ! c) = Dead" using c(2) by (simp add: zombie_def)
  obtain nxt where nxt: "exit_target ps pp c = Some nxt"
    "case nxt of None \<Rightarrow> True | Some n \<Rightarrow> n < length ps \<and> n \<noteq> c \<and> p_state (ps ! n) = Runnable"
    by (rule exit_target_result [OF c(1) dead])
  obtain b k' where k': "leave_cpu now c nxt (k\<lparr>procs := ps\<rparr>) = Some (b, k')" "kernel_inv k'"
    "list_all2 rescheduled ps (procs k')"
    using leave_cpu_result [OF inv, of c nxt now] c(1) nxt(2) by (auto split: option.splits)
  have "rescheduled (ps ! c) (procs k' ! c)" using k'(3) c(1) by (simp add: list_all2_nthD)
  then have "procs k' ! c = ps ! c" using rescheduled_D(4) dead by simp
  with goal [OF nxt(1) k'] c(2) show ?thesis by simp
qed

lemma exit_tail_result:
  assumes inv: "kernel_inv k" and ps: "table_less (procs k) ps"
    and c: "c < length ps" "zombie i code status (ps ! c)"
  obtains ps3 nxt b k' where "signal_parent ps pp = Some ps3" "exit_target ps3 pp c = Some nxt"
    "leave_cpu now c nxt (k\<lparr>procs := ps3\<rparr>) = Some (b, k')" "kernel_inv k'"
    "list_all2 (\<lambda>p q. \<exists>r. notified p r \<and> rescheduled r q) ps (procs k')" "zombie i code status (procs k' ! c)"
proof -
  note goal = that
  have wf: "procs_wf ps"
    using table_less_wf [OF ps] core_inv_D(1) [OF kernel_inv_D(1) [OF inv]] by (simp add: table_wf_def)
  obtain ps3 where ps3: "signal_parent ps pp = Some ps3" "list_all2 notified ps ps3"
    by (rule signal_parent_result [OF wf])
  have len: "length ps3 = length ps" using list_all2_lengthD [OF ps3(2)] by simp
  have less: "table_less ps ps3" by (rule list_all2_mono [OF ps3(2)]) (rule notified_D)
  have inv3: "kernel_inv (k\<lparr>procs := ps3\<rparr>)"
    by (rule kernel_inv_procs [OF inv table_less_trans [OF ps less]])
  have z: "zombie i code status (ps3 ! c)"
    using zombie_notified [OF c(2) list_all2_nthD [OF ps3(2) c(1)]] .
  obtain nxt b k' where k': "exit_target ps3 pp c = Some nxt" "leave_cpu now c nxt (k\<lparr>procs := ps3\<rparr>) = Some (b, k')"
    "kernel_inv k'" "list_all2 rescheduled ps3 (procs k')" "zombie i code status (procs k' ! c)"
    by (rule target_leave_result [OF inv3, of c]) (use c(1) len z in simp_all)
  from goal [OF ps3(1) k'(1-3) list_all2_comp [OF ps3(2) k'(4)] k'(5)] show ?thesis .
qed

lemma list_all2_pids: "list_all2 (\<lambda>p q. p_pid q = p_pid p) ps qs \<Longrightarrow> map p_pid qs = map p_pid ps"
  by (induction rule: list_all2_induct) simp_all

text \<open>The table after an exit: the zombie, and no child left with the dead parent if init is there.\<close>

definition exited :: "nat \<Rightarrow> int \<Rightarrow> int \<Rightarrow> kernel \<Rightarrow> kernel \<Rightarrow> bool" where
  "exited c code status k k' \<longleftrightarrow> kernel_inv k' \<and> map p_pid (procs k') = map p_pid (procs k) \<and>
    zombie (current k) code status (procs k' ! c) \<and>
    (current k = 1 \<or> 1 \<notin> p_pid ` set (procs k) \<or> (\<forall>q \<in> set (procs k'). \<not> is_orphan (current k) q))"

lemma leave_result:
  assumes inv: "kernel_inv k" and c: "find_process_index (procs k) (current k) = Some c"
  obtains ps1 ps3 nxt b k' where "reparent_children (procs k) (current k) = Some ps1" "c < length ps1"
    "signal_parent (ps1[c := (mark_dead code (ps1 ! c))\<lparr>p_wait_status := status, p_wait_reported := False\<rparr>])
        (p_parent_pid (procs k ! c)) = Some ps3"
    "exit_target ps3 (p_parent_pid (procs k ! c)) c = Some nxt"
    "leave_cpu now c nxt (k\<lparr>procs := ps3\<rparr>) = Some (b, k')" "exited c code status k k'"
proof -
  note goal = that
  note ci = find_process_index_Some [OF c]
  have wf: "table_wf (procs k)" using core_inv_D(1) [OF kernel_inv_D(1) [OF inv]] .
  obtain ps1 where ps1: "reparent_children (procs k) (current k) = Some ps1"
    "list_all2 (\<lambda>p q. signalled (adopted (procs k) (current k) p) q) (procs k) ps1"
    by (rule reparent_children_result [of "procs k" "current k"]) (use wf in \<open>simp add: table_wf_def\<close>)
  note less1 = signalled_adopted_less [OF ps1(2)]
  have len: "length ps1 = length (procs k)" using list_all2_lengthD [OF ps1(2)] by simp
  then have c1: "c < length ps1" using ci(1) by simp
  have pids: "map p_pid ps1 = map p_pid (procs k)" by (rule table_less_pids [OF less1])
  have pid1: "p_pid (ps1 ! c) = current k"
    using arg_cong [OF pids, of "\<lambda>xs. xs ! c"] c1 ci(1,2) by simp
  let ?z = "(mark_dead code (ps1 ! c))\<lparr>p_wait_status := status, p_wait_reported := False\<rparr>"
  let ?ps2 = "ps1[c := ?z]"
  have less2: "table_less (procs k) ?ps2"
    by (rule table_less_trans [OF less1 table_less_update [OF c1]]) simp
  have pids2: "map p_pid ?ps2 = map p_pid (procs k)" by (rule table_less_pids [OF less2])
  have z: "zombie (current k) code status (?ps2 ! c)" using c1 pid1 by (simp add: zombie_def)
  obtain ps3 nxt b k' where k': "signal_parent ?ps2 (p_parent_pid (procs k ! c)) = Some ps3"
    "exit_target ps3 (p_parent_pid (procs k ! c)) c = Some nxt"
    "leave_cpu now c nxt (k\<lparr>procs := ps3\<rparr>) = Some (b, k')" "kernel_inv k'"
    "list_all2 (\<lambda>p q. \<exists>r. notified p r \<and> rescheduled r q) ?ps2 (procs k')" "zombie (current k) code status (procs k' ! c)"
    by (rule exit_tail_result [OF inv less2 _ z]) (use c1 in simp_all)
  have "list_all2 (\<lambda>p q. p_pid q = p_pid p) ?ps2 (procs k')"
    by (rule list_all2_mono [OF k'(5)]) (metis notified_D(1) rescheduled_D(1) waits_less_def)
  then have "map p_pid (procs k') = map p_pid (procs k)"
    using pids2 by (rule trans [OF list_all2_pids])
  moreover have "\<not> is_orphan (current k) q"
    if init: "current k \<noteq> 1" "1 \<in> p_pid ` set (procs k)" and q: "q \<in> set (procs k')" for q
  proof -
    obtain i where i: "i < length ?ps2" "q = procs k' ! i"
      using q list_all2_lengthD [OF k'(5)] by (metis in_set_conv_nth)
    then obtain r where r: "notified (?ps2 ! i) r" "rescheduled r q"
      using list_all2_nthD [OF k'(5), of i] by auto
    have s: "signalled (adopted (procs k) (current k) (procs k ! i)) (ps1 ! i)"
      using list_all2_nthD [OF ps1(2), of i] i(1) len by simp
    have "\<not> is_orphan (current k) (ps1 ! i)"
      using s init by (auto simp: signalled_def adopted_def is_orphan_def split: if_splits)
    then have "\<not> is_orphan (current k) (?ps2 ! i)"
      using c1 i(1) by (auto simp: nth_list_update is_orphan_def)
    then show ?thesis using r notified_D(3,4) [OF r(1)] rescheduled_D(2,3) [OF r(2)] by (simp add: is_orphan_def)
  qed
  ultimately have "exited c code status k k'" using k'(4) k'(6) unfolding exited_def by blast
  from goal [OF ps1(1) c1 k'(1-3) this] show ?thesis .
qed

lemma exit_proc_result:
  assumes inv: "kernel_inv k" and g: "scheduler_try_enter k = (True, k1)"
    and c: "find_process_index (procs k) (current k) = Some c" and p: "\<not> p_is_thread (procs k ! c)"
  obtains b k' where "exit_proc now code k = Some (b, k')" "exited c code (push_bit 8 (code AND 0xff)) k k'"
proof -
  note goal = that
  note f = try_enter_fields [OF g]
  have inv1: "kernel_inv k1" using inv try_enter_inv [OF g] by simp
  note ci = find_process_index_Some [OF c]
  have c1: "find_process_index (procs k1) (current k1) = Some c" using c f by simp
  obtain ps1 ps3 nxt b k' where k': "reparent_children (procs k1) (current k1) = Some ps1" "c < length ps1"
    "signal_parent (ps1[c := (mark_dead (code) (ps1 ! c))\<lparr>p_wait_status := push_bit 8 (code AND 0xff), p_wait_reported := False\<rparr>])
        (p_parent_pid (procs k1 ! c)) = Some ps3"
    "exit_target ps3 (p_parent_pid (procs k1 ! c)) c = Some nxt"
    "leave_cpu now c nxt (k1\<lparr>procs := ps3\<rparr>) = Some (b, k')" "exited c (code) (push_bit 8 (code AND 0xff)) k1 k'"
    by (rule leave_result [OF inv1 c1])
  have "exit_proc now code k = Some (b, k')"
    using g c p ci(1) f k'(1-5) by (simp add: exit_proc_def Let_def)
  moreover have "exited c code (push_bit 8 (code AND 0xff)) k k'" using k'(6) f by (simp add: exited_def)
  ultimately show ?thesis by (rule goal)
qed

lemma terminate_result:
  assumes inv: "kernel_inv k" and g: "scheduler_try_enter k = (True, k1)"
    and c: "find_process_index (procs k) (current k) = Some c"
  obtains b k' where "terminate_current_by_signal now sig k = Some (b, k')" "exited c (128 + sig) (sig AND 0x7f) k k'"
proof -
  note goal = that
  note f = try_enter_fields [OF g]
  have inv1: "kernel_inv k1" using inv try_enter_inv [OF g] by simp
  note ci = find_process_index_Some [OF c]
  have c1: "find_process_index (procs k1) (current k1) = Some c" using c f by simp
  obtain ps1 ps3 nxt b k' where k': "reparent_children (procs k1) (current k1) = Some ps1" "c < length ps1"
    "signal_parent (ps1[c := (mark_dead (128 + sig) (ps1 ! c))\<lparr>p_wait_status := sig AND 0x7f, p_wait_reported := False\<rparr>])
        (p_parent_pid (procs k1 ! c)) = Some ps3"
    "exit_target ps3 (p_parent_pid (procs k1 ! c)) c = Some nxt"
    "leave_cpu now c nxt (k1\<lparr>procs := ps3\<rparr>) = Some (b, k')" "exited c (128 + sig) (sig AND 0x7f) k1 k'"
    by (rule leave_result [OF inv1 c1])
  have "terminate_current_by_signal now sig k = Some (b, k')"
    using g c ci(1) f k'(1-5) by (simp add: terminate_current_by_signal_def Let_def)
  moreover have "exited c (128 + sig) (sig AND 0x7f) k k'" using k'(6) f by (simp add: exited_def)
  ultimately show ?thesis by (rule goal)
qed

text \<open>Every branch of the exit paths returns and keeps the invariant.\<close>

lemma exit_proc_inv:
  assumes inv: "kernel_inv k"
  obtains b k' where "exit_proc now code k = Some (b, k')" "kernel_inv k'"
proof -
  note goal = that
  obtain ok k1 where g: "scheduler_try_enter k = (ok, k1)" by fastforce
  have inv1: "kernel_inv k1" using inv try_enter_inv [OF g] by simp
  note f = try_enter_fields [OF g]
  show ?thesis
  proof (cases "ok \<and> find_process_index (procs k1) (current k1) \<noteq> None")
    case False
    then show ?thesis using g inv1 by (intro goal [of False k1]) (auto simp: exit_proc_def split: bool.splits)
  next
    case True
    then obtain c where c: "find_process_index (procs k1) (current k1) = Some c" by auto
    note ci = find_process_index_Some [OF c]
    show ?thesis
    proof (cases "p_is_thread (procs k1 ! c)")
      case False
      obtain b k' where "exit_proc now code k = Some (b, k')" "exited c code (push_bit 8 (code AND 0xff)) k k'"
        using exit_proc_result [OF inv, of k1 c now code] g True c f False by auto
      then show ?thesis by (intro goal) (auto simp: exited_def)
    next
      case thread: True
      let ?ps = "(procs k1)[c := mark_dead code (procs k1 ! c)]"
      have inv2: "kernel_inv (k1\<lparr>procs := ?ps\<rparr>)"
        by (rule kernel_inv_procs [OF inv1 table_less_update [OF ci(1)]]) simp
      obtain nxt where nxt: "find_next_runnable_index ?ps c = Some nxt"
        "case nxt of None \<Rightarrow> True | Some n \<Rightarrow> n < length ?ps \<and> n \<noteq> c"
        using find_next_runnable_spec [of c ?ps] ci(1) by (fastforce split: option.splits)
      obtain b k' where "leave_cpu now c nxt (k1\<lparr>procs := ?ps\<rparr>) = Some (b, k')" "kernel_inv k'"
        using leave_cpu_result [OF inv2, of c nxt now] ci(1) nxt(2) by (auto split: option.splits)
      then show ?thesis
        using g True c ci(1) thread nxt(1) by (intro goal) (simp_all add: exit_proc_def Let_def)
    qed
  qed
qed

lemma terminate_inv:
  assumes inv: "kernel_inv k"
  obtains b k' where "terminate_current_by_signal now sig k = Some (b, k')" "kernel_inv k'"
proof -
  note goal = that
  obtain ok k1 where g: "scheduler_try_enter k = (ok, k1)" by fastforce
  have inv1: "kernel_inv k1" using inv try_enter_inv [OF g] by simp
  note f = try_enter_fields [OF g]
  show ?thesis
  proof (cases "ok \<and> find_process_index (procs k1) (current k1) \<noteq> None")
    case False
    then show ?thesis using g inv1 by (intro goal [of False k1]) (auto simp: terminate_current_by_signal_def split: bool.splits)
  next
    case True
    then obtain c where c: "find_process_index (procs k1) (current k1) = Some c" by auto
    obtain b k' where "terminate_current_by_signal now sig k = Some (b, k')" "exited c (128 + sig) (sig AND 0x7f) k k'"
      using terminate_result [OF inv, of k1 c now sig] g True c f by auto
    then show ?thesis by (intro goal) (auto simp: exited_def)
  qed
qed

lemma queue_sigchld_result:
  assumes "procs_wf ps"
  obtains ps' where "queue_sigchld ps pp = Some ps'" "list_all2 signalled ps ps'"
proof (cases "find_process_index ps pp")
  case None
  with that [of ps] show ?thesis by (simp add: queue_sigchld_def list_all2_refl)
next
  case (Some i)
  note goal = that
  note ii = find_process_index_Some(1) [OF Some]
  have "proc_wf (ps ! i)" using assms ii by simp
  then obtain q where q: "queue_signal_proc (ps ! i) SIGCHLD = Some q" "signalled (ps ! i) q"
    by (rule queue_signal_proc_signalled)
  have "list_all2 signalled ps (ps[i := q])" by (rule list_all2_update_refl [where R = signalled, OF ii q(2)]) simp
  with goal [of "ps[i := q]"] Some q(1) ii show ?thesis by (simp add: queue_sigchld_def)
qed

text \<open>The whole thread group leaves at once.\<close>

lemma exit_group_result:
  assumes inv: "kernel_inv k" and g: "scheduler_try_enter k = (True, k1)"
    and c: "find_process_index (procs k) (current k) = Some c"
    and l: "find_process_index (procs k) (p_tgid (procs k ! c)) = Some l"
  obtains b k' where "exit_group now code k = Some (b, k')" "kernel_inv k'"
    "\<forall>p \<in> set (procs k'). p_tgid p = p_tgid (procs k ! c) \<longrightarrow> p_state p = Dead"
    "p_wait_status (procs k' ! l) = push_bit 8 (code AND 0xff)"
proof -
  note goal = that
  note f = try_enter_fields [OF g]
  have inv1: "kernel_inv k1" using inv try_enter_inv [OF g] by simp
  note ci = find_process_index_Some [OF c] and li = find_process_index_Some [OF l]
  let ?t = "p_tgid (procs k ! c)" and ?w = "push_bit 8 (code AND 0xff)"
  let ?pp = "p_parent_pid (procs k ! l)"
  have wf: "procs_wf (procs k1)"
    using core_inv_D(1) [OF kernel_inv_D(1) [OF inv1]] by (simp add: table_wf_def)
  obtain ps1 where ps1: "reparent_children (procs k1) ?t = Some ps1"
    "list_all2 (\<lambda>p q. signalled (adopted (procs k1) ?t p) q) (procs k1) ps1"
    by (rule reparent_children_result [OF wf])
  have len: "length ps1 = length (procs k)" using list_all2_lengthD [OF ps1(2)] f by simp
  let ?ps2 = "map (\<lambda>q. if p_tgid q = ?t then mark_dead code q else q) ps1"
  let ?ps3 = "?ps2[l := (?ps2 ! l)\<lparr>p_wait_status := ?w, p_wait_reported := False\<rparr>]"
  have less: "table_less (procs k1) ?ps3"
  proof -
    have "table_less ps1 ?ps2" by (rule table_less_map) simp
    moreover have "table_less ?ps2 ?ps3" by (rule table_less_update) (use li(1) len in simp_all)
    ultimately show ?thesis using signalled_adopted_less [OF ps1(2)] table_less_trans by blast
  qed
  have tg: "p_tgid (ps1 ! i) = p_tgid (procs k ! i)" if "i < length ps1" for i
    using list_all2_nthD [OF ps1(2), of i] that len f by (simp add: signalled_def)
  have dead3: "p_state (?ps3 ! i) = Dead" if "i < length ps1" "p_tgid (?ps3 ! i) = ?t" for i
    using that by (cases "i = l") (auto simp: split: if_splits)
  have l3: "p_wait_status (?ps3 ! l) = ?w" using li(1) len by simp
  have wf3: "procs_wf ?ps3" by (rule table_less_wf [OF less wf])
  obtain ps4 where ps4: "queue_sigchld ?ps3 ?pp = Some ps4" "list_all2 signalled ?ps3 ps4"
    by (rule queue_sigchld_result [OF wf3])
  have len4: "length ps4 = length ps1" using list_all2_lengthD [OF ps4(2)] by simp
  have sig: "signalled (?ps3 ! i) (ps4 ! i)" if "i < length ps1" for i
    using list_all2_nthD [OF ps4(2), of i] that by simp
  have dead4: "p_state (ps4 ! i) = Dead" if "i < length ps1" "p_tgid (ps4 ! i) = ?t" for i
    using dead3 [of i] sig [of i] that by (auto simp: signalled_def)
  have less4: "table_less (procs k1) ps4"
    by (rule table_less_trans [OF less list_all2_mono [OF ps4(2)]]) (rule signalled_waits_less)
  have inv4: "kernel_inv (k1\<lparr>procs := ps4\<rparr>)" by (rule kernel_inv_procs [OF inv1 less4])
  have c4: "c < length ps4" "p_state (ps4 ! c) = Dead"
  proof -
    show cl: "c < length ps4" using ci(1) len len4 by simp
    have "p_tgid (?ps3 ! c) = ?t" using cl len4 tg [of c] by (cases "c = l") simp_all
    then show "p_state (ps4 ! c) = Dead" using dead4 [of c] sig [of c] cl len4 by (simp add: signalled_def)
  qed
  obtain nxt where nxt: "exit_target ps4 ?pp c = Some nxt"
    "case nxt of None \<Rightarrow> True | Some n \<Rightarrow> n < length ps4 \<and> n \<noteq> c \<and> p_state (ps4 ! n) = Runnable"
    by (rule exit_target_result [OF c4])
  obtain b k' where k': "leave_cpu now c nxt (k1\<lparr>procs := ps4\<rparr>) = Some (b, k')" "kernel_inv k'"
    "list_all2 rescheduled ps4 (procs k')"
    using leave_cpu_result [OF inv4, of c nxt now] c4(1) nxt(2) by (auto split: option.splits)
  show ?thesis
  proof (rule goal)
    show "exit_group now code k = Some (b, k')"
      using g c l ci(1) li(1) f len ps1(1) ps4(1) nxt(1) k'(1) by (simp add: exit_group_def Let_def)
    show "kernel_inv k'" by (rule k'(2))
    have fin: "rescheduled (ps4 ! i) (procs k' ! i)" if "i < length ps1" for i
      using list_all2_nthD [OF k'(3), of i] that len4 by simp
    show "\<forall>p \<in> set (procs k'). p_tgid p = ?t \<longrightarrow> p_state p = Dead"
    proof (intro ballI impI)
      fix p assume p: "p \<in> set (procs k')" "p_tgid p = ?t"
      then obtain i where i: "i < length ps1" "p = procs k' ! i"
        using list_all2_lengthD [OF k'(3)] len4 by (auto simp: in_set_conv_nth)
      have "p_tgid (ps4 ! i) = ?t" using fin [OF i(1)] p(2) i(2) by (auto simp: rescheduled_def)
      then have "p_state (ps4 ! i) = Dead" by (rule dead4 [OF i(1)])
      then show "p_state p = Dead" using fin [OF i(1)] i(2) rescheduled_D(4) by metis
    qed
    have ll: "l < length ps1" using li(1) len by simp
    have "p_wait_status (ps4 ! l) = ?w" using sig [OF ll] l3 by (simp add: signalled_def)
    then show "p_wait_status (procs k' ! l) = ?w" using fin [OF ll] by (auto simp: rescheduled_def)
  qed
qed

section \<open>Signals sent by processes\<close>

text \<open>What the later phases of \<^verbatim>\<open>kill\<close> keep: a process that died stays dead.\<close>

definition stays_dead :: "process \<Rightarrow> process \<Rightarrow> bool" where
  "stays_dead p q \<longleftrightarrow> waits_less p q \<and> (p_state p = Dead \<longrightarrow> p_state q = Dead)"

lemma stays_dead_refl [simp]: "stays_dead p p"
  by (simp add: stays_dead_def)

lemma stays_dead_trans: "stays_dead p q \<Longrightarrow> stays_dead q r \<Longrightarrow> stays_dead p r"
  using waits_less_trans by (auto simp: stays_dead_def)

lemma stays_dead_signalled: "signalled p q \<Longrightarrow> stays_dead p q"
  by (auto simp: stays_dead_def signalled_def)

lemma stays_dead_rescheduled: "rescheduled p q \<Longrightarrow> stays_dead p q"
  by (auto simp: stays_dead_def rescheduled_def intro: waits_less_state)

abbreviation table_dead :: "process list \<Rightarrow> process list \<Rightarrow> bool" where
  "table_dead \<equiv> list_all2 stays_dead"

lemma table_dead_trans: "table_dead ps qs \<Longrightarrow> table_dead qs rs \<Longrightarrow> table_dead ps rs"
  by (erule list_all2_trans [rotated 1]) (assumption | rule stays_dead_trans)+

lemma table_dead_less: "table_dead ps qs \<Longrightarrow> table_less ps qs"
  by (erule list_all2_mono) (simp add: stays_dead_def)

lemma reparent_children_dead:
  assumes "procs_wf ps"
  obtains ps' where "reparent_children ps e = Some ps'" "table_dead ps ps'"
proof (rule reparent_children_result [OF assms, of e])
  fix ps' assume r: "reparent_children ps e = Some ps'"
    and l: "list_all2 (\<lambda>p q. signalled (adopted ps e p) q) ps ps'"
  have "stays_dead p q" if "signalled (adopted ps e p) q" for p q
    by (rule stays_dead_trans [OF _ stays_dead_signalled [OF that]]) (simp add: stays_dead_def)
  then have "table_dead ps ps'" by (rule list_all2_mono [OF l])
  with r show thesis by (rule that)
qed

lemma notify_parent_dead:
  assumes "procs_wf ps"
  obtains ps' where "notify_parent_for_child_event ps pp = Some ps'" "table_dead ps ps'"
proof (cases "get_process ps pp")
  case None
  then show ?thesis using that [of ps] by (simp add: notify_parent_for_child_event_def list_all2_refl)
next
  case (Some p)
  note goal = that
  have "proc_wf p" using assms get_process_Some [OF Some] by simp
  then obtain q where q: "queue_signal_proc p SIGCHLD = Some q" "signalled p q"
    by (rule queue_signal_proc_signalled)
  have "table_dead ps (set_process ps pp q)"
    by (rule list_all2_set_process [OF Some, where R = stays_dead, OF stays_dead_signalled [OF q(2)]]) simp
  with Some q(1) goal show ?thesis by (simp add: notify_parent_for_child_event_def)
qed

lemma each_process_dead:
  assumes f: "\<And>ps i. procs_wf ps \<Longrightarrow> \<exists>ps'. f ps i = Some ps' \<and> table_dead ps ps'" and wf: "procs_wf ps"
  shows "\<exists>ps'. each_process f is ps = Some ps' \<and> table_dead ps ps'"
  using wf
proof (induction "is" arbitrary: ps)
  case Nil
  then show ?case by (simp add: list_all2_refl)
next
  case (Cons i "is")
  obtain ps1 where ps1: "f ps i = Some ps1" "table_dead ps ps1" using f [OF Cons.prems] by blast
  have "procs_wf ps1" using table_less_wf [OF table_dead_less [OF ps1(2)] Cons.prems] .
  from Cons.IH [OF this] ps1 show ?case using table_dead_trans by auto
qed

text \<open>One target.\<close>

lemma apply_signal_result:
  assumes "proc_wf p" "sig \<le> 64"
  obtains n q where "apply_signal_to_process p sig = Some (n, q)" "waits_less p q"
    "sig = SIGKILL \<longrightarrow> handler (p_signal_actions p ! SIGKILL) \<le> SIG_IGN \<longrightarrow> p_state q = Dead"
proof (cases "sig = 0")
  case True
  then show ?thesis using that [of None p] by (simp add: apply_signal_to_process_def SIGKILL_def)
next
  case ne: False
  note goal = that
  obtain q where q: "queue_signal_proc p sig = Some q" "signalled p q"
    by (rule queue_signal_proc_signalled [OF assms(1)])
  let ?c = "if p_state p = Stopped
    then p\<lparr>p_state := Runnable, p_wait_status := 0xffff, p_wait_reported := False\<rparr> else p"
  have c: "proc_wf ?c" "waits_less p ?c"
    using assms(1) waits_less_state [of p p Runnable] by (simp_all add: proc_wf_def)
  obtain r where r1: "queue_signal_proc ?c sig = Some r" "signalled ?c r"
    by (rule queue_signal_proc_signalled [OF c(1)])
  note r = r1(1) waits_less_trans [OF c(2) signalled_waits_less [OF r1(2)]]
  have len: "sig < length (p_signal_actions p)" using assms by (simp add: proc_wf_def SIGNAL_COUNT_def)
  have dead: "waits_less p (p\<lparr>p_fd_table := x, p_state := st, p_wait_status := y, p_wait_reported := z\<rparr>)"
    "waits_less p (p\<lparr>p_state := st, p_wait_status := y, p_wait_reported := z\<rparr>)" if "st \<noteq> Sleeping" for x y z st
    using that by (simp_all add: waits_less_def proc_wf_def)
  show ?thesis
  proof (cases "sig = SIGCONT")
    case True
    then show ?thesis
      using ne r by (intro goal [of "Some (p_parent_pid r)" r])
        (simp_all add: apply_signal_to_process_def Let_def SIGCONT_def SIGKILL_def)
  next
    case cont: False
    let ?h = "handler (p_signal_actions p ! sig)"
    let ?stop = "p\<lparr>p_state := Stopped, p_wait_status := push_bit 8 (int sig) OR 0x7f, p_wait_reported := False\<rparr>"
    let ?dead = "p\<lparr>p_fd_table := close_all_fds (p_fd_table p), p_state := Dead, p_wait_status := int sig AND 0x7f,
      p_wait_reported := False\<rparr>"
    have ap: "apply_signal_to_process p sig =
       (if ?h = SIG_IGN \<and> sig \<noteq> SIGKILL \<and> sig \<noteq> SIGSTOP then Some (None, p)
        else if ?h > SIG_IGN then Some (None, q)
        else if is_stop_default sig then Some (Some (p_parent_pid p), ?stop)
        else if is_fatal_default sig then Some (Some (p_parent_pid p), ?dead)
        else Some (None, q))"
      using ne cont q(1) unfolding apply_signal_to_process_def idx_in [OF len]
      by (simp only: if_False Option.bind.bind_lunit)
    have less: "waits_less p ?stop" "waits_less p ?dead" using dead by simp_all
    show ?thesis
    proof (cases "sig = SIGKILL \<and> ?h \<le> SIG_IGN")
      case True
      then have "\<not> ?h > SIG_IGN" "\<not> is_stop_default sig" "is_fatal_default sig"
        by (auto simp add: not_less is_stop_default_def is_fatal_default_def SIGKILL_def SIGSTOP_def SIGTSTP_def
            SIGTTIN_def SIGTTOU_def)
      with True have "apply_signal_to_process p sig = Some (Some (p_parent_pid p), ?dead)" unfolding ap by simp
      then show ?thesis by (rule goal) (use less in simp_all)
    next
      case False
      then have other: "sig = SIGKILL \<longrightarrow> handler (p_signal_actions p ! SIGKILL) \<le> SIG_IGN \<longrightarrow> p_state r = Dead"
        for r by auto
      have "\<exists>n r. apply_signal_to_process p sig = Some (n, r) \<and> waits_less p r"
        unfolding ap using less signalled_waits_less [OF q(2)] waits_less_refl [of p] by (simp split: if_split)
      then show ?thesis using goal other by blast
    qed
  qed
qed

lemma kill_loop_result:
  assumes "distinct (map p_pid ps)" "procs_wf ps" "sig \<le> 64" "distinct targets"
  shows "\<exists>parents dead ps'. kill_loop sig targets ps = Some (parents, dead, ps') \<and> table_less ps ps' \<and>
    (\<forall>i. get_process ps' i =
      (if i \<in> set targets then map_option (\<lambda>p. snd (the (apply_signal_to_process p sig))) (get_process ps i)
       else get_process ps i))"
  using assms
proof (induction targets arbitrary: ps)
  case Nil
  then show ?case by simp
next
  case (Cons t ts)
  show ?case
  proof (cases "get_process ps t")
    case None
    obtain parents dead ps' where "kill_loop sig ts ps = Some (parents, dead, ps')" "table_less ps ps'"
      "\<forall>i. get_process ps' i =
        (if i \<in> set ts then map_option (\<lambda>p. snd (the (apply_signal_to_process p sig))) (get_process ps i)
         else get_process ps i)"
      using Cons.IH [OF Cons.prems(1-3)] Cons.prems(4) by auto
    with None show ?thesis by auto
  next
    case (Some p)
    have "proc_wf p" using Cons.prems(2) get_process_Some [OF Some] by simp
    then obtain n q where q: "apply_signal_to_process p sig = Some (n, q)" "waits_less p q"
      using Cons.prems(3) by (rule apply_signal_result)
    let ?ps = "set_process ps t q"
    have pid: "p_pid q = t" using q(2) get_process_Some [OF Some] by (simp add: waits_less_def)
    have less: "table_less ps ?ps" by (rule table_less_set_process [OF Some q(2)])
    have "distinct (map p_pid ?ps)" "procs_wf ?ps"
      using Cons.prems(1) pid table_less_wf [OF less Cons.prems(2)] by simp_all
    then obtain parents dead ps' where l: "kill_loop sig ts ?ps = Some (parents, dead, ps')" "table_less ?ps ps'"
      "\<forall>i. get_process ps' i =
        (if i \<in> set ts then map_option (\<lambda>p. snd (the (apply_signal_to_process p sig))) (get_process ?ps i)
         else get_process ?ps i)"
      using Cons.IH [of ?ps] Cons.prems(3,4) by auto
    have got: "get_process ?ps i = (if i = t then Some q else get_process ps i)" for i
      using get_set_process [OF pid, of ps i] get_process_Some [OF Some] by auto
    have "t \<notin> set ts" using Cons.prems(4) by simp
    then have "\<forall>i. get_process ps' i =
        (if i \<in> set (t # ts) then map_option (\<lambda>p. snd (the (apply_signal_to_process p sig))) (get_process ps i)
         else get_process ps i)"
      using l(3) got Some q(1) by auto
    moreover have "table_less ps ps'" by (rule table_less_trans [OF less l(2)])
    ultimately show ?thesis using Some q(1) l(1) by (cases n) auto
  qed
qed

lemma kill_table_result:
  assumes "distinct (map p_pid ps)" "procs_wf ps" "sig \<le> 64" "distinct targets"
  obtains ps1 ps' where "kill_table targets sig ps = Some ps'" "table_less ps ps'" "table_dead ps1 ps'"
    "\<forall>i. get_process ps1 i =
      (if i \<in> set targets then map_option (\<lambda>p. snd (the (apply_signal_to_process p sig))) (get_process ps i)
       else get_process ps i)"
proof -
  note goal = that
  obtain parents dead ps1 where l: "kill_loop sig targets ps = Some (parents, dead, ps1)" "table_less ps ps1"
    "\<forall>i. get_process ps1 i =
      (if i \<in> set targets then map_option (\<lambda>p. snd (the (apply_signal_to_process p sig))) (get_process ps i)
       else get_process ps i)"
    using kill_loop_result [OF assms] by blast
  have wf1: "procs_wf ps1" by (rule table_less_wf [OF l(2) assms(2)])
  obtain ps2 where ps2: "each_process reparent_children dead ps1 = Some ps2" "table_dead ps1 ps2"
    using each_process_dead [of reparent_children ps1 dead] reparent_children_dead wf1 by metis
  have wf2: "procs_wf ps2" by (rule table_less_wf [OF table_dead_less [OF ps2(2)] wf1])
  obtain ps3 where ps3: "each_process notify_parent_for_child_event parents ps2 = Some ps3" "table_dead ps2 ps3"
    using each_process_dead [of notify_parent_for_child_event ps2 parents] notify_parent_dead wf2 by metis
  show ?thesis
  proof (rule goal)
    show "kill_table targets sig ps = Some ps3" using l(1) ps2(1) ps3(1) by (simp add: kill_table_def)
    show dead: "table_dead ps1 ps3" by (rule table_dead_trans [OF ps2(2) ps3(2)])
    show "table_less ps ps3" by (rule table_less_trans [OF l(2) table_dead_less [OF dead]])
  qed (rule l(3))
qed

text \<open>
  \<^verbatim>\<open>kill\<close> with SIGKILL, for a table in which nobody managed to install a handler for it: the call
  returns, and every selected process is dead.
\<close>

lemma sys_kill_result:
  assumes inv: "kernel_inv k" and sig: "0 < sig" "sig \<le> 64" and wh: "- 65535 \<le> which" "which \<le> 65535"
    and pg: "pgid = (case get_process (procs k) (current k) of None \<Rightarrow> current k | Some p \<Rightarrow> p_pgid p)"
    and some: "filter (kill_selects which pgid) (procs k) \<noteq> []"
  obtains k' where "sys_kill now which sig k = Some (0, k')" "kernel_inv k'"
    "\<forall>p \<in> set (procs k). kill_selects which pgid p \<longrightarrow> sig = 9 \<longrightarrow>
      handler (p_signal_actions p ! SIGKILL) \<le> SIG_IGN \<longrightarrow>
      (\<exists>q \<in> set (procs k'). p_pid q = p_pid p \<and> p_state q = Dead)"
proof -
  note goal = that
  note wf = core_inv_D(1) [OF kernel_inv_D(1) [OF inv], unfolded table_wf_def]
  let ?ts = "map p_pid (filter (kill_selects which pgid) (procs k))"
  have ts: "distinct ?ts" using wf by (simp add: distinct_map_filter)
  have n: "nat sig \<le> 64" using sig by simp
  obtain ps1 ps' where t: "kill_table ?ts (nat sig) (procs k) = Some ps'" "table_less (procs k) ps'" "table_dead ps1 ps'"
    "\<forall>i. get_process ps1 i =
      (if i \<in> set ?ts then map_option (\<lambda>p. snd (the (apply_signal_to_process p (nat sig)))) (get_process (procs k) i)
       else get_process (procs k) i)"
    using kill_table_result [OF conjunct1 [OF wf] conjunct2 [OF wf] n ts] by blast
  let ?k1 = "k\<lparr>procs := ps'\<rparr>"
  have inv1: "kernel_inv ?k1" by (rule kernel_inv_procs [OF inv t(2)])
  obtain b k2 where k2: "schedule_now now ?k1 = Some (b, k2)" "kernel_inv k2"
    by (rule schedule_now_inv [OF inv1])
  define stop where "stop \<longleftrightarrow> (\<exists>p \<in> set ps'. p_pid p = current k \<and> (p_state p = Dead \<or> p_state p = Stopped))"
  define k' where "k' = (if stop then k2 else ?k1)"
  have res: "sys_kill now which sig k = Some (0, k')"
    using sig wh some t(1) k2(1) unfolding sys_kill_def pg [symmetric]
    by (auto simp: valid_signal_def Let_def k'_def stop_def)
  have dead: "table_dead ps1 (procs k')"
  proof (cases stop)
    case True
    have "table_dead ps' (procs k2)"
      by (rule list_all2_mono [OF schedule_now_rescheduled [OF inv1 k2(1), simplified]]) (rule stays_dead_rescheduled)
    then show ?thesis using table_dead_trans [OF t(3)] True by (simp add: k'_def)
  next
    case False
    then show ?thesis using t(3) by (simp add: k'_def)
  qed
  have "\<exists>q \<in> set (procs k'). p_pid q = p_pid p \<and> p_state q = Dead"
    if p: "p \<in> set (procs k)" "kill_selects which pgid p" "sig = 9" "handler (p_signal_actions p ! SIGKILL) \<le> SIG_IGN" for p
  proof -
    have g: "get_process (procs k) (p_pid p) = Some p" using get_process_in wf p(1) by blast
    have "proc_wf p" using wf p(1) by blast
    then obtain n q where q: "apply_signal_to_process p (nat sig) = Some (n, q)" "waits_less p q"
      "nat sig = SIGKILL \<longrightarrow> handler (p_signal_actions p ! SIGKILL) \<le> SIG_IGN \<longrightarrow> p_state q = Dead"
      using n by (rule apply_signal_result)
    have "p_pid p \<in> set ?ts" using p(1,2) by auto
    then have "get_process ps1 (p_pid p) = Some q" using t(4) g q(1) by simp
    then have "q \<in> set ps1" "p_state q = Dead" using get_process_Some q(3) p(3,4) by (auto simp: SIGKILL_def)
    then obtain r where "r \<in> set (procs k')" "stays_dead q r"
      using dead by (metis in_set_conv_nth list_all2_conv_all_nth)
    then show ?thesis using q(2) \<open>p_state q = Dead\<close> by (auto simp: stays_dead_def waits_less_def)
  qed
  then show ?thesis using goal [OF res] inv1 k2(2) by (auto simp: k'_def)
qed

section \<open>Creation and reaping\<close>

lemma kernel_inv_subset:
  assumes inv: "kernel_inv k" and ps: "set ps \<subseteq> set (procs k)" "distinct (map p_pid ps)"
  shows "kernel_inv (k\<lparr>procs := ps\<rparr>)"
proof -
  note c = core_inv_D [OF kernel_inv_D(1) [OF inv]]
  have core: "core_inv (k\<lparr>procs := ps\<rparr>)"
  proof (rule core_inv_I)
    show "table_wf (procs (k\<lparr>procs := ps\<rparr>))" using c(1) ps by (auto simp: table_wf_def)
    show "published_ok (k\<lparr>procs := ps\<rparr>)" using c(4) ps(1) by (auto simp: published_ok_def)
  qed (use c ps(1) in \<open>auto simp: lapic_ok_def\<close>)
  have "is_live_wait k i t" if "is_live_wait (k\<lparr>procs := ps\<rparr>) i t" for i t
    using that ps(1) unfolding is_live_wait_iff [OF core_inv_D(1) [OF core]] is_live_wait_iff [OF c(1)] by auto
  then have "armed_ok (k\<lparr>procs := ps\<rparr>)"
    by (intro armed_ok_mono [OF kernel_inv_D(2) [OF inv]]) simp_all
  with core show ?thesis by (simp add: kernel_inv_def)
qed

text \<open>A new process that waits for nothing, under a number nobody has.\<close>

lemma kernel_inv_spawn:
  assumes inv: "kernel_inv k" and p: "p_pid p \<notin> p_pid ` set (procs k)" "proc_wf p" "p_wait_token p = None"
    "p_state p \<noteq> Sleeping"
  shows "kernel_inv (k\<lparr>next_pid := n, procs := procs k @ [p]\<rparr>)" (is "kernel_inv ?k")
proof -
  note c = core_inv_D [OF kernel_inv_D(1) [OF inv]]
  have core: "core_inv ?k"
  proof (rule core_inv_I)
    show "table_wf (procs ?k)" using c(1) p(1,2) by (auto simp: table_wf_def)
    show "published_ok ?k" using c(4) p(3) by (auto simp: published_ok_def)
    fix q assume "q \<in> set (procs ?k)"
    then show "sleeper_ok (entries ?k) q" using c(6) p(4) by (auto simp: sleeper_ok_def)
  qed (use c in \<open>simp_all add: lapic_ok_def\<close>)
  have "is_live_wait k i t" if "is_live_wait ?k i t" for i t
    using that p(3) unfolding is_live_wait_iff [OF core_inv_D(1) [OF core]] is_live_wait_iff [OF c(1)] by auto
  then have "armed_ok ?k" by (intro armed_ok_mono [OF kernel_inv_D(2) [OF inv]]) simp_all
  with core show ?thesis by (simp add: kernel_inv_def)
qed

lemma child_simps [simp]:
  "p_pid (fork_child i p) = i" "p_wait_token (fork_child i p) = None" "p_state (fork_child i p) = Runnable"
  "proc_wf (fork_child i p) = proc_wf p" "p_is_thread (fork_child i p) = False"
  "p_parent_pid (fork_child i p) = p_pid p" "p_fd_table (fork_child i p) = p_fd_table p"
  "p_pgid (fork_child i p) = p_pgid p" "p_sid (fork_child i p) = p_sid p"
  "p_pid (thread_child i p) = i" "p_wait_token (thread_child i p) = None" "p_state (thread_child i p) = Runnable"
  "proc_wf (thread_child i p) = proc_wf p" "p_pgid (thread_child i p) = p_pgid p" "p_sid (thread_child i p) = p_sid p"
  by (simp_all add: fork_child_def thread_child_def proc_wf_def)

lemma next_pid_inv: "kernel_inv (k\<lparr>next_pid := n\<rparr>) = kernel_inv k"
  by (rule kernel_inv_cong) simp_all

lemma sys_fork_inv:
  assumes "kernel_inv k" "next_pid k \<notin> p_pid ` set (procs k)"
  shows "kernel_inv (snd (sys_fork ok k))"
proof (cases "get_process (procs k) (current k)")
  case None
  then show ?thesis using assms by (simp add: sys_fork_def)
next
  case (Some p)
  have "proc_wf p"
    using core_inv_D(1) [OF kernel_inv_D(1) [OF assms(1)]] get_process_Some [OF Some] by (simp add: table_wf_def)
  then have "kernel_inv (k\<lparr>next_pid := next_pid k + 1, procs := procs k @ [fork_child (next_pid k) p]\<rparr>)"
    using assms by (intro kernel_inv_spawn) simp_all
  then show ?thesis using Some assms next_pid_inv by (simp add: sys_fork_def alloc_pid_def)
qed

lemma sys_clone_inv:
  assumes "kernel_inv k" "next_pid k \<notin> p_pid ` set (procs k)"
  shows "kernel_inv (snd (sys_clone ok flags st k))"
proof (cases "get_process (procs k) (current k)")
  case None
  then show ?thesis using assms by (simp add: sys_clone_def)
next
  case (Some p)
  have "proc_wf p"
    using core_inv_D(1) [OF kernel_inv_D(1) [OF assms(1)]] get_process_Some [OF Some] by (simp add: table_wf_def)
  then have "kernel_inv (k\<lparr>next_pid := next_pid k + 1, procs := procs k @ [thread_child (next_pid k) p]\<rparr>)"
    using assms by (intro kernel_inv_spawn) simp_all
  then show ?thesis using Some assms next_pid_inv by (simp add: sys_clone_def alloc_pid_def)
qed

text \<open>The scan of \<^verbatim>\<open>wait4\<close>.\<close>

definition reportable :: "int \<Rightarrow> process \<Rightarrow> bool" where
  "reportable options p \<longleftrightarrow> p_state p = Dead \<or>
    options AND WUNTRACED \<noteq> 0 \<and> p_state p = Stopped \<and> \<not> p_wait_reported p"

lemma wait_scan_result:
  assumes "wait_scan which cur pgid options i ps = (has, hit)"
  shows "has \<longleftrightarrow> (\<exists>p \<in> set ps. is_child which cur pgid p)"
    "hit = None \<longleftrightarrow> \<not> (\<exists>p \<in> set ps. is_child which cur pgid p \<and> reportable options p)"
    "hit = Some (Reap n st) \<Longrightarrow> i \<le> n \<and> n - i < length ps \<and> is_child which cur pgid (ps ! (n - i)) \<and>
      p_state (ps ! (n - i)) = Dead \<and> st = p_wait_status (ps ! (n - i))"
    "hit = Some (Report n st) \<Longrightarrow> i \<le> n \<and> n - i < length ps \<and> is_child which cur pgid (ps ! (n - i)) \<and>
      p_state (ps ! (n - i)) = Stopped \<and> \<not> p_wait_reported (ps ! (n - i)) \<and> st = p_wait_status (ps ! (n - i))"
proof -
  have "has = (\<exists>p \<in> set ps. is_child which cur pgid p) \<and>
    (hit = None) = (\<not> (\<exists>p \<in> set ps. is_child which cur pgid p \<and> reportable options p)) \<and>
    (hit = Some (Reap n st) \<longrightarrow> i \<le> n \<and> n - i < length ps \<and> is_child which cur pgid (ps ! (n - i)) \<and>
      p_state (ps ! (n - i)) = Dead \<and> st = p_wait_status (ps ! (n - i))) \<and>
    (hit = Some (Report n st) \<longrightarrow> i \<le> n \<and> n - i < length ps \<and> is_child which cur pgid (ps ! (n - i)) \<and>
      p_state (ps ! (n - i)) = Stopped \<and> \<not> p_wait_reported (ps ! (n - i)) \<and> st = p_wait_status (ps ! (n - i)))"
    using assms
  proof (induction ps arbitrary: i has hit)
    case Nil
    then show ?case by simp
  next
    case (Cons p ps)
    obtain h t where ht: "wait_scan which cur pgid options (i + 1) ps = (h, t)" by fastforce
    note IH = Cons.IH [OF ht]
    have shift: "(p # ps) ! (n - i) = ps ! (n - (i + 1))" "n - i < length (p # ps) \<longleftrightarrow> n - (i + 1) < length ps"
      if "i + 1 \<le> n"
    proof -
      have "n - i = Suc (n - (i + 1))" using that by simp
      then show "(p # ps) ! (n - i) = ps ! (n - (i + 1))" "n - i < length (p # ps) \<longleftrightarrow> n - (i + 1) < length ps"
        by simp_all
    qed
    show ?case
    proof (cases "is_child which cur pgid p \<and> reportable options p")
      case True
      then show ?thesis using Cons.prems by (auto simp: reportable_def split: if_splits)
    next
      case False
      then have eq: "has = (is_child which cur pgid p \<or> h)" "hit = t"
        using Cons.prems ht by (auto simp: reportable_def split: if_splits)
      show ?thesis using IH False unfolding eq by (auto simp del: nth_Cons' simp: shift)
    qed
  qed
  then show "has \<longleftrightarrow> (\<exists>p \<in> set ps. is_child which cur pgid p)"
    "hit = None \<longleftrightarrow> \<not> (\<exists>p \<in> set ps. is_child which cur pgid p \<and> reportable options p)"
    "hit = Some (Reap n st) \<Longrightarrow> i \<le> n \<and> n - i < length ps \<and> is_child which cur pgid (ps ! (n - i)) \<and>
      p_state (ps ! (n - i)) = Dead \<and> st = p_wait_status (ps ! (n - i))"
    "hit = Some (Report n st) \<Longrightarrow> i \<le> n \<and> n - i < length ps \<and> is_child which cur pgid (ps ! (n - i)) \<and>
      p_state (ps ! (n - i)) = Stopped \<and> \<not> p_wait_reported (ps ! (n - i)) \<and> st = p_wait_status (ps ! (n - i))"
    by auto
qed

lemma set_remove_nth:
  assumes "i < length xs" "distinct (map f xs)"
  shows "set (take i xs @ drop (i + 1) xs) = {x \<in> set xs. f x \<noteq> f (xs ! i)}" "distinct (map f (take i xs @ drop (i + 1) xs))"
proof -
  have xs: "xs = take i xs @ xs ! i # drop (i + 1) xs" using id_take_nth_drop [OF assms(1)] by simp
  have d: "distinct (map f (take i xs @ xs ! i # drop (i + 1) xs))" using assms(2) xs by simp
  then show "distinct (map f (take i xs @ drop (i + 1) xs))" by (auto simp del: take_map drop_map)
  have "set xs = set (take i xs @ xs ! i # drop (i + 1) xs)" using xs by metis
  then show "set (take i xs @ drop (i + 1) xs) = {x \<in> set xs. f x \<noteq> f (xs ! i)}" using d by (auto simp: image_iff)
qed

lemma reap_at_result:
  assumes "i < length ps" "distinct (map p_pid ps)"
  shows "set (reap_at i ps) =
      {q \<in> set ps. p_pid q \<noteq> p_pid (ps ! i) \<and> \<not> (p_is_thread q \<and> p_tgid q = p_tgid (ps ! i))}"
    "distinct (map p_pid (reap_at i ps))"
  using set_remove_nth [OF assms] by (auto simp: reap_at_def intro: distinct_map_filter)

end
