(* ===== verification/Kernel_Steps.thy ===== *)
theory Kernel_Steps
  imports Lifecycle
begin

text \<open>
  The kernel as a transition system: the operations of the wait, scheduling and process-lifetime code
  as a step relation, the invariant of the reachable states, and what it gives for whole
  executions.  One processor runs one operation at a time; an interrupt is a step of its own.
\<close>

section \<open>Steps\<close>

text \<open>The process that runs is not asleep; the steps that only a running process takes require it.\<close>

definition awake :: "kernel \<Rightarrow> bool" where
  "awake k \<longleftrightarrow> (case get_process (procs k) (current k) of None \<Rightarrow> True | Some p \<Rightarrow> p_state p \<noteq> Sleeping)"

definition pid_free :: "kernel \<Rightarrow> bool" where
  "pid_free k \<longleftrightarrow> next_pid k \<notin> p_pid ` set (procs k)"

inductive kstep :: "kernel \<Rightarrow> kernel \<Rightarrow> bool" where
  Timer: "apic_timer_preempt t1 t2 t3 t4 u k = Some k' \<Longrightarrow> kstep k k'"
| Block: "reserve_ok reserve \<Longrightarrow> block_publish reserve now d k = Some (r, k') \<Longrightarrow> kstep k k'"
| Resume: "kstep k (snd (read_and_clear_wake_reason now d (current k) k))"
| Await: "reserve_ok reserve \<Longrightarrow> awake k \<Longrightarrow> await_io_enter reserve now tmo out k = Some (r, k') \<Longrightarrow> kstep k k'"
| Cancel: "awake k \<Longrightarrow> kstep k (cancel_owned t k)"
| Wake: "wake_process now i k = Some k' \<Longrightarrow> kstep k k'"
| Signal: "queue_signal now i sig k = Some (b, k') \<Longrightarrow> kstep k k'"
| Yield: "schedule_now now k = Some (b, k') \<Longrightarrow> kstep k k'"
| Fork: "pid_free k \<Longrightarrow> kstep k (snd (sys_fork ok k))"
| Clone: "pid_free k \<Longrightarrow> kstep k (snd (sys_clone ok flags stack k))"
| Exit: "exit_proc now code k = Some (b, k') \<Longrightarrow> kstep k k'"
| Terminate: "terminate_current_by_signal now s k = Some (b, k') \<Longrightarrow> kstep k k'"
| Kill: "0 < s \<Longrightarrow> sys_kill now which s k = Some (r', k') \<Longrightarrow> kstep k k'"
| Wait: "wait4 now which options k = Some (w, k') \<Longrightarrow> kstep k k'"
| Hlt_Arm: "arm_kernel_hlt_wake now d k = Some k' \<Longrightarrow> kstep k k'"
| Hlt_Clear: "clear_kernel_hlt_wake now k = Some k' \<Longrightarrow> kstep k k'"

inductive reach :: "kernel \<Rightarrow> kernel \<Rightarrow> bool" where
  Here: "reach k k"
| Step: "reach k k' \<Longrightarrow> kstep k' k'' \<Longrightarrow> reach k k''"

inductive_cases reach_cases: "reach k k'"

lemma reach_trans:
  assumes "reach k' k''" "reach k k'"
  shows "reach k k''"
  using assms by (induction rule: reach.induct) (auto intro: reach.Step)

section \<open>The invariant of the reachable states\<close>

text \<open>\<^verbatim>\<open>wait4\<close> for accepted options, with the scan and the yield already evaluated.\<close>

definition caller_pgid :: "kernel \<Rightarrow> u16" where
  "caller_pgid k = (case get_process (procs k) (current k) of None \<Rightarrow> current k | Some p \<Rightarrow> p_pgid p)"

definition wait_options_ok :: "int \<Rightarrow> bool" where
  "wait_options_ok options \<longleftrightarrow> options AND NOT (WNOHANG OR WUNTRACED OR WCONTINUED) = 0"

lemma kill_inv:
  assumes inv: "kernel_inv k" and s: "0 < s" and e: "sys_kill now which s k = Some (r, k')"
  shows "kernel_inv k'"
proof -
  let ?pgid = "caller_pgid k"
  show ?thesis
  proof (cases "s \<le> 64 \<and> - 65535 \<le> which \<and> which \<le> 65535 \<and> filter (kill_selects which ?pgid) (procs k) \<noteq> []")
    case True
    with sys_kill_result [OF inv s _ _ _ caller_pgid_def, of which now] e show ?thesis by auto
  next
    case False
    have "kill_selects which ?pgid p = False" if "65535 < which" for p using that by (simp add: kill_selects_def)
    then have "k' = k"
      using False e s unfolding sys_kill_def caller_pgid_def [symmetric]
      by (auto simp: valid_signal_def Let_def split: if_splits)
    with inv show ?thesis by simp
  qed
qed

lemma wait4_eq:
  assumes inv: "kernel_inv k" and ok: "wait_options_ok options"
    and sc: "wait_scan which (current k) (caller_pgid k) options 0 (procs k) = (has, hit)"
  obtains b k2 where "kernel_inv k2" "wait4 now which options k =
    (case hit of
       Some (Reap i status) \<Rightarrow> Some (Waited (p_pid (procs k ! i)) status, k\<lparr>procs := reap_at i (procs k)\<rparr>)
     | Some (Report i status) \<Rightarrow>
         Some (Waited (p_pid (procs k ! i)) status,
           k\<lparr>procs := (procs k)[i := (procs k ! i)\<lparr>p_wait_reported := True\<rparr>]\<rparr>)
     | None \<Rightarrow>
         if \<not> has then Some (WaitError (- ECHILD), k)
         else if options AND WNOHANG \<noteq> 0 then Some (Nothing_Yet, k) else Some (Blocked b, k2))"
proof -
  note goal = that
  define k1 where "k1 = (case get_process (procs k) (current k) of None \<Rightarrow> k
    | Some me \<Rightarrow> k\<lparr>procs := set_process (procs k) (current k) (me\<lparr>p_state := Waiting\<rparr>)\<rparr>)"
  have inv1: "kernel_inv k1"
  proof (cases "get_process (procs k) (current k)")
    case None
    with inv show ?thesis by (simp add: k1_def)
  next
    case (Some me)
    have "waits_less me (me\<lparr>p_state := Waiting\<rparr>)" by (simp add: waits_less_state)
    from kernel_inv_set_process [OF inv Some this] Some show ?thesis by (simp add: k1_def)
  qed
  obtain b k2 where k2: "schedule_now now k1 = Some (b, k2)" "kernel_inv k2"
    by (rule schedule_now_inv [OF inv1])
  show ?thesis
    by (rule goal [of k2 b, OF k2(2)])
      (use ok k2(1) in \<open>unfold wait4_def Let_def caller_pgid_def [symmetric] sc k1_def [symmetric],
        cases hit, simp_all add: wait_options_ok_def split: if_splits\<close>)
qed

lemma wait4_inv:
  assumes inv: "kernel_inv k" and e: "wait4 now which options k = Some (w, k')"
  shows "kernel_inv k'"
proof (cases "wait_options_ok options")
  case False
  then have "k' = k" using e unfolding wait4_def wait_options_ok_def by simp
  with inv show ?thesis by simp
next
  case True
  obtain has hit where sc: "wait_scan which (current k) (caller_pgid k) options 0 (procs k) = (has, hit)" by fastforce
  note r = wait_scan_result [OF sc]
  have d: "distinct (map p_pid (procs k))"
    using core_inv_D(1) [OF kernel_inv_D(1) [OF inv]] by (simp add: table_wf_def)
  have reap: "kernel_inv (k\<lparr>procs := reap_at n (procs k)\<rparr>)" if h: "hit = Some (Reap n st)" for n st
  proof -
    have "n < length (procs k)" using r(3) [OF h] by simp
    from reap_at_result [OF this d] show ?thesis by (intro kernel_inv_subset [OF inv]) auto
  qed
  have report: "kernel_inv (k\<lparr>procs := (procs k)[n := (procs k ! n)\<lparr>p_wait_reported := True\<rparr>]\<rparr>)"
    if h: "hit = Some (Report n st)" for n st
  proof -
    have "n < length (procs k)" using r(4) [OF h] by simp
    then show ?thesis by (intro kernel_inv_procs [OF inv] table_less_update) simp_all
  qed
  show ?thesis
    by (rule wait4_eq [OF inv True sc, of now])
      (use e inv reap report in \<open>auto split: option.splits wait_hit.splits if_splits\<close>)
qed

lemma rearm_inv:
  assumes "kernel_inv k" "rearm now (k\<lparr>hlt_deadline := d\<rparr>) = Some k'"
  shows "kernel_inv k'"
proof -
  have "core_inv (k\<lparr>hlt_deadline := d\<rparr>)"
    using kernel_inv_D(1) [OF assms(1)] core_inv_cong [of "k\<lparr>hlt_deadline := d\<rparr>" k] by simp
  then obtain k1 where "rearm now (k\<lparr>hlt_deadline := d\<rparr>) = Some k1" "core_inv k1" "armed_ok k1"
    by (rule rearm_result)
  with assms(2) show ?thesis by (simp add: kernel_inv_def)
qed

lemma awake_D: "awake k \<Longrightarrow> get_process (procs k) (current k) = Some p \<Longrightarrow> p_state p \<noteq> Sleeping"
  by (simp add: awake_def)

theorem kstep_inv:
  assumes "kstep k k'" "kernel_inv k"
  shows "kernel_inv k'"
  using assms
proof (induction rule: kstep.induct)
  case (Timer t1 t2 t3 t4 u k k')
  then show ?case using apic_timer_preempt_inv [of k t1 t2 t3 t4 u] by force
next
  case (Block reserve now d k r k')
  then show ?case using block_publish_result [of k reserve now d] by force
next
  case (Resume k now d)
  then show ?case by (rule read_and_clear_inv)
next
  case (Await reserve k now tmo out r k')
  then show ?case using await_io_enter_inv [of k reserve now tmo out] awake_D by (metis option.inject prod.inject)
next
  case (Cancel k t)
  then show ?case using cancel_owned_inv awake_D by blast
next
  case (Wake now i k k')
  then show ?case using wake_process_result [of k now i] by force
next
  case (Signal now i sig k b k')
  then show ?case using queue_signal_inv [of k now i sig] by force
next
  case (Yield now k b k')
  then show ?case using schedule_now_inv [of k now] by force
next
  case (Fork k ok)
  then show ?case using sys_fork_inv by (simp add: pid_free_def)
next
  case (Clone k ok flags stack)
  then show ?case using sys_clone_inv by (simp add: pid_free_def)
next
  case (Exit now code k b k')
  then show ?case using exit_proc_inv [of k now code] by force
next
  case (Terminate now s k b k')
  then show ?case using terminate_inv [of k now s] by force
next
  case (Kill s now which k r k')
  then show ?case using kill_inv by blast
next
  case (Wait now which options k w k')
  then show ?case using wait4_inv by blast
next
  case (Hlt_Arm now d k k')
  then show ?case using rearm_inv by (simp add: arm_kernel_hlt_wake_def)
next
  case (Hlt_Clear now k k')
  then show ?case using rearm_inv by (simp add: clear_kernel_hlt_wake_def)
qed

lemma reach_inv: "reach k k' \<Longrightarrow> kernel_inv k \<Longrightarrow> kernel_inv k'"
  by (induction rule: reach.induct) (auto intro: kstep_inv)

section \<open>Boot\<close>

text \<open>The statics as the kernel image holds them, with a process table and no wait pending.\<close>

definition boot_kernel :: "process list \<Rightarrow> u16 \<Rightarrow> u16 \<Rightarrow> kernel" where
  "boot_kernel ps cur nxt =
    \<lparr>preempt_count = 0, irq_depth = 0, in_scheduler = False, irq_disable_depth = 0,
     interrupts_enabled = True, need_resched = False, quantum_deadline = 0, held_lock_count = 0,
     fault_context = 0, allocator_context = 0, process_table_context = 0, vfs_context = 0,
     pagetable_context = 0, procs = ps, current = cur, tq = timer_queue_new, deferred_expiry = False,
     armed = ARMED_NONE, hlt_deadline = 0, lapic_ce = None,
     lapic = \<lparr>lvt_timer = MASKED, tdcr = DIVIDE_BY_16, ticr = 0\<rparr>, timer_events = 0, next_pid = nxt\<rparr>"

definition booted :: "process list \<Rightarrow> bool" where
  "booted ps \<longleftrightarrow> distinct (map p_pid ps) \<and>
    list_all (\<lambda>p. length (p_signal_actions p) = 65 \<and> p_state p \<noteq> Sleeping \<and> p_wait_token p = None) ps"

lemma boot_inv:
  assumes "booted ps"
  shows "kernel_inv (boot_kernel ps cur nxt)"
proof -
  let ?k = "boot_kernel ps cur nxt"
  have "core_inv ?k"
    using assms
    by (intro core_inv_I)
      (auto simp: booted_def boot_kernel_def table_wf_def proc_wf_def SIGNAL_COUNT_def timer_queue_new_def tq_inv_def
        heap_ordered_def tokens_ok_def tq_entries_def published_ok_def lapic_ok_def sleeper_ok_def list_all_iff
        ordered_def)
  moreover have "armed_ok ?k"
    by (simp add: armed_ok_def boot_kernel_def quantum_deadline_ns_def hlt_deadline_ns_def tq_entries_def
        timer_queue_new_def live_entries_def)
  ultimately show ?thesis by (simp add: kernel_inv_def)
qed

lemma boot_reach_inv: "booted ps \<Longrightarrow> reach (boot_kernel ps cur nxt) k \<Longrightarrow> kernel_inv k"
  using reach_inv boot_inv by blast

section \<open>Wakeups\<close>

lemma sleeper_entry:
  assumes "kernel_inv k" "p \<in> set (procs k)" "p_state p = Sleeping"
  obtains t d where "p_wait_token p = Some t" "p_wait_deadline_ns p = Some d"
    "sleep_entry p t d \<in># live k" "armed k \<le> d"
proof -
  note c = core_inv_D [OF kernel_inv_D(1) [OF assms(1)]]
  obtain t d where td: "p_wait_token p = Some t" "p_wait_deadline_ns p = Some d" "sleep_entry p t d \<in># entries k"
    using c(6) [OF assms(2)] assms(3) by (auto simp: sleeper_ok_def)
  have "is_live_wait k (p_pid p) t"
    unfolding is_live_wait_iff [OF c(1)] using assms(2) td(1) by blast
  then have l: "sleep_entry p t d \<in># live k"
    using td(3) by (simp add: in_live_entries is_live_entry_def sleep_entry_def)
  then have "armed k \<le> d"
    using kernel_inv_D(2) [OF assms(1)] by (force simp: armed_ok_def sleep_entry_def)
  with td l that show ?thesis by blast
qed

text \<open>A due sleeper seen through one expiry pass.\<close>

lemma expired_sleeper:
  assumes inv: "kernel_inv k" and p: "p_state p = Sleeping" "p \<in> set (procs k)" "p_wait_deadline_ns p = Some d"
    and q: "expired_proc now (entries k) p q"
  shows "q = p \<or> d \<le> now \<and> q = woken Sleep p"
proof -
  obtain t where t: "p_wait_token p = Some t" "sleep_entry p t d \<in># entries k"
    using sleeper_entry [OF inv p(2,1)] p(3) by (auto simp: in_live_entries)
  have "deadline_ns e = d \<and> kind e = Sleep"
    if e: "e \<in># entries k" "waits_for e p" for e
  proof -
    have "token e = token (sleep_entry p t d)" using e(2) t(1) by (simp add: waits_for_def sleep_entry_def)
    then have "e = sleep_entry p t d"
      using tokens_ok_unique [OF core_inv_D(3) [OF kernel_inv_D(1) [OF inv]] e(1) t(2)] by simp
    then show ?thesis by (simp add: sleep_entry_def)
  qed
  then show ?thesis using q by (auto simp: expired_proc_def)
qed

text \<open>The timer interrupt up to the scheduling decision.\<close>

lemma interrupt_expiry:
  assumes inv: "kernel_inv k" and t: "t1 \<le> t2"
  obtains k1 k2 where "handle_timer_event t1 (irq_enter k) = Some k1"
    "process_deferred_expiry t2 t3 (irq_exit k1) = Some k2" "kernel_inv k2"
    "list_all2 (\<lambda>p q. p_state p = Sleeping \<longrightarrow> (case p_wait_deadline_ns p of
        None \<Rightarrow> False | Some d \<Rightarrow> (d \<le> t1 \<longrightarrow> q = woken Sleep p) \<and> (t2 < d \<longrightarrow> q = p))) (procs k) (procs k2)"
proof -
  note goal = that
  have invi: "kernel_inv (irq_enter k)" using inv by simp
  obtain k1 where k1: "handle_timer_event t1 (irq_enter k) = Some k1" "kernel_inv k1"
    "list_all2 (expired_proc t1 (entries k)) (procs k) (procs k1)" "entries k1 \<subseteq># entries k"
    "\<not> deferred_expiry k1 \<longrightarrow> (\<forall>e \<in># live k1. t1 < deadline_ns e)"
    by (rule handle_timer_event_result [OF kernel_inv_D(1) [OF invi], of t1]) simp
  have inv1: "kernel_inv (irq_exit k1)" using k1(2) by simp
  obtain k2 where k2: "process_deferred_expiry t2 t3 (irq_exit k1) = Some k2" "kernel_inv k2"
    "list_all2 (expired_proc t2 (entries k1)) (procs k1) (procs k2)"
    "if deferred_expiry k1 then \<forall>e \<in># live k2. t2 < deadline_ns e else k2 = irq_exit k1"
    by (rule process_deferred_result [OF inv1, of t2 t3]) simp
  have lens: "length (procs k1) = length (procs k)" "length (procs k2) = length (procs k)"
    using list_all2_lengthD [OF k1(3)] list_all2_lengthD [OF k2(3)] by simp_all
  have gone: "t1 < d" if g: "p \<in> set (procs k2)" "p_state p = Sleeping" "p_wait_deadline_ns p = Some d" for p d
  proof -
    obtain t where e: "sleep_entry p t d \<in># live k2" using sleeper_entry [OF k2(2) g(1,2)] g(3) by auto
    have "\<forall>e \<in># live k2. t1 < deadline_ns e"
    proof (cases "deferred_expiry k1")
      case True
      with k2(4) t show ?thesis by (auto intro: order.strict_trans1)
    next
      case False
      have "is_live_wait (irq_exit k1) = is_live_wait k1" by (rule live_cong) simp
      with False k2(4) k1(5) show ?thesis by simp
    qed
    with e show ?thesis by (auto simp: sleep_entry_def)
  qed
  show ?thesis
  proof (rule goal [OF k1(1) k2(1,2)], unfold list_all2_conv_all_nth, intro conjI allI impI)
    fix i assume i: "i < length (procs k)" and s: "p_state (procs k ! i) = Sleeping"
    let ?p = "procs k ! i" and ?q = "procs k1 ! i" and ?r = "procs k2 ! i"
    have pin: "?p \<in> set (procs k)" "?q \<in> set (procs k1)" "?r \<in> set (procs k2)" using i lens by simp_all
    obtain d where d: "p_wait_deadline_ns ?p = Some d" using sleeper_entry [OF inv pin(1) s] by auto
    have q: "?q = ?p \<or> d \<le> t1 \<and> ?q = woken Sleep ?p"
      by (rule expired_sleeper [OF inv s pin(1) d list_all2_nthD [OF k1(3) i]])
    have x: "expired_proc t2 (entries k1) ?q ?r" by (rule list_all2_nthD [OF k2(3)]) (use i lens in simp)
    have "(d \<le> t1 \<longrightarrow> ?r = woken Sleep ?p) \<and> (t2 < d \<longrightarrow> ?r = ?p)"
    proof (cases "?q = ?p")
      case True
      then have r: "?r = ?p \<or> d \<le> t2 \<and> ?r = woken Sleep ?p"
        using expired_sleeper [OF k1(2), of ?q d t2 ?r] s d pin(2) x by simp
      show ?thesis using r gone [OF pin(3)] s d by auto
    next
      case False
      with q have w: "d \<le> t1" "?q = woken Sleep ?p" by blast+
      then have "?r = ?q" using x by (auto simp: expired_proc_def waits_for_def)
      with w t show ?thesis by auto
    qed
    with d show "case p_wait_deadline_ns ?p of None \<Rightarrow> False
      | Some d \<Rightarrow> (d \<le> t1 \<longrightarrow> ?r = woken Sleep ?p) \<and> (t2 < d \<longrightarrow> ?r = ?p)" by simp
  qed (use lens in simp)
qed

lemma interrupt_result:
  assumes inv: "kernel_inv k" and t: "t1 \<le> t2"
  obtains k' where "apic_timer_preempt t1 t2 t3 t4 u k = Some k'" "kernel_inv k'"
    "list_all2 (\<lambda>p q. p_state p = Sleeping \<longrightarrow> (case p_wait_deadline_ns p of
        None \<Rightarrow> False
      | Some d \<Rightarrow> (d \<le> t1 \<longrightarrow> rescheduled (woken Sleep p) q) \<and> (t2 < d \<longrightarrow> q = p))) (procs k) (procs k')"
proof -
  note goal = that
  obtain k1 k2 where k12: "handle_timer_event t1 (irq_enter k) = Some k1"
    "process_deferred_expiry t2 t3 (irq_exit k1) = Some k2" "kernel_inv k2"
    "list_all2 (\<lambda>p q. p_state p = Sleeping \<longrightarrow> (case p_wait_deadline_ns p of
        None \<Rightarrow> False | Some d \<Rightarrow> (d \<le> t1 \<longrightarrow> q = woken Sleep p) \<and> (t2 < d \<longrightarrow> q = p))) (procs k) (procs k2)"
    by (rule interrupt_expiry [OF inv t])
  obtain b k3 where k3: "schedule_now t4 k2 = Some (b, k3)" "kernel_inv k3"
    by (rule schedule_now_inv [OF k12(3)])
  define k' where "k' = (if u \<or> ENABLE_KERNEL_PREEMPTION \<and> can_preempt_kernel k2 then k3 else k2)"
  have eq: "apic_timer_preempt t1 t2 t3 t4 u k = Some k'"
    using k12(1,2) k3(1) by (simp add: apic_timer_preempt_def timer_preempt_common_def k'_def)
  have sc: "list_all2 rescheduled (procs k2) (procs k')"
    using schedule_now_rescheduled [OF k12(3) k3(1)] by (simp add: k'_def list_all2_refl)
  have asleep: "q = p" if "rescheduled p q" "p_state p = Sleeping" for p q
    using that by (auto simp: rescheduled_def)
  show ?thesis
  proof (rule goal [OF eq])
    show "kernel_inv k'" using k12(3) k3(2) by (simp add: k'_def)
    show "list_all2 (\<lambda>p q. p_state p = Sleeping \<longrightarrow> (case p_wait_deadline_ns p of
        None \<Rightarrow> False
      | Some d \<Rightarrow> (d \<le> t1 \<longrightarrow> rescheduled (woken Sleep p) q) \<and> (t2 < d \<longrightarrow> q = p))) (procs k) (procs k')"
      using list_all2_comp [OF k12(4) sc]
      by (rule list_all2_mono) (auto split: option.splits dest: asleep)
  qed
qed

text \<open>A table with init and one running child, for the examples.\<close>

definition demo_proc :: "u16 \<Rightarrow> u16 \<Rightarrow> process_state \<Rightarrow> process" where
  "demo_proc i pp st =
    \<lparr>p_pid = i, p_tgid = i, p_is_thread = False, p_parent_pid = pp, p_pgid = i, p_sid = 1, p_state = st,
     p_fd_table = [], p_exit_code = 0, p_wait_status = 0, p_wait_reported = False, p_pending_io = False,
     p_signal_actions = replicate 65 \<lparr>handler = 0, sa_mask = (0, 0), sa_flags = 0, restorer = 0\<rparr>,
     p_signal_mask = (0, 0), p_pending_signals = 0, p_sigsuspend_saved_mask = (0, 0),
     p_in_sigsuspend = False, p_wait_token = None, p_wait_deadline_ns = None, p_wake_reason = None\<rparr>"

definition demo_table :: "process list" where
  "demo_table = [demo_proc 1 0 Runnable, demo_proc 2 1 Running]"

definition demo_kernel :: kernel where
  "demo_kernel = boot_kernel demo_table 2 3"

lemma demo_booted: "booted demo_table"
  by code_simp

lemma demo_block: "map_option fst (block_publish (\<lambda>n. Some (n + 4)) 0 1000 demo_kernel) = Some (Inr 1)"
  by code_simp

definition demo_asleep :: kernel where
  "demo_asleep = snd (the (block_publish (\<lambda>n. Some (n + 4)) 0 1000 demo_kernel))"

lemma demo_reach: "reach (boot_kernel demo_table 2 3) demo_asleep"
proof -
  have "block_publish (\<lambda>n. Some (n + 4)) 0 1000 demo_kernel = Some (Inr 1, demo_asleep)"
    using demo_block by (auto simp: demo_asleep_def)
  then have "kstep demo_kernel demo_asleep"
    by (rule kstep.Block [rotated]) (simp add: reserve_ok_def)
  then show ?thesis unfolding demo_kernel_def by (rule reach.Step [OF reach.Here])
qed

lemma demo_sleeper:
  "length (procs demo_asleep) = 2" "p_state (procs demo_asleep ! 1) = Sleeping"
  "p_wait_deadline_ns (procs demo_asleep ! 1) = Some 1000" "p_pid (procs demo_asleep ! 1) = 2"
  by code_simp+

lemma demo_sleeper_in: "procs demo_asleep ! 1 \<in> set (procs demo_asleep)"
  using demo_sleeper(1) by simp

section \<open>Properties of executions\<close>





text \<open>
  C12. No wakeup comes early: the timer interrupt leaves a sleeping process exactly as it was when
  its deadline is later than the last clock reading the expiry code made.
\<close>

theorem no_early_wakeup:
  assumes "booted ps" "reach (boot_kernel ps cur nxt) k" "t1 \<le> t2"
    "apic_timer_preempt t1 t2 t3 t4 u k = Some k'" "p \<in> set (procs k)" "p_state p = Sleeping"
    "p_wait_deadline_ns p = Some d" "t2 < d"
  shows "p \<in> set (procs k')"
proof -
  have inv: "kernel_inv k" using assms(1,2) by (rule boot_reach_inv)
  obtain k'' where k': "apic_timer_preempt t1 t2 t3 t4 u k = Some k''"
    "list_all2 (\<lambda>p q. p_state p = Sleeping \<longrightarrow> (case p_wait_deadline_ns p of
        None \<Rightarrow> False
      | Some d \<Rightarrow> (d \<le> t1 \<longrightarrow> rescheduled (woken Sleep p) q) \<and> (t2 < d \<longrightarrow> q = p))) (procs k) (procs k'')"
    by (rule interrupt_result [OF inv assms(3)])
  obtain i where i: "i < length (procs k)" "procs k ! i = p" using assms(5) by (auto simp: in_set_conv_nth)
  have "procs k'' ! i = p" using list_all2_nthD [OF k'(2) i(1)] i(2) assms(6-8) by simp
  then have "p \<in> set (procs k'')" using list_all2_lengthD [OF k'(2)] i(1) nth_mem by metis
  with k'(1) assms(4) show ?thesis by simp
qed

theorem no_early_wakeup_witness:
  "\<exists>k'. apic_timer_preempt 500 600 700 800 True demo_asleep = Some k' \<and>
    procs demo_asleep ! 1 \<in> set (procs k')"
proof -
  have "kernel_inv demo_asleep" by (rule boot_reach_inv [OF demo_booted demo_reach])
  then obtain k' where k': "apic_timer_preempt 500 600 700 800 True demo_asleep = Some k'"
    by (rule apic_timer_preempt_inv)
  with no_early_wakeup [OF demo_booted demo_reach _ k' demo_sleeper_in demo_sleeper(2,3)] show ?thesis by simp
qed

section \<open>Properties of the process lifetime\<close>

text \<open>
  C11. A process that exits (in any reachable state, holding no guard) becomes a zombie: it is dead, with
  the exit code and the wait status that encodes it, no descriptors and no pending wait; nobody
  leaves the table; and if init is there, no process keeps the dead one as its parent.
\<close>

theorem exit_leaves_no_orphans:
  assumes "booted ps" "reach (boot_kernel ps cur nxt) k" "fst (scheduler_try_enter k)"
    "find_process_index (procs k) (current k) = Some c" "\<not> p_is_thread (procs k ! c)"
  shows "\<exists>b k'. exit_proc now code k = Some (b, k') \<and>
    zombie (current k) code (push_bit 8 (code AND 0xff)) (procs k' ! c) \<and>
    map p_pid (procs k') = map p_pid (procs k) \<and>
    (current k = 1 \<or> 1 \<notin> p_pid ` set (procs k) \<or> (\<forall>q \<in> set (procs k'). \<not> is_orphan (current k) q))"
proof -
  have inv: "kernel_inv k" using assms(1,2) by (rule boot_reach_inv)
  have g: "scheduler_try_enter k = (True, snd (scheduler_try_enter k))"
    using assms(3) by (metis prod.collapse)
  obtain b k' where "exit_proc now code k = Some (b, k')" "exited c code (push_bit 8 (code AND 0xff)) k k'"
    by (rule exit_proc_result [OF inv g assms(4,5)])
  then show ?thesis unfolding exited_def by blast
qed

theorem exit_leaves_no_orphans_witness:
  "\<exists>b k'. exit_proc 5 7 demo_kernel = Some (b, k') \<and> zombie 2 7 1792 (procs k' ! 1)"
proof -
  have "fst (scheduler_try_enter demo_kernel)" "find_process_index (procs demo_kernel) (current demo_kernel) = Some 1"
    "\<not> p_is_thread (procs demo_kernel ! 1)" "current demo_kernel = 2" by code_simp+
  with exit_leaves_no_orphans [OF demo_booted reach.Here, of 2 3 1 5 7, folded demo_kernel_def] show ?thesis by auto
qed

text \<open>
  C22. \<^verbatim>\<open>exit_group\<close> ends every thread of the group at once, and the leader's entry carries the
  wait status.
\<close>

theorem exit_group_kills_group:
  assumes "booted ps" "reach (boot_kernel ps cur nxt) k" "fst (scheduler_try_enter k)"
    "find_process_index (procs k) (current k) = Some c"
    "find_process_index (procs k) (p_tgid (procs k ! c)) = Some l"
  shows "\<exists>b k'. exit_group now code k = Some (b, k') \<and>
    (\<forall>p \<in> set (procs k'). p_tgid p = p_tgid (procs k ! c) \<longrightarrow> p_state p = Dead) \<and>
    p_wait_status (procs k' ! l) = push_bit 8 (code AND 0xff)"
proof -
  have inv: "kernel_inv k" using assms(1,2) by (rule boot_reach_inv)
  have g: "scheduler_try_enter k = (True, snd (scheduler_try_enter k))"
    using assms(3) by (metis prod.collapse)
  show ?thesis by (rule exit_group_result [OF inv g assms(4,5)]) blast
qed

theorem exit_group_kills_group_witness:
  "\<exists>b k'. exit_group 5 7 demo_kernel = Some (b, k') \<and> p_wait_status (procs k' ! 1) = 1792"
proof -
  have "fst (scheduler_try_enter demo_kernel)" "find_process_index (procs demo_kernel) (current demo_kernel) = Some 1"
    "find_process_index (procs demo_kernel) (p_tgid (procs demo_kernel ! 1)) = Some 1" by code_simp+
  with exit_group_kills_group [OF demo_booted reach.Here, of 2 3 1 1 5 7, folded demo_kernel_def] show ?thesis by auto
qed

text \<open>
  C9. SIGKILL cannot be escaped: \<^verbatim>\<open>kill\<close> with signal 9 returns 0 and every process it selects is dead
  afterwards, whatever its state and its signal mask, as long as no handler for SIGKILL was
  installed (which \<^verbatim>\<open>rt_sigaction\<close> refuses).
\<close>

theorem sigkill_kills:
  assumes "booted ps" "reach (boot_kernel ps cur nxt) k" "- 65535 \<le> which" "which \<le> 65535"
    "p \<in> set (procs k)" "kill_selects which (caller_pgid k) p"
    "handler (p_signal_actions p ! SIGKILL) \<le> SIG_IGN"
  shows "\<exists>k'. sys_kill now which 9 k = Some (0, k') \<and>
    (\<exists>q \<in> set (procs k'). p_pid q = p_pid p \<and> p_state q = Dead)"
proof -
  have inv: "kernel_inv k" using assms(1,2) by (rule boot_reach_inv)
  have "filter (kill_selects which (caller_pgid k)) (procs k) \<noteq> []"
    using assms(5,6) by (auto simp: filter_empty_conv)
  then obtain k' where "sys_kill now which 9 k = Some (0, k')"
    "\<forall>p \<in> set (procs k). kill_selects which (caller_pgid k) p \<longrightarrow> (9 :: int) = 9 \<longrightarrow>
      handler (p_signal_actions p ! SIGKILL) \<le> SIG_IGN \<longrightarrow>
      (\<exists>q \<in> set (procs k'). p_pid q = p_pid p \<and> p_state q = Dead)"
    by (rule sys_kill_result [OF inv _ _ assms(3,4) caller_pgid_def, where sig = 9 and now = now, rotated 2]) simp_all
  with assms(5-7) show ?thesis by blast
qed

theorem sigkill_kills_witness:
  "\<exists>k'. sys_kill 5 (- 1) 9 demo_asleep = Some (0, k') \<and>
    (\<exists>q \<in> set (procs k'). p_pid q = 2 \<and> p_state q = Dead)"
proof -
  have "kill_selects (- 1) (caller_pgid demo_asleep) (procs demo_asleep ! 1)"
    "handler (p_signal_actions (procs demo_asleep ! 1) ! SIGKILL) \<le> SIG_IGN" by code_simp+
  with sigkill_kills [OF demo_booted demo_reach _ _ demo_sleeper_in, of "- 1" 5] demo_sleeper(4)
  show ?thesis by simp
qed

text \<open>
  C10. \<^verbatim>\<open>wait4\<close> reports a child and its own status.  A dead child is taken out of the table with its
  threads, and no other process is; a stopped one stays.
\<close>

theorem wait4_reaps:
  assumes "booted ps" "reach (boot_kernel ps cur nxt) k" "wait4 now which options k = Some (Waited i st, k')"
  shows "\<exists>p \<in> set (procs k). p_pid p = i \<and> is_child which (current k) (caller_pgid k) p \<and> st = p_wait_status p \<and>
    (p_state p = Dead \<and> set (procs k') =
       {q \<in> set (procs k). p_pid q \<noteq> i \<and> \<not> (p_is_thread q \<and> p_tgid q = p_tgid p)} \<or>
     p_state p = Stopped \<and> map p_pid (procs k') = map p_pid (procs k))"
proof -
  have inv: "kernel_inv k" using assms(1,2) by (rule boot_reach_inv)
  have ok: "wait_options_ok options" using assms(3) by (auto simp: wait4_def wait_options_ok_def split: if_splits)
  have d: "distinct (map p_pid (procs k))"
    using core_inv_D(1) [OF kernel_inv_D(1) [OF inv]] by (simp add: table_wf_def)
  obtain has hit where sc: "wait_scan which (current k) (caller_pgid k) options 0 (procs k) = (has, hit)" by fastforce
  note r = wait_scan_result [OF sc]
  consider (reap) n where "hit = Some (Reap n st)" "i = p_pid (procs k ! n)" "k' = k\<lparr>procs := reap_at n (procs k)\<rparr>"
    | (report) n where "hit = Some (Report n st)" "i = p_pid (procs k ! n)"
        "k' = k\<lparr>procs := (procs k)[n := (procs k ! n)\<lparr>p_wait_reported := True\<rparr>]\<rparr>"
    by (rule wait4_eq [OF inv ok sc, of now])
      (use assms(3) in \<open>auto split: option.splits wait_hit.splits if_splits\<close>)
  then show ?thesis
  proof cases
    case reap
    note n = r(3) [OF reap(1), simplified]
    have "set (procs k') = {q \<in> set (procs k). p_pid q \<noteq> i \<and> \<not> (p_is_thread q \<and> p_tgid q = p_tgid (procs k ! n))}"
      using reap_at_result(1) [OF conjunct1 [OF n] d] reap(2,3) by simp
    then show ?thesis using n reap(2) by (intro bexI [of _ "procs k ! n"]) auto
  next
    case report
    note n = r(4) [OF report(1), simplified]
    have "map p_pid (procs k') = map p_pid (procs k)"
      using report(3) n by (simp add: map_update list_update_same_conv)
    then show ?thesis using n report(2) by (intro bexI [of _ "procs k ! n"]) auto
  qed
qed

text \<open>A kernel in which init runs and its child 2 has exited.\<close>

definition demo_exited :: kernel where
  "demo_exited = snd (the (exit_proc 5 7 demo_kernel))"

lemma demo_exited_reach: "reach (boot_kernel demo_table 2 3) demo_exited"
proof -
  have "kernel_inv demo_kernel" using boot_inv [OF demo_booted] by (simp add: demo_kernel_def)
  then obtain b k' where "exit_proc 5 7 demo_kernel = Some (b, k')" by (rule exit_proc_inv)
  then have "kstep demo_kernel demo_exited" by (auto simp: demo_exited_def intro: kstep.Exit)
  then show ?thesis unfolding demo_kernel_def by (rule reach.Step [OF reach.Here])
qed

theorem wait4_reaps_witness:
  "\<exists>p \<in> set (procs demo_exited). p_pid p = 2 \<and> is_child (- 1) 1 1 p \<and> p_wait_status p = 1792 \<and>
    2 \<notin> p_pid ` set (procs (snd (the (wait4 6 (- 1) 0 demo_exited))))"
proof -
  let ?w = "the (wait4 6 (- 1) 0 demo_exited)"
  have w: "map_option fst (wait4 6 (- 1) 0 demo_exited) = Some (Waited 2 1792)" by code_simp
  then have "wait4 6 (- 1) 0 demo_exited = Some (Waited 2 1792, snd ?w)" by auto
  moreover have "current demo_exited = 1" "caller_pgid demo_exited = 1" "length (procs (snd ?w)) = 1"
    "p_pid (procs (snd ?w) ! 0) = 1" by code_simp+
  moreover from this have "2 \<notin> p_pid ` set (procs (snd ?w))" by (cases "procs (snd ?w)") auto
  ultimately show ?thesis using wait4_reaps [OF demo_booted demo_exited_reach, of 6 "- 1" 0 2 1792 "snd ?w"] by auto
qed

text \<open>
  \<^verbatim>\<open>wait4\<close> with accepted options fails with ECHILD exactly when the caller has no child that the
  argument selects; otherwise it reports one, returns 0 under WNOHANG, or blocks the caller.
\<close>

theorem wait4_echild:
  assumes "booted ps" "reach (boot_kernel ps cur nxt) k" "wait_options_ok options"
  shows "\<exists>w k'. wait4 now which options k = Some (w, k') \<and>
    (w = WaitError (- ECHILD) \<longleftrightarrow> \<not> (\<exists>p \<in> set (procs k). is_child which (current k) (caller_pgid k) p)) \<and>
    (w = Nothing_Yet \<longrightarrow> options AND WNOHANG \<noteq> 0) \<and>
    ((\<exists>b. w = Blocked b) \<longrightarrow> options AND WNOHANG = 0)"
proof -
  have inv: "kernel_inv k" using assms(1,2) by (rule boot_reach_inv)
  obtain has hit where sc: "wait_scan which (current k) (caller_pgid k) options 0 (procs k) = (has, hit)" by fastforce
  note r = wait_scan_result [OF sc]
  show ?thesis
    by (rule wait4_eq [OF inv assms(3) sc, of now])
      (use r in \<open>auto split: option.splits wait_hit.splits if_splits\<close>)
qed

theorem wait4_echild_witness:
  "wait_options_ok 1 \<and> (\<exists>k'. wait4 6 (- 1) 1 demo_kernel = Some (WaitError (- ECHILD), k'))"
proof -
  have "wait_options_ok 1" by code_simp
  moreover have "\<not> (\<exists>p \<in> set (procs demo_kernel). is_child (- 1) (current demo_kernel) (caller_pgid demo_kernel) p)"
    by code_simp
  ultimately show ?thesis
    using wait4_echild [OF demo_booted reach.Here, where options = 1 and cur = 2 and nxt = 3 and now = 6 and which = "- 1",
        folded demo_kernel_def] by auto
qed

section \<open>Deviations\<close>

lemma get_process_append: "get_process ps i = Some p \<Longrightarrow> get_process (ps @ qs) i = Some p"
  by (induction ps) (auto simp: get_process_def split: if_splits)

lemma rearm_if_earlier_procs: "rearm_if_earlier now d k = Some k' \<Longrightarrow> procs k' = procs k"
  by (auto simp: rearm_if_earlier_def program_abs_def Let_def split: if_splits bind_splits)

lemma wake_awaiting:
  assumes w: "wake_process now i k = Some k'" and p: "get_process (procs k) i = Some p" "p_state p = AwaitingIo"
  shows "map_option p_state (get_process (procs k') i) = Some Runnable"
proof -
  let ?q = "p\<lparr>p_state := Runnable, p_pending_io := True, p_wake_reason := Some Event\<rparr>"
  have pid: "p_pid ?q = i" "i \<in> p_pid ` set (procs k)" using get_process_Some [OF p(1)] by (auto simp: image_iff)
  have "procs k' = set_process (procs k) i ?q"
    using w p by (auto simp: wake_process_def Let_def reset_quantum_def dest: rearm_if_earlier_procs
        split: if_splits option.splits)
  then show ?thesis using get_set_process [OF pid(1), of "procs k" i] pid(2) by simp
qed



text \<open>\<^verbatim>\<open>WCONTINUED\<close> is accepted and never looked at: a continued child is not reported.\<close>

theorem wait4_ignores_WCONTINUED:
  "wait_scan which cur pgid (options OR WCONTINUED) i ps = wait_scan which cur pgid options i ps"
proof -
  have "(options OR WCONTINUED) AND WUNTRACED = options AND WUNTRACED"
    by (simp add: WCONTINUED_def WUNTRACED_def bit.conj_disj_distrib2)
  then show ?thesis by (induction ps arbitrary: i) simp_all
qed

text \<open>
  \<^verbatim>\<open>proc::queue_signal\<close> ends a wait for I/O even when the signal is blocked: \<^verbatim>\<open>Process::queue_signal\<close> leaves
  the waiter alone, as its comment says, but the \<^verbatim>\<open>wake_process\<close> that follows does not ask.
\<close>

theorem blocked_signal_ends_wait:
  assumes inv: "kernel_inv k" and p: "get_process (procs k) i = Some p" "p_state p = AwaitingIo"
    and sig: "1 \<le> sig" "sig \<le> 64" "sig \<in> blocked p"
  shows "\<exists>q k'. queue_signal_proc p sig = Some q \<and> p_state q = AwaitingIo \<and>
    queue_signal now i sig k = Some (True, k') \<and> map_option p_state (get_process (procs k') i) = Some Runnable"
proof -
  have wf: "proc_wf p"
    using core_inv_D(1) [OF kernel_inv_D(1) [OF inv]] get_process_Some [OF p(1)] by (simp add: table_wf_def)
  obtain q where q: "queue_signal_proc p sig = Some q" "signalled p q"
    by (rule queue_signal_proc_signalled [OF wf])
  have "deliverable p sig = False" using sig(3) by (simp add: deliverable_def)
  then have st: "p_state q = AwaitingIo"
    using q(1) p(2) sig signal_interrupts_sleep_spec [of "p\<lparr>p_pending_signals := w\<rparr>" sig for w] wf
    by (auto simp: queue_signal_proc_def Let_def deliverable_pending split: if_splits bind_splits)
  let ?k = "k\<lparr>procs := set_process (procs k) i q\<rparr>"
  have inv1: "kernel_inv ?k" by (rule kernel_inv_set_process [OF inv p(1) signalled_waits_less [OF q(2)]])
  have pid: "p_pid q = i" "i \<in> p_pid ` set (procs k)"
    using q(2) get_process_Some [OF p(1)] by (simp_all add: signalled_def waits_less_def image_iff) metis
  have g: "get_process (procs ?k) i = Some q" using get_set_process [OF pid(1)] pid(2) by simp
  obtain k' where k': "wake_process now i ?k = Some k'" by (rule wake_process_result [OF inv1])
  have "map_option p_state (get_process (procs k') i) = Some Runnable" by (rule wake_awaiting [OF k' g st])
  then show ?thesis using q(1) st p(1) k' by (auto simp: queue_signal_def)
qed

text \<open>
  Process numbers are handed out from a 16-bit counter that wraps: with a number in use again, the
  number that \<^verbatim>\<open>fork\<close> returns names the older process.
\<close>

theorem fork_pid_collision:
  assumes "get_process (procs k) (current k) = Some p" "get_process (procs k) (next_pid k) = Some old"
  shows "\<exists>k'. sys_fork True k = (uint (next_pid k), k') \<and> get_process (procs k') (next_pid k) = Some old \<and>
    \<not> distinct (map p_pid (procs k'))"
proof -
  let ?k = "k\<lparr>next_pid := next_pid k + 1, procs := procs k @ [fork_child (next_pid k) p]\<rparr>"
  have "sys_fork True k = (uint (next_pid k), ?k)" using assms(1) by (simp add: sys_fork_def alloc_pid_def)
  moreover have "get_process (procs k @ [q]) (next_pid k) = Some old" for q
    using assms(2) by (rule get_process_append)
  moreover have "next_pid k \<in> p_pid ` set (procs k)" using get_process_Some [OF assms(2)] by (metis image_eqI)
  ultimately show ?thesis by auto
qed

end
