(* ===== verification/Wait_Queue.thy ===== *)
theory Wait_Queue
  imports Kernel_Steps
begin

text \<open>
  The wait queues of blocking resources (\<^verbatim>\<open>utils/sync.rs\<close>): a fixed slab of process numbers.  A waiter
  enters itself with \<^verbatim>\<open>prepare_current\<close> before it gives up the resource's lock and calls \<^verbatim>\<open>await_io\<close>;
  \<^verbatim>\<open>notify_one\<close> and \<^verbatim>\<open>notify_all\<close> take waiters out and wake them.  The functions that wake processes take
  the clock readings of the wakes, one for each, in order.
\<close>

section \<open>Model\<close>

definition WAIT_QUEUE_CAPACITY :: nat where "WAIT_QUEUE_CAPACITY = 64"

type_synonym wait_queue = "u16 option list"

definition wait_queue_new :: wait_queue where
  "wait_queue_new = replicate WAIT_QUEUE_CAPACITY None"

text \<open>The first empty slot gets the process.\<close>

fun fill_slot :: "u16 \<Rightarrow> wait_queue \<Rightarrow> wait_queue" where
  "fill_slot i [] = []"
| "fill_slot i (None # ws) = Some i # ws"
| "fill_slot i (Some j # ws) = Some j # fill_slot i ws"

definition prepare_current :: "u16 \<Rightarrow> wait_queue \<Rightarrow> wait_queue" where
  "prepare_current i ws = (if list_ex (\<lambda>w. w = Some i) ws then ws else fill_slot i ws)"

fun finish_wait :: "u16 \<Rightarrow> wait_queue \<Rightarrow> wait_queue" where
  "finish_wait i [] = []"
| "finish_wait i (w # ws) = (if w = Some i then None # ws else w # finish_wait i ws)"

text \<open>\<^verbatim>\<open>find_map(|slot| slot.take())\<close>: the first waiter, and the slab without it.\<close>

fun take_waiter :: "wait_queue \<Rightarrow> u16 option \<times> wait_queue" where
  "take_waiter [] = (None, [])"
| "take_waiter (Some i # ws) = (Some i, None # ws)"
| "take_waiter (None # ws) = (let (r, ws') = take_waiter ws in (r, None # ws'))"

definition notify_one :: "u64 \<Rightarrow> wait_queue \<Rightarrow> kernel \<Rightarrow> (wait_queue \<times> kernel) rs" where
  "notify_one now ws k =
    (case take_waiter ws of
       (None, ws') \<Rightarrow> Some (ws', k)
     | (Some i, ws') \<Rightarrow> do { k' \<leftarrow> wake_process now i k; Some (ws', k') })"

definition waiters :: "wait_queue \<Rightarrow> u16 list" where
  "waiters ws = List.map_filter id ws"

lemma waiters_simps [simp]:
  "waiters [] = []" "waiters (None # ws) = waiters ws" "waiters (Some i # ws) = i # waiters ws"
  by (simp_all add: waiters_def List.map_filter_def)

lemma take_waiter_waiters:
  "take_waiter ws = (r, ws') \<Longrightarrow> (case r of None \<Rightarrow> waiters ws = [] \<and> ws' = ws | Some i \<Rightarrow> waiters ws = i # waiters ws')"
  by (induction ws arbitrary: r ws' rule: take_waiter.induct) (auto split: prod.splits option.splits)

function notify_all :: "(nat \<Rightarrow> u64) \<Rightarrow> wait_queue \<Rightarrow> kernel \<Rightarrow> (wait_queue \<times> kernel) rs" where
  "notify_all now ws k =
    (case take_waiter ws of
       (None, ws') \<Rightarrow> Some (ws', k)
     | (Some i, ws') \<Rightarrow> do {
         k' \<leftarrow> wake_process (now 0) i k;
         notify_all (\<lambda>n. now (Suc n)) ws' k'
       })"
  by pat_completeness auto
termination
  by (relation "measure (\<lambda>(_, ws, _). length (waiters ws))")
    (auto dest!: take_waiter_waiters [OF sym])

declare notify_all.simps [simp del]

definition wq_is_empty :: "wait_queue \<Rightarrow> bool" where
  "wq_is_empty ws = list_all (\<lambda>w. w = None) ws"

section \<open>The slab\<close>

lemma length_fill_slot [simp]: "length (fill_slot i ws) = length ws"
  by (induction i ws rule: fill_slot.induct) auto

lemma waiters_fill_slot:
  "None \<in> set ws \<Longrightarrow> set (waiters (fill_slot i ws)) = insert i (set (waiters ws))"
  "None \<notin> set ws \<Longrightarrow> fill_slot i ws = ws"
  by (induction i ws rule: fill_slot.induct) auto

lemma in_waiters: "i \<in> set (waiters ws) \<longleftrightarrow> Some i \<in> set ws"
proof (induction ws)
  case (Cons w ws)
  then show ?case by (cases w) auto
qed simp

lemma prepare_current_waiters:
  "None \<in> set ws \<Longrightarrow> set (waiters (prepare_current i ws)) = insert i (set (waiters ws))"
  "length (prepare_current i ws) = length ws"
  by (auto simp: prepare_current_def waiters_fill_slot in_waiters list_ex_iff)

lemma finish_wait_waiters: "distinct (waiters ws) \<Longrightarrow> set (waiters (finish_wait i ws)) = set (waiters ws) - {i}"
proof (induction i ws rule: finish_wait.induct)
  case (2 i w ws)
  then show ?case by (cases w) auto
qed simp

lemma take_waiter_length: "length (snd (take_waiter ws)) = length ws"
  by (induction ws rule: take_waiter.induct) (auto split: prod.splits)

section \<open>Waking\<close>

definition roused :: "process \<Rightarrow> process" where
  "roused p =
    (case p_state p of
       AwaitingIo \<Rightarrow> p\<lparr>p_state := Runnable, p_pending_io := True, p_wake_reason := Some Event\<rparr>
     | Dead \<Rightarrow> p
     | Stopped \<Rightarrow> p
     | _ \<Rightarrow> p\<lparr>p_pending_io := True\<rparr>)"

lemma roused_pid [simp]: "p_pid (roused p) = p_pid p"
  by (simp add: roused_def split: process_state.splits)

lemma roused_idem [simp]: "roused (roused p) = roused p"
  by (simp add: roused_def split: process_state.splits)

lemma roused_alert:
  assumes "p_state p \<noteq> Dead" "p_state p \<noteq> Stopped"
  shows "p_pending_io (roused p)" "p_state (roused p) = (if p_state p = AwaitingIo then Runnable else p_state p)"
  using assms by (simp_all add: roused_def split: process_state.splits)

lemma set_process_same: "get_process ps i = Some p \<Longrightarrow> set_process ps i p = ps"
  by (induction ps) (auto simp: get_process_def split: if_splits)

lemma wake_process_procs:
  assumes "wake_process now i k = Some k'"
  shows "get_process (procs k') j = (if j = i then map_option roused (get_process (procs k) i) else get_process (procs k) j)"
proof (cases "get_process (procs k) i")
  case None
  with assms show ?thesis by (simp add: wake_process_def)
next
  case (Some p)
  have pid: "p_pid p = i" "i \<in> p_pid ` set (procs k)" using get_process_Some [OF Some] by auto
  have "procs k' = set_process (procs k) i (roused p)"
    using assms Some set_process_same [OF Some]
    by (auto simp: wake_process_def roused_def Let_def reset_quantum_def dest!: rearm_if_earlier_procs
        split: process_state.splits if_splits option.splits)
  then show ?thesis using pid Some by (simp add: get_set_process)
qed

text \<open>Every waiter is woken once, and the queue is empty afterwards.\<close>

lemma notify_all_result:
  assumes "kernel_inv k"
  obtains ws' k' where "notify_all now ws k = Some (ws', k')" "kernel_inv k'" "current k' = current k"
    "waiters ws' = []" "length ws' = length ws"
    "\<And>i. get_process (procs k') i = map_option (if i \<in> set (waiters ws) then roused else id) (get_process (procs k) i)"
  using assms
proof (induction now ws k arbitrary: thesis rule: notify_all.induct)
  case (1 now ws k)
  obtain r ws1 where t: "take_waiter ws = (r, ws1)" by force
  have len: "length ws1 = length ws" using take_waiter_length [of ws] t by simp
  show ?case
  proof (cases r)
    case None
    with t take_waiter_waiters [OF t] 1(3) show ?thesis
      by (intro 1(2) [of ws k]) (simp_all add: notify_all.simps option.map_ident)
  next
    case (Some i)
    have w: "waiters ws = i # waiters ws1" using take_waiter_waiters [OF t] Some by simp
    obtain k1 where k1: "wake_process (now 0) i k = Some k1" "kernel_inv k1" "current k1 = current k"
      by (rule wake_process_result [OF 1(3)])
    obtain ws' k' where r: "notify_all (\<lambda>n. now (Suc n)) ws1 k1 = Some (ws', k')" "kernel_inv k'" "current k' = current k1"
      "waiters ws' = []" "length ws' = length ws1"
      "\<And>j. get_process (procs k') j = map_option (if j \<in> set (waiters ws1) then roused else id) (get_process (procs k1) j)"
      by (rule 1(1) [OF t [symmetric] Some k1(1) _ k1(2)]) blast
    have "get_process (procs k') j = map_option (if j \<in> set (waiters ws) then roused else id) (get_process (procs k) j)" for j
      by (auto simp: r(6) wake_process_procs [OF k1(1)] w option.map_comp comp_def option.map_id)
    then show ?thesis
      using r k1 t Some len by (intro 1(2) [of ws' k']) (simp_all add: notify_all.simps)
  qed
qed

lemma notify_one_result:
  assumes "kernel_inv k"
  obtains ws' k' where "notify_one now ws k = Some (ws', k')" "kernel_inv k'"
    "waiters ws' = tl (waiters ws)"
    "\<And>i. get_process (procs k') i =
      map_option (if waiters ws \<noteq> [] \<and> i = hd (waiters ws) then roused else id) (get_process (procs k) i)"
proof -
  obtain r ws1 where t: "take_waiter ws = (r, ws1)" by force
  show ?thesis
  proof (cases r)
    case None
    with t take_waiter_waiters [OF t] assms show ?thesis
      by (intro that [of ws k]) (simp_all add: notify_one_def option.map_id)
  next
    case (Some i)
    have w: "waiters ws = i # waiters ws1" using take_waiter_waiters [OF t] Some by simp
    obtain k1 where k1: "wake_process now i k = Some k1" "kernel_inv k1" by (rule wake_process_result [OF assms])
    show ?thesis
      using k1 t Some w wake_process_procs [OF k1(1)]
      by (intro that [of ws1 k1]) (simp_all add: notify_one_def option.map_id)
  qed
qed

lemma notify_all_get:
  assumes "kernel_inv k" "notify_all now ws k = Some (ws', k')"
  shows "get_process (procs k') i = map_option (if i \<in> set (waiters ws) then roused else id) (get_process (procs k) i)"
proof -
  obtain ws1 k1 where "notify_all now ws k = Some (ws1, k1)"
    "\<And>i. get_process (procs k1) i = map_option (if i \<in> set (waiters ws) then roused else id) (get_process (procs k) i)"
    by (rule notify_all_result [OF assms(1), where now = now and ws = ws]) blast
  with assms(2) show ?thesis by simp
qed

text \<open>A process that was told of an event does not go to sleep in \<^verbatim>\<open>await_io\<close>.\<close>

lemma await_io_pending:
  assumes "get_process (procs k) (current k) = Some p" "p_pending_io p"
  shows "\<exists>r k'. await_io_enter reserve now timeout None k = Some (Inl r, k')"
proof -
  obtain b k1 where e: "scheduler_try_enter k = (b, k1)" by force
  have same: "procs k1 = procs k" "current k1 = current k"
    using try_enter_fields [OF e] by simp_all
  show ?thesis
    using assms by (cases b) (auto simp: await_io_enter_def e same Let_def split: prod.splits)
qed

text \<open>
  No wake-up is lost between \<^verbatim>\<open>prepare_current\<close> and \<^verbatim>\<open>await_io\<close>: a process that is notified while it is
  queued but has not blocked yet returns from \<^verbatim>\<open>await_io\<close> at once, and one that has blocked can run.
\<close>

lemma roused_does_not_sleep:
  assumes "get_process (procs k) i = Some (roused p)" "p_state p \<noteq> Dead" "p_state p \<noteq> Stopped"
  shows "p_state (roused p) \<noteq> AwaitingIo" "\<exists>r k'. await_io_enter reserve now timeout None (k\<lparr>current := i\<rparr>) = Some (Inl r, k')"
proof -
  have alert: "p_state (roused p) \<noteq> AwaitingIo" "p_pending_io (roused p)" using roused_alert [OF assms(2,3)] by simp_all
  then show "p_state (roused p) \<noteq> AwaitingIo" by simp
  show "\<exists>r k'. await_io_enter reserve now timeout None (k\<lparr>current := i\<rparr>) = Some (Inl r, k')"
    using assms(1) alert(2) by (intro await_io_pending) simp_all
qed

section \<open>A sample queue\<close>

lemma demo_kernel_inv: "kernel_inv demo_kernel"
  using boot_inv [OF demo_booted] by (simp add: demo_kernel_def)

definition sample_queue :: wait_queue where
  "sample_queue = prepare_current 1 wait_queue_new"

definition full_queue :: wait_queue where
  "full_queue = replicate WAIT_QUEUE_CAPACITY (Some 1)"

section \<open>Properties\<close>

text \<open>
  C27. Notifying a wait queue ends, without panic, with the queue empty: each waiter is taken out and woken,
  so that those blocked in \<^verbatim>\<open>await_io\<close> can run and those that are not yet blocked find the event
  recorded, and every other process is left alone.
\<close>

theorem notify_all_wakes:
  assumes "kernel_inv k"
  shows "\<exists>ws' k'. notify_all now ws k = Some (ws', k') \<and> waiters ws' = [] \<and> kernel_inv k' \<and>
    (\<forall>i. get_process (procs k') i = map_option (if i \<in> set (waiters ws) then roused else id) (get_process (procs k) i))"
  by (rule notify_all_result [OF assms]) blast

theorem notify_all_wakes_witness:
  "\<exists>ws' k'. notify_all (\<lambda>_. 5) sample_queue demo_kernel = Some (ws', k') \<and> waiters ws' = [] \<and>
    map_option p_pending_io (get_process (procs k') 1) = Some True \<and>
    map_option p_pending_io (get_process (procs k') 2) = Some False"
proof -
  have "1 \<in> set (waiters sample_queue)" "2 \<notin> set (waiters sample_queue)" by code_simp+
  moreover have "map_option (p_pending_io \<circ> roused) (get_process (procs demo_kernel) 1) = Some True"
    "map_option p_pending_io (get_process (procs demo_kernel) 2) = Some False" by code_simp+
  ultimately show ?thesis
    using notify_all_wakes [OF demo_kernel_inv, of "\<lambda>_. 5" sample_queue]
    by (auto simp: option.map_comp option.map_id)
qed

text \<open>
  C28. When the slab is full the waiter is not queued, and notifying everyone leaves it as it was: a
  process that blocks without a timeout stays blocked.
\<close>

theorem full_queue_loses_waiter:
  assumes "kernel_inv k" "None \<notin> set ws" "Some i \<notin> set ws"
    and "notify_all now (prepare_current i ws) k = Some (ws', k')"
  shows "get_process (procs k') i = get_process (procs k) i"
proof -
  have same: "prepare_current i ws = ws" using assms(2) by (simp add: prepare_current_def waiters_fill_slot)
  have "i \<notin> set (waiters ws)" using assms(3) by (simp add: in_waiters)
  with notify_all_get [OF assms(1,4), of i] show ?thesis by (simp add: same option.map_id)
qed

theorem full_queue_loses_waiter_witness:
  "\<exists>ws' k'. notify_all (\<lambda>_. 5) (prepare_current 2 full_queue) demo_kernel = Some (ws', k') \<and>
    get_process (procs k') 2 = get_process (procs demo_kernel) 2"
proof -
  obtain ws' k' where n: "notify_all (\<lambda>_. 5) (prepare_current 2 full_queue) demo_kernel = Some (ws', k')"
    by (rule notify_all_result [OF demo_kernel_inv])
  have "None \<notin> set full_queue" "Some 2 \<notin> set full_queue" by (simp_all add: full_queue_def)
  from full_queue_loses_waiter [OF demo_kernel_inv this n] n show ?thesis by blast
qed

end
