(* ===== verification/Bytes.thy ===== *)
theory Bytes
  imports Prelude
begin

text \<open>
  Little-endian layout of machine words: what a \<^verbatim>\<open>repr(C)\<close> copy on x86-64, \<^verbatim>\<open>to_le_bytes\<close> and
  \<^verbatim>\<open>from_le_bytes\<close> do to integers.  The two directions are inverse on their ranges.
\<close>

unbundle bit_operations_syntax

primrec le_bytes :: "nat \<Rightarrow> 'a::len word \<Rightarrow> u8 list" where
  "le_bytes 0 w = []"
| "le_bytes (Suc n) w = ucast w # le_bytes n (drop_bit 8 w)"

primrec le_word :: "u8 list \<Rightarrow> 'a::len word" where
  "le_word [] = 0"
| "le_word (b # bs) = ucast b OR push_bit 8 (le_word bs)"

lemma length_le_bytes [simp]: "length (le_bytes n w) = n"
  by (induction n arbitrary: w) simp_all

lemma le_word_le_bytes: "le_word (le_bytes n w) = take_bit (8 * n) w"
proof (induction n arbitrary: w)
  case (Suc n)
  have "ucast (ucast w :: u8) OR push_bit 8 (take_bit (8 * n) (drop_bit 8 w)) = take_bit (8 * Suc n) w"
    by (rule bit_word_eqI) (auto simp: bit_simps)
  with Suc show ?case
    by simp
qed simp

lemma le_word_le_bytes_full:
  fixes w :: "'a::len word"
  assumes "LENGTH('a) \<le> 8 * n"
  shows "le_word (le_bytes n w) = w"
  using assms by (simp add: le_word_le_bytes take_bit_word_eq_self)

lemma bit_le_word: "bit (le_word bs :: 'a::len word) n \<Longrightarrow> n < 8 * length bs"
  by (induction bs arbitrary: n) (fastforce simp: bit_simps dest: bit_imp_le_length)+

lemma take_bit_le_word: "8 * length bs \<le> n \<Longrightarrow> take_bit n (le_word bs :: 'a::len word) = le_word bs"
  by (rule bit_word_eqI) (auto simp: bit_simps dest: bit_le_word)

lemma le_bytes_le_word:
  assumes "8 * length bs \<le> LENGTH('a)"
  shows "le_bytes (length bs) (le_word bs :: 'a::len word) = bs"
  using assms
proof (induction bs)
  case (Cons b bs)
  have low: "(ucast (ucast b OR push_bit 8 (le_word bs) :: 'a word) :: u8) = b"
    using Cons.prems by (intro bit_word_eqI) (auto simp: bit_simps)
  have "drop_bit 8 (ucast b OR push_bit 8 (le_word bs) :: 'a word) = take_bit (LENGTH('a) - 8) (le_word bs)"
    using Cons.prems by (intro bit_word_eqI) (auto simp: bit_simps dest: bit_imp_le_length)
  moreover have "take_bit (LENGTH('a) - 8) (le_word bs :: 'a word) = le_word bs"
    using Cons.prems by (intro take_bit_le_word) simp
  ultimately show ?case
    using low Cons by simp
qed simp

end
