(* ===== verification/Signal_Delivery.thy ===== *)
theory Signal_Delivery
  imports Lifecycle Bytes
begin

text \<open>
  Signal dispositions, masks and handler frames (\<^verbatim>\<open>sys/syscall/service.rs\<close>): \<^verbatim>\<open>rt_sigaction\<close>,
  \<^verbatim>\<open>rt_sigprocmask\<close>, \<^verbatim>\<open>rt_sigsuspend\<close>, \<^verbatim>\<open>sigaltstack\<close>, the construction of the frame on the user stack in
  \<^verbatim>\<open>deliver_pending_signal\<close>, and \<^verbatim>\<open>rt_sigreturn\<close>.  Each operation acts on the current process, which is
  its argument; a pointer argument is the optional value it points to.  User memory is a map from the
  addresses of 8-byte words to their contents: every word this code stores is aligned.
  \<^verbatim>\<open>VirtAddr::new\<close> and \<^verbatim>\<open>RFlags::from_bits_truncate\<close> belong to a crate and are parameters.
\<close>

section \<open>Model\<close>

subsection \<open>Dispositions and masks\<close>

definition EINTR :: int where "EINTR = 4"
definition EFAULT :: int where "EFAULT = 14"

record linux_sigaction =
  la_handler :: u64
  la_flags :: u64
  la_restorer :: u64
  la_mask :: u64

definition linux_sigaction_from :: "signal_action \<Rightarrow> linux_sigaction" where
  "linux_sigaction_from a =
    \<lparr>la_handler = handler a, la_flags = sa_flags a, la_restorer = restorer a, la_mask = fst (sa_mask a)\<rparr>"

definition signal_action_from :: "linux_sigaction \<Rightarrow> signal_action" where
  "signal_action_from a =
    \<lparr>handler = la_handler a, sa_mask = (la_mask a AND NOT (signal_bit SIGKILL) AND NOT (signal_bit SIGSTOP), 0),
     sa_flags = la_flags a, restorer = la_restorer a\<rparr>"

text \<open>The results are the return value, what is stored at \<^verbatim>\<open>oldact\<close>, and the process table.\<close>

definition rt_sigaction ::
  "process list \<Rightarrow> u16 \<Rightarrow> int \<Rightarrow> linux_sigaction option \<Rightarrow> (int \<times> linux_sigaction option \<times> process list) rs" where
  "rt_sigaction ps cur signum act =
    (if \<not> (1 \<le> signum \<and> signum \<le> 64) \<or> nat signum = SIGKILL \<or> nat signum = SIGSTOP
     then Some (- EINVAL, None, ps)
     else case get_process ps cur of
       None \<Rightarrow> Some (- ESRCH, None, ps)
     | Some p \<Rightarrow> do {
         old \<leftarrow> idx (p_signal_actions p) (nat signum);
         actions \<leftarrow> (case act of
             None \<Rightarrow> Some (p_signal_actions p)
           | Some a \<Rightarrow> upd (p_signal_actions p) (nat signum) (signal_action_from a));
         Some (0, Some (linux_sigaction_from old), set_process ps cur (p\<lparr>p_signal_actions := actions\<rparr>))
       })"

text \<open>The 16 bytes of a mask in memory; bytes that are not copied in are zero.\<close>

definition mask_bytes :: "u64 \<times> u64 \<Rightarrow> u8 list" where
  "mask_bytes m = le_bytes 8 (fst m) @ le_bytes 8 (snd m)"

definition mask_of_bytes :: "u8 list \<Rightarrow> u64 \<times> u64" where
  "mask_of_bytes bs = (le_word (take 8 bs), le_word (take 8 (drop 8 bs)))"

definition copy_len :: "nat \<Rightarrow> nat" where
  "copy_len sigsetsize = min sigsetsize 16"

definition change_mask :: "int \<Rightarrow> u64 \<times> u64 \<Rightarrow> u64 \<times> u64 \<Rightarrow> (u64 \<times> u64) option" where
  "change_mask how new_mask m =
    (if how = 0 then Some (fst m OR fst new_mask, snd m)
     else if how = 1 then Some (fst m AND NOT (fst new_mask), snd m)
     else if how = 2 then Some new_mask
     else None)"

text \<open>The results are the return value, the bytes stored at \<^verbatim>\<open>oldset\<close>, and the process table.\<close>

definition rt_sigprocmask ::
  "process list \<Rightarrow> u16 \<Rightarrow> int \<Rightarrow> u8 list option \<Rightarrow> nat \<Rightarrow> int \<times> u8 list \<times> process list" where
  "rt_sigprocmask ps cur how set_bytes sigsetsize =
    (case get_process ps cur of
       None \<Rightarrow> (- ESRCH, [], ps)
     | Some p \<Rightarrow>
         let old = take (copy_len sigsetsize) (mask_bytes (p_signal_mask p)) in
         case set_bytes of
           None \<Rightarrow> (0, old, ps)
         | Some bs \<Rightarrow>
             (case change_mask how (unblockable_cleared (mask_of_bytes (take (copy_len sigsetsize) bs))) (p_signal_mask p) of
                None \<Rightarrow> (- EINVAL, old, ps)
              | Some m \<Rightarrow> (0, old, set_process ps cur (p\<lparr>p_signal_mask := m\<rparr>))))"

text \<open>
  \<^verbatim>\<open>rt_sigsuspend\<close> up to the call of \<^verbatim>\<open>schedule_now\<close>: the return value, whether the caller has to wait
  for a signal first, and the process table.
\<close>

definition rt_sigsuspend :: "process list \<Rightarrow> u16 \<Rightarrow> u8 list option \<Rightarrow> nat \<Rightarrow> int \<times> bool \<times> process list" where
  "rt_sigsuspend ps cur new_set sigsetsize =
    (case new_set of
       None \<Rightarrow> (- EFAULT, False, ps)
     | Some bs \<Rightarrow>
         (case get_process ps cur of
            None \<Rightarrow> (- ESRCH, False, ps)
          | Some p \<Rightarrow>
              let new_mask = unblockable_cleared (mask_of_bytes (take (copy_len sigsetsize) bs));
                  p1 = p\<lparr>p_sigsuspend_saved_mask := p_signal_mask p, p_signal_mask := new_mask, p_in_sigsuspend := True\<rparr> in
              if \<not> has_unblocked_signal p1 then (- EINTR, True, set_process ps cur (p1\<lparr>p_state := SignalWait\<rparr>))
              else (- EINTR, False, set_process ps cur p1)))"

subsection \<open>The alternate stack\<close>

record alt_stack =
  ss_sp :: u64
  ss_flags :: int
  ss_size :: u64

definition SS_DISABLE :: int where "SS_DISABLE = 2"

definition alt_stack_default :: alt_stack where
  "alt_stack_default = \<lparr>ss_sp = 0, ss_flags = 2, ss_size = 0\<rparr>"

definition signal_altstack_from :: "alt_stack \<Rightarrow> alt_stack" where
  "signal_altstack_from s = (if ss_flags s AND SS_DISABLE \<noteq> 0 then alt_stack_default else s\<lparr>ss_flags := 0\<rparr>)"

definition sigaltstack :: "alt_stack option \<Rightarrow> alt_stack \<Rightarrow> int \<times> alt_stack" where
  "sigaltstack new_stack cur =
    (case new_stack of
       None \<Rightarrow> (0, cur)
     | Some s \<Rightarrow> if ss_flags s AND NOT SS_DISABLE \<noteq> 0 then (- EINVAL, cur) else (0, signal_altstack_from s))"

subsection \<open>Handler frames\<close>

record registers =
  r15 :: u64
  r14 :: u64
  r13 :: u64
  r12 :: u64
  rbp :: u64
  rbx :: u64
  r11 :: u64
  r10 :: u64
  r9 :: u64
  r8 :: u64
  rdi :: u64
  rsi :: u64
  rdx :: u64
  rcx :: u64
  rax :: u64

text \<open>What the user program sees: registers, instruction and stack pointer, flags, memory.\<close>

record user_cpu =
  regs :: registers
  rip :: u64
  rsp :: u64
  rflags :: u64
  mem :: "u64 \<Rightarrow> u64"

definition SIGNAL_FRAME_MAGIC :: u64 where "SIGNAL_FRAME_MAGIC = 0x545753494746524d"
definition SA_NODEFER :: u64 where "SA_NODEFER = 0x40000000"

text \<open>\<^verbatim>\<open>UserSignalFrame\<close> as its 21 words in memory order.\<close>

definition frame_words :: "u64 \<times> u64 \<Rightarrow> user_cpu \<Rightarrow> u64 list" where
  "frame_words old_mask c =
    (let r = regs c in
     [SIGNAL_FRAME_MAGIC, fst old_mask, snd old_mask, r15 r, r14 r, r13 r, r12 r, rbp r, rbx r, r11 r, r10 r, r9 r, r8 r,
      rdi r, rsi r, rdx r, rcx r, rax r, rip c, rsp c, rflags c])"

fun store_words :: "u64 list \<Rightarrow> u64 \<Rightarrow> (u64 \<Rightarrow> u64) \<Rightarrow> u64 \<Rightarrow> u64" where
  "store_words [] a m = m"
| "store_words (w # ws) a m = store_words ws (a + 8) (m(a := w))"

fun load_words :: "nat \<Rightarrow> u64 \<Rightarrow> (u64 \<Rightarrow> u64) \<Rightarrow> u64 list" where
  "load_words 0 a m = []"
| "load_words (Suc n) a m = m a # load_words n (a + 8) m"

definition FRAME_SIZE :: u64 where "FRAME_SIZE = 168"

definition frame_addr_of :: "u64 \<Rightarrow> u64" where
  "frame_addr_of old_rsp = (old_rsp - FRAME_SIZE) AND NOT 0xf"

definition handler_mask :: "u64 \<times> u64 \<Rightarrow> signal_action \<Rightarrow> nat \<Rightarrow> u64 \<times> u64" where
  "handler_mask m a sig =
    (let m0 = fst m OR fst (sa_mask a);
         m1 = (if sa_flags a AND SA_NODEFER = 0 then m0 OR signal_bit sig else m0) in
     unblockable_cleared (m1, snd m OR snd (sa_mask a)))"

definition deliver_to :: "(u64 \<Rightarrow> u64 rs) \<Rightarrow> user_cpu \<Rightarrow> process \<Rightarrow> (user_cpu \<times> process) rs" where
  "deliver_to virt_addr_new c p =
    (case next_unblocked_signal p of
       None \<Rightarrow> Some (c, p)
     | Some sig \<Rightarrow> do {
         action \<leftarrow> idx (p_signal_actions p) sig;
         let p1 = dequeue_signal p sig;
         if handler action \<le> SIG_IGN \<or> restorer action = 0 then
           Some (c, if p_in_sigsuspend p1
             then p1\<lparr>p_signal_mask := p_sigsuspend_saved_mask p1, p_in_sigsuspend := False\<rparr> else p1)
         else do {
           let effective_mask = p_signal_mask p1;
           let old_mask = (if p_in_sigsuspend p1 then p_sigsuspend_saved_mask p1 else p_signal_mask p1);
           let frame_addr = frame_addr_of (rsp c);
           let ret_slot = frame_addr - 8;
           let m = store_words (frame_words old_mask c) frame_addr ((mem c)(ret_slot := restorer action));
           let p2 = p1\<lparr>p_in_sigsuspend := False, p_signal_mask := handler_mask effective_mask action sig\<rparr>;
           ip \<leftarrow> virt_addr_new (handler action);
           sp \<leftarrow> virt_addr_new ret_slot;
           Some (c\<lparr>regs := (regs c)\<lparr>rdi := of_nat sig, rsi := 0, rdx := 0\<rparr>, rip := ip, rsp := sp, mem := m\<rparr>, p2)
         }
       })"

definition deliver_pending_signal ::
  "(u64 \<Rightarrow> u64 rs) \<Rightarrow> user_cpu \<Rightarrow> process list \<Rightarrow> u16 \<Rightarrow> (user_cpu \<times> process list) rs" where
  "deliver_pending_signal virt_addr_new c ps cur =
    (case get_process ps cur of
       None \<Rightarrow> Some (c, ps)
     | Some p \<Rightarrow> do {
         (c', p') \<leftarrow> deliver_to virt_addr_new c p;
         Some (c', set_process ps cur p')
       })"

definition rt_sigreturn ::
  "(u64 \<Rightarrow> u64 rs) \<Rightarrow> (u64 \<Rightarrow> u64) \<Rightarrow> user_cpu \<Rightarrow> process list \<Rightarrow> u16 \<Rightarrow> (bool \<times> user_cpu \<times> process list) rs" where
  "rt_sigreturn virt_addr_new from_bits_truncate c ps cur =
    (let f = load_words 21 (rsp c) (mem c) in
     if f ! 0 \<noteq> SIGNAL_FRAME_MAGIC then Some (False, c, ps)
     else do {
       let r = \<lparr>r15 = f ! 3, r14 = f ! 4, r13 = f ! 5, r12 = f ! 6, rbp = f ! 7, rbx = f ! 8, r11 = f ! 9,
         r10 = f ! 10, r9 = f ! 11, r8 = f ! 12, rdi = f ! 13, rsi = f ! 14, rdx = f ! 15, rcx = f ! 16, rax = f ! 17\<rparr>;
       let ps' = (case get_process ps cur of
           None \<Rightarrow> ps
         | Some p \<Rightarrow> set_process ps cur (p\<lparr>p_signal_mask := unblockable_cleared (f ! 1, f ! 2)\<rparr>));
       ip \<leftarrow> virt_addr_new (f ! 18);
       sp \<leftarrow> virt_addr_new (f ! 19);
       Some (True, c\<lparr>regs := r, rip := ip, rsp := sp, rflags := from_bits_truncate (f ! 20)\<rparr>, ps')
     })"

section \<open>Frames survive the handler\<close>

lemma store_words_other:
  assumes "\<forall>i < length ws. a + 8 * of_nat i \<noteq> b"
  shows "store_words ws a m b = m b"
  using assms
proof (induction ws arbitrary: a m)
  case (Cons w ws)
  have "a + 8 + 8 * of_nat i \<noteq> b" if "i < length ws" for i
    using Cons.prems [rule_format, of "Suc i"] that by (simp add: algebra_simps)
  moreover have "a \<noteq> b" using Cons.prems [rule_format, of 0] by simp
  moreover have "store_words ws (a + 8) (m(a := w)) b = (m(a := w)) b" if "\<forall>i < length ws. a + 8 + 8 * of_nat i \<noteq> b"
    using that by (rule Cons.IH)
  ultimately show ?case by simp
qed simp

lemma stride_neq:
  fixes a :: u64
  assumes "8 * j < 2 ^ 64" "i < j"
  shows "a + 8 * of_nat i \<noteq> a + 8 * of_nat j"
proof
  assume "a + 8 * of_nat i = a + 8 * of_nat j"
  then have "(of_nat (8 * i) :: u64) = of_nat (8 * j)" by simp
  then have "8 * i = 8 * j" using assms unfolding word_of_nat_eq_iff by (simp add: take_bit_nat_eq_self)
  with assms(2) show False by simp
qed

lemma load_store_words:
  "8 * length ws < 2 ^ 64 \<Longrightarrow> load_words (length ws) a (store_words ws a m) = ws"
proof (induction ws arbitrary: a m)
  case (Cons w ws)
  have "(a + 8) + 8 * of_nat i \<noteq> a" if "i < length ws" for i
    using stride_neq [of "Suc i" 0 a] that Cons.prems by (simp add: algebra_simps)
  then have "store_words ws (a + 8) (m(a := w)) a = w" using store_words_other [of ws "a + 8" a "m(a := w)"] by simp
  then show ?case using Cons by simp
qed simp

lemma load_words_cong:
  "\<forall>i < n. m (a + 8 * of_nat i) = m' (a + 8 * of_nat i) \<Longrightarrow> load_words n a m = load_words n a m'"
proof (induction n arbitrary: a)
  case (Suc n)
  have "m ((a + 8) + 8 * of_nat i) = m' ((a + 8) + 8 * of_nat i)" if "i < n" for i
    using Suc.prems [rule_format, of "Suc i"] that by (simp add: algebra_simps)
  moreover have "m a = m' a" using Suc.prems [rule_format, of 0] by simp
  ultimately show ?case using Suc.IH [of "a + 8"] by simp
qed simp

lemma length_frame_words [simp]: "length (frame_words m c) = 21"
  by (simp add: frame_words_def Let_def)

text \<open>A handler was entered: the action taken and the frame left behind.\<close>

lemma deliver_to_handler:
  assumes "deliver_to va c p = Some (c', p')" "next_unblocked_signal p = Some sig"
    "idx (p_signal_actions p) sig = Some action" "SIG_IGN < handler action" "restorer action \<noteq> 0"
  obtains "va (handler action) = Some (rip c')" "va (frame_addr_of (rsp c) - 8) = Some (rsp c')"
    "mem c' = store_words (frame_words (if p_in_sigsuspend p then p_sigsuspend_saved_mask p else p_signal_mask p) c)
       (frame_addr_of (rsp c)) ((mem c)(frame_addr_of (rsp c) - 8 := restorer action))"
    "regs c' = (regs c)\<lparr>rdi := of_nat sig, rsi := 0, rdx := 0\<rparr>" "rflags c' = rflags c"
    "p' = (dequeue_signal p sig)\<lparr>p_in_sigsuspend := False, p_signal_mask := handler_mask (p_signal_mask p) action sig\<rparr>"
proof -
  have [simp]: "p_in_sigsuspend (dequeue_signal p sig) = p_in_sigsuspend p"
    "p_sigsuspend_saved_mask (dequeue_signal p sig) = p_sigsuspend_saved_mask p"
    "p_signal_mask (dequeue_signal p sig) = p_signal_mask p"
    by (simp_all add: dequeue_signal_def)
  from assms(4) have "\<not> handler action \<le> SIG_IGN" by simp
  with assms show ?thesis
    by (intro that) (auto simp: deliver_to_def Let_def split: bind_splits)
qed

lemma rt_sigreturn_frame:
  assumes "load_words 21 (rsp c) (mem c) = frame_words m u" "get_process ps cur = Some p"
    "va (rip u) = Some (rip u)" "va (rsp u) = Some (rsp u)"
  shows "rt_sigreturn va tr c ps cur =
    Some (True, c\<lparr>regs := regs u, rip := rip u, rsp := rsp u, rflags := tr (rflags u)\<rparr>,
      set_process ps cur (p\<lparr>p_signal_mask := unblockable_cleared m\<rparr>))"
  using assms by (simp add: rt_sigreturn_def frame_words_def Let_def)

section \<open>What no program can block\<close>

definition never_masked :: "u64 \<times> u64 \<Rightarrow> bool" where
  "never_masked m \<longleftrightarrow> fst m AND signal_bit SIGKILL = 0 \<and> fst m AND signal_bit SIGSTOP = 0"

text \<open>A process whose signal state the kernel built: SIGKILL and SIGSTOP are unblocked and have no handler.\<close>

definition signal_ok :: "process \<Rightarrow> bool" where
  "signal_ok p \<longleftrightarrow> never_masked (p_signal_mask p) \<and> never_masked (p_sigsuspend_saved_mask p) \<and>
     length (p_signal_actions p) = SIGNAL_COUNT \<and>
     handler (p_signal_actions p ! SIGKILL) = 0 \<and> handler (p_signal_actions p ! SIGSTOP) = 0"

text \<open>The events of a process's signal state: the calls above, signals sent to it, and its children.\<close>

inductive sig_step :: "process list \<Rightarrow> process list \<Rightarrow> bool" where
  Sigaction: "rt_sigaction ps cur signum act = Some (r, old, ps') \<Longrightarrow> sig_step ps ps'"
| Sigprocmask: "rt_sigprocmask ps cur how bs n = (r, old, ps') \<Longrightarrow> sig_step ps ps'"
| Sigsuspend: "rt_sigsuspend ps cur bs n = (r, w, ps') \<Longrightarrow> sig_step ps ps'"
| Swap_mask: "swap_signal_mask ps cur m = (old, ps') \<Longrightarrow> sig_step ps ps'"
| Restore_mask: "restore_signal_mask ps cur m = ps' \<Longrightarrow> sig_step ps ps'"
| Deliver: "deliver_pending_signal va c ps cur = Some (c', ps') \<Longrightarrow> sig_step ps ps'"
| Sigreturn: "rt_sigreturn va tr c ps cur = Some (b, c', ps') \<Longrightarrow> sig_step ps ps'"
| Sent: "get_process ps i = Some p \<Longrightarrow> apply_signal_to_process p sig = Some (pp, q) \<Longrightarrow>
    sig_step ps (set_process ps i q)"
| Queued: "get_process ps i = Some p \<Longrightarrow> queue_signal_proc p sig = Some q \<Longrightarrow> sig_step ps (set_process ps i q)"
| Forked: "get_process ps cur = Some p \<Longrightarrow> sig_step ps (ps @ [fork_child child p])"
| Cloned: "get_process ps cur = Some p \<Longrightarrow> sig_step ps (ps @ [thread_child child p])"

lemma never_masked_iff: "never_masked m \<longleftrightarrow> \<not> bit (fst m) 8 \<and> \<not> bit (fst m) 18"
  by (simp add: never_masked_def and_signal_bit SIGKILL_def SIGSTOP_def)

lemma never_masked_cleared [simp]: "never_masked (unblockable_cleared m)"
  by (simp add: never_masked_iff unblockable_cleared_def signal_bit_def SIGKILL_def SIGSTOP_def bit_simps)

lemma never_masked_change:
  assumes "change_mask how (unblockable_cleared n) m = Some m'" "never_masked m"
  shows "never_masked m'"
proof -
  have "\<not> bit (fst (unblockable_cleared n)) 8 \<and> \<not> bit (fst (unblockable_cleared n)) 18"
    using never_masked_cleared [of n] by (simp add: never_masked_iff)
  with assms show ?thesis
    by (auto simp: change_mask_def never_masked_iff bit_simps split: if_splits)
qed

lemma signal_ok_update:
  assumes "list_all signal_ok ps" "get_process ps i = Some p" "signal_ok p \<Longrightarrow> signal_ok q"
  shows "list_all signal_ok (set_process ps i q)"
proof -
  have "signal_ok q" using assms get_process_Some [OF assms(2)] by (auto simp: list_all_iff)
  with assms(1) show ?thesis by (induction ps) auto
qed

lemma queue_signal_ok: "queue_signal_proc p sig = Some q \<Longrightarrow> signal_ok p \<Longrightarrow> signal_ok q"
  by (auto simp: queue_signal_proc_def signal_ok_def Let_def split: if_splits bind_splits)

lemma signal_ok_fields [simp]:
  "signal_ok (p\<lparr>p_state := s\<rparr>) = signal_ok p" "signal_ok (p\<lparr>p_wait_status := n\<rparr>) = signal_ok p"
  "signal_ok (p\<lparr>p_wait_reported := b\<rparr>) = signal_ok p" "signal_ok (p\<lparr>p_fd_table := t\<rparr>) = signal_ok p"
  "signal_ok (p\<lparr>p_in_sigsuspend := b\<rparr>) = signal_ok p" "signal_ok (dequeue_signal p sig) = signal_ok p"
  by (simp_all add: signal_ok_def dequeue_signal_def)

lemma apply_signal_ok: "apply_signal_to_process p sig = Some (r, q) \<Longrightarrow> signal_ok p \<Longrightarrow> signal_ok q"
  by (auto simp: apply_signal_to_process_def Let_def intro: queue_signal_ok split: if_splits bind_splits)

lemma deliver_to_ok: "deliver_to va c p = Some (c', q) \<Longrightarrow> signal_ok p \<Longrightarrow> signal_ok q"
  by (auto simp: deliver_to_def Let_def signal_ok_def dequeue_signal_def handler_mask_def
      split: option.splits if_splits bind_splits)

lemma rt_sigaction_ok:
  assumes "rt_sigaction ps cur signum act = Some (r, old, ps')" "list_all signal_ok ps"
  shows "list_all signal_ok ps'"
proof (cases "get_process ps cur")
  case (Some p)
  have "ps' = ps \<or> (\<exists>actions. ps' = set_process ps cur (p\<lparr>p_signal_actions := actions\<rparr>) \<and>
      (actions = p_signal_actions p \<or> (\<exists>a. actions = (p_signal_actions p)[nat signum := a]) \<and>
        nat signum \<noteq> SIGKILL \<and> nat signum \<noteq> SIGSTOP))"
    using assms(1) Some
    by (auto simp: rt_sigaction_def upd_def split: if_splits bind_splits option.splits)
  moreover have "signal_ok (p\<lparr>p_signal_actions := (p_signal_actions p)[nat signum := a]\<rparr>)"
    if "signal_ok p" "nat signum \<noteq> SIGKILL" "nat signum \<noteq> SIGSTOP" for a
    using that by (simp add: signal_ok_def)
  ultimately show ?thesis
    using assms(2) Some by (auto intro!: signal_ok_update)
qed (use assms in \<open>auto simp: rt_sigaction_def split: if_splits\<close>)

lemma signal_ok_mask: "signal_ok p \<Longrightarrow> never_masked m \<Longrightarrow> signal_ok (p\<lparr>p_signal_mask := m\<rparr>)"
  by (simp add: signal_ok_def)

lemma sig_step_ok: "sig_step ps ps' \<Longrightarrow> list_all signal_ok ps \<Longrightarrow> list_all signal_ok ps'"
proof (induction rule: sig_step.induct)
  case Sigaction
  then show ?case by (blast intro: rt_sigaction_ok)
next
  case Sigprocmask
  then show ?case
    by (auto simp: rt_sigprocmask_def Let_def split: option.splits intro!: signal_ok_update signal_ok_mask
        elim: never_masked_change) (auto simp: signal_ok_def dest: never_masked_change)
next
  case Sigsuspend
  then show ?case
    by (auto simp: rt_sigsuspend_def Let_def split: option.splits if_splits intro!: signal_ok_update)
      (auto simp: signal_ok_def)
next
  case Swap_mask
  then show ?case
    by (auto simp: swap_signal_mask_def split: option.splits intro!: signal_ok_update signal_ok_mask)
next
  case Restore_mask
  then show ?case
    by (auto simp: restore_signal_mask_def split: option.splits intro!: signal_ok_update signal_ok_mask)
next
  case Deliver
  then show ?case
    by (auto simp: deliver_pending_signal_def split: option.splits bind_splits
        intro!: signal_ok_update elim: deliver_to_ok)
next
  case Sigreturn
  then show ?case
    by (auto simp: rt_sigreturn_def Let_def split: option.splits bind_splits if_splits
        intro!: signal_ok_update signal_ok_mask)
next
  case Sent
  then show ?case by (blast intro: signal_ok_update apply_signal_ok)
next
  case Queued
  then show ?case by (blast intro: signal_ok_update queue_signal_ok)
next
  case Forked
  then show ?case
    by (auto simp: list_all_iff fork_child_def signal_ok_def never_masked_def dest!: get_process_Some)
next
  case Cloned
  then show ?case
    by (auto simp: list_all_iff thread_child_def signal_ok_def never_masked_def dest!: get_process_Some)
qed

lemma ret_slot_kept:
  assumes "length ws = 21"
  shows "store_words ws a m (a - 8) = m (a - 8)"
proof -
  have "a + 8 * of_nat i \<noteq> a - 8" if "i < 21" for i
    using stride_neq [of "Suc i" 0 "a - 8"] that by (simp add: algebra_simps)
  with assms show ?thesis by (intro store_words_other) simp
qed

lemma ret_slot_aligned: "(frame_addr_of r - 8) AND 0xf = 8"
proof -
  define z where "z = drop_bit 4 (r - FRAME_SIZE)"
  have bit8: "bit (8 :: int) i \<longleftrightarrow> i = 3" for i
    using bit_exp_iff [of 3 i, where 'a = int] by auto
  have "frame_addr_of r = (r - FRAME_SIZE) AND NOT (mask 4)"
    by (simp add: frame_addr_of_def mask_eq_exp_minus_1)
  also have "\<dots> = push_bit 4 z"
    by (rule bit_word_eqI) (auto simp: z_def bit_simps)
  finally have "frame_addr_of r - 8 = push_bit 4 (z - 1) + 8"
    by (simp add: push_bit_eq_mult algebra_simps)
  also have "\<dots> = push_bit 4 (z - 1) OR 8"
    by (rule disjunctive_add_eq_or, rule bit_word_eqI) (auto simp: bit_simps bit8)
  finally have "(frame_addr_of r - 8) AND 0xf = (push_bit 4 (z - 1) OR 8) AND mask 4" by (simp add: mask_eq_exp_minus_1)
  also have "\<dots> = 8" by (rule bit_word_eqI) (auto simp: bit_simps bit8)
  finally show ?thesis .
qed

lemma bit_handler_mask:
  assumes "1 \<le> sig" "sig \<le> 64" "i < 64"
  shows "bit (fst (handler_mask m a sig)) i \<longleftrightarrow>
    (bit (fst m) i \<or> bit (fst (sa_mask a)) i \<or> sa_flags a AND SA_NODEFER = 0 \<and> i = sig - 1) \<and> i \<noteq> 8 \<and> i \<noteq> 18"
proof -
  have kill: "bit (signal_bit SIGKILL) i \<longleftrightarrow> i = 8" "bit (signal_bit SIGSTOP) i \<longleftrightarrow> i = 18"
    by (auto simp: signal_bit_bit SIGKILL_def SIGSTOP_def)
  show ?thesis
    using assms(3) by (auto simp: handler_mask_def unblockable_cleared_def Let_def bit_or_iff bit_and_iff bit_not_iff
        kill signal_bit_bit [OF assms(1,2)])
qed

lemma blocked_handler_mask:
  assumes "1 \<le> sig" "sig \<le> 64"
  shows "blocked (p\<lparr>p_signal_mask := handler_mask m a sig\<rparr>) =
    {s. 1 \<le> s \<and> s \<le> 64 \<and> bit (fst m) (s - 1)} \<union> {s. 1 \<le> s \<and> s \<le> 64 \<and> bit (fst (sa_mask a)) (s - 1)} \<union>
      (if sa_flags a AND SA_NODEFER = 0 then {sig} else {}) - {SIGKILL, SIGSTOP}"
  using assms by (auto simp: blocked_def bit_handler_mask SIGKILL_def SIGSTOP_def)

lemma pending_dequeue:
  assumes "1 \<le> sig" "sig \<le> 64"
  shows "pending (dequeue_signal p sig) = pending p - {sig}"
  using assms by (auto simp: pending_def dequeue_signal_def bit_and_iff bit_not_iff signal_bit_bit)

lemma never_masked_id: "never_masked m \<Longrightarrow> unblockable_cleared m = m"
proof -
  assume "never_masked m"
  then have "fst m AND (NOT (signal_bit SIGKILL) AND NOT (signal_bit SIGSTOP)) = fst m"
    by (intro bit_word_eqI)
      (auto simp: bit_and_iff bit_not_iff never_masked_iff signal_bit_bit SIGKILL_def SIGSTOP_def)
  then show ?thesis by (simp add: unblockable_cleared_def prod_eq_iff)
qed

section \<open>Saving and restoring a mask\<close>

lemma length_mask_bytes [simp]: "length (mask_bytes m) = 16"
  by (simp add: mask_bytes_def)

lemma mask_of_mask_bytes: "mask_of_bytes (mask_bytes m) = m"
  by (simp add: mask_of_bytes_def mask_bytes_def le_word_le_bytes_full)

text \<open>What \<^verbatim>\<open>rt_sigprocmask\<close> reports as the old mask puts that mask back when it is installed.\<close>

lemma sigprocmask_restores:
  assumes "get_process ps cur = Some p" "signal_ok p" "rt_sigprocmask ps cur how bs 16 = (r, old, ps1)"
  obtains old' ps2 where "rt_sigprocmask ps1 cur 2 (Some old) 16 = (0, old', ps2)" "get_process ps2 cur = Some p"
proof -
  have old: "old = mask_bytes (p_signal_mask p)"
    using assms(1,3) by (auto simp: rt_sigprocmask_def copy_len_def mask_bytes_def Let_def split: option.splits)
  obtain m where m: "get_process ps1 cur = Some (p\<lparr>p_signal_mask := m\<rparr>)"
  proof -
    have "ps1 = ps \<or> (\<exists>m. ps1 = set_process ps cur (p\<lparr>p_signal_mask := m\<rparr>))"
      using assms(1,3) by (auto simp: rt_sigprocmask_def Let_def split: option.splits)
    then show ?thesis
    proof
      assume "ps1 = ps"
      with assms(1) have "get_process ps1 cur = Some (p\<lparr>p_signal_mask := p_signal_mask p\<rparr>)" by simp
      then show ?thesis by (rule that)
    next
      assume "\<exists>m. ps1 = set_process ps cur (p\<lparr>p_signal_mask := m\<rparr>)"
      then show ?thesis using get_process_Some [OF assms(1)] by (auto simp: get_set_process intro: that)
    qed
  qed
  have pid: "p_pid p = cur" "cur \<in> p_pid ` set ps1"
    using get_process_Some [OF assms(1)] m get_process_None [of ps1 cur] by auto
  have "unblockable_cleared (mask_of_bytes (take 16 old)) = p_signal_mask p"
    using assms(2) by (simp add: old mask_of_mask_bytes signal_ok_def never_masked_id)
  then show ?thesis
    using pid by (intro that [of "take 16 (mask_bytes m)" "set_process ps1 cur p"])
      (simp_all add: rt_sigprocmask_def m change_mask_def copy_len_def Let_def get_set_process)
qed

text \<open>The stored alternate stack is enabled with no other flag, or disabled and empty.\<close>

lemma sigaltstack_flags:
  assumes "sigaltstack new_stack cur = (r, cur')" "ss_flags cur = 0 \<or> cur = alt_stack_default"
  shows "ss_flags cur' = 0 \<or> cur' = alt_stack_default"
  using assms by (auto simp: sigaltstack_def signal_altstack_from_def split: option.splits if_splits)

section \<open>A sample process\<close>

text \<open>A process with handlers for SIGINT (pending) and SIGTERM, and a canonical-address check.\<close>

definition sample_va :: "u64 \<Rightarrow> u64 rs" where
  "sample_va a = (if a < 0x800000000000 \<or> 0xffff800000000000 \<le> a then Some a else None)"

definition sample_actions :: "signal_action list" where
  "sample_actions = (replicate 65 \<lparr>handler = 0, sa_mask = (0, 0), sa_flags = 0, restorer = 0\<rparr>)
    [2 := \<lparr>handler = 0x401000, sa_mask = (0x4000, 0), sa_flags = 0, restorer = 0x402000\<rparr>]"

definition sample_proc :: process where
  "sample_proc = \<lparr>p_pid = 1, p_tgid = 1, p_is_thread = False, p_parent_pid = 0, p_pgid = 1, p_sid = 1,
     p_state = Running, p_fd_table = [], p_exit_code = 0, p_wait_status = 0, p_wait_reported = False,
     p_pending_io = False, p_signal_actions = sample_actions, p_signal_mask = (1, 0), p_pending_signals = 2,
     p_sigsuspend_saved_mask = (0, 0), p_in_sigsuspend = False, p_wait_token = None,
     p_wait_deadline_ns = None, p_wake_reason = None\<rparr>"

definition sample_cpu :: user_cpu where
  "sample_cpu = \<lparr>regs = \<lparr>r15 = 15, r14 = 14, r13 = 13, r12 = 12, rbp = 11, rbx = 10, r11 = 9, r10 = 8, r9 = 7, r8 = 6,
     rdi = 5, rsi = 4, rdx = 3, rcx = 2, rax = 1\<rparr>, rip = 0x400100, rsp = 0x7fff0008, rflags = 0x202, mem = (\<lambda>_. 0)\<rparr>"

definition sample_delivered :: "user_cpu \<times> process" where
  "sample_delivered = the (deliver_to sample_va sample_cpu sample_proc)"

definition sample_forged :: user_cpu where
  "sample_forged = sample_cpu\<lparr>mem := store_words (frame_words (0, 0) (sample_cpu\<lparr>rflags := 0x3202\<rparr>)) 0x7fff0008 (\<lambda>_. 0)\<rparr>"

lemma sample_delivered: "deliver_to sample_va sample_cpu sample_proc = Some (fst sample_delivered, snd sample_delivered)"
proof -
  have "\<not> Option.is_none (deliver_to sample_va sample_cpu sample_proc)" by code_simp
  then show ?thesis by (auto simp: sample_delivered_def Option.is_none_def)
qed

lemma sample_va_id: "sample_va a = Some b \<Longrightarrow> b = a"
  by (simp add: sample_va_def split: if_splits)

lemma sample_signal: "next_unblocked_signal sample_proc = Some 2"
  "idx (p_signal_actions sample_proc) 2 = Some (sample_actions ! 2)"
  "SIG_IGN < handler (sample_actions ! 2)" "restorer (sample_actions ! 2) \<noteq> 0"
  by code_simp+

lemma sample_ok: "signal_ok sample_proc"
  by code_simp

lemma sample_lookup: "get_process [sample_proc] 1 = Some sample_proc"
  by code_simp

section \<open>Properties\<close>



text \<open>
  C5. Returning from a handler undoes its delivery: whatever the handler did to the registers and the mask,
  if it left the 21 words of its frame alone and returned to the restorer, then \<^verbatim>\<open>rt_sigreturn\<close> continues the
  interrupted program with the registers, instruction and stack pointer it had, and the mask it had
  (the one saved by \<^verbatim>\<open>rt_sigsuspend\<close> if it was suspended).
\<close>

theorem sigreturn_undoes_delivery:
  assumes virt_addr: "\<And>a b. va a = Some b \<Longrightarrow> b = a"
    and canonical: "va (rip c) = Some (rip c)" "va (rsp c) = Some (rsp c)"
    and delivered: "deliver_to va c p = Some (c1, p1)" "next_unblocked_signal p = Some sig"
      "idx (p_signal_actions p) sig = Some action" "SIG_IGN < handler action" "restorer action \<noteq> 0"
    and handler_done: "rsp c2 = rsp c1 + 8" "\<forall>i < 21. mem c2 (rsp c2 + 8 * of_nat i) = mem c1 (rsp c2 + 8 * of_nat i)"
    and "get_process ps cur = Some p2" "signal_ok p"
  shows "\<exists>c3 p3. rt_sigreturn va tr c2 ps cur = Some (True, c3, set_process ps cur p3) \<and>
    regs c3 = regs c \<and> rip c3 = rip c \<and> rsp c3 = rsp c \<and> rflags c3 = tr (rflags c) \<and>
    p3 = p2\<lparr>p_signal_mask := if p_in_sigsuspend p then p_sigsuspend_saved_mask p else p_signal_mask p\<rparr>"
proof (rule deliver_to_handler [OF delivered])
  let ?m = "if p_in_sigsuspend p then p_sigsuspend_saved_mask p else p_signal_mask p"
  assume sp: "va (frame_addr_of (rsp c) - 8) = Some (rsp c1)"
    and m: "mem c1 = store_words (frame_words ?m c) (frame_addr_of (rsp c)) ((mem c)(frame_addr_of (rsp c) - 8 := restorer action))"
  have rsp: "rsp c2 = frame_addr_of (rsp c)" using virt_addr [OF sp] handler_done(1) by simp
  have "load_words 21 (rsp c2) (mem c2) = load_words 21 (rsp c2) (mem c1)"
    using handler_done(2) by (rule load_words_cong)
  also have "\<dots> = frame_words ?m c"
    using load_store_words [of "frame_words ?m c" "rsp c2"] by (simp add: m rsp)
  finally have frame: "load_words 21 (rsp c2) (mem c2) = frame_words ?m c" .
  have "unblockable_cleared ?m = ?m" using assms(12) by (simp add: signal_ok_def never_masked_id)
  with rt_sigreturn_frame [OF frame assms(11) canonical, of tr] show ?thesis by simp
qed

theorem sigreturn_undoes_delivery_witness:
  "\<exists>c3 p3. rt_sigreturn sample_va id ((fst sample_delivered)\<lparr>rsp := rsp (fst sample_delivered) + 8\<rparr>)
      [sample_proc] 1 = Some (True, c3, set_process [sample_proc] 1 p3) \<and>
    regs c3 = regs sample_cpu \<and> rip c3 = 0x400100 \<and> rsp c3 = 0x7fff0008 \<and> p_signal_mask p3 = (1, 0)"
proof -
  let ?c2 = "(fst sample_delivered)\<lparr>rsp := rsp (fst sample_delivered) + 8\<rparr>"
  have canonical: "sample_va (rip sample_cpu) = Some (rip sample_cpu)" "sample_va (rsp sample_cpu) = Some (rsp sample_cpu)"
    by code_simp+
  have "rip sample_cpu = 0x400100" "rsp sample_cpu = 0x7fff0008" "p_signal_mask sample_proc = (1, 0)"
    "p_in_sigsuspend sample_proc = False"
    by (simp_all add: sample_cpu_def sample_proc_def)
  then show ?thesis
    using sigreturn_undoes_delivery [OF sample_va_id canonical sample_delivered sample_signal, of ?c2 "[sample_proc]" 1
        sample_proc id] sample_ok sample_lookup
    by fastforce
qed

text \<open>
  C8. SIGKILL and SIGSTOP cannot be blocked, caught or ignored: after any sequence of signal calls, deliveries,
  forged or genuine signal returns, signals sent and forks, every process has both unblocked, SIGKILL sent
  to it makes it Dead with its descriptors closed, and SIGSTOP makes it Stopped.
\<close>

theorem kill_and_stop_unblockable:
  assumes "sig_step\<^sup>*\<^sup>* ps ps'" "list_all signal_ok ps" "p \<in> set ps'"
  shows "SIGKILL \<notin> blocked p \<and> SIGSTOP \<notin> blocked p \<and>
    (\<exists>q. apply_signal_to_process p SIGKILL = Some (Some (p_parent_pid p), q) \<and> p_state q = Dead \<and>
       (\<forall>fd. fd_entry (p_fd_table q) fd = None)) \<and>
    (\<exists>q. apply_signal_to_process p SIGSTOP = Some (Some (p_parent_pid p), q) \<and> p_state q = Stopped)"
proof -
  have "list_all signal_ok ps'" using assms(1,2) by (induction rule: rtranclp_induct) (auto intro: sig_step_ok)
  with assms(3) have "signal_ok p" by (simp add: list_all_iff)
  then show ?thesis
    by (auto simp: signal_ok_def blocked_def never_masked_iff apply_signal_to_process_def idx_def SIGNAL_COUNT_def
        SIGKILL_def SIGSTOP_def SIGCONT_def SIG_IGN_def is_stop_default_def is_fatal_default_def SIGTSTP_def
        SIGTTIN_def SIGTTOU_def)
qed

theorem kill_and_stop_unblockable_witness:
  "\<exists>q. apply_signal_to_process sample_proc SIGKILL = Some (Some (p_parent_pid sample_proc), q) \<and> p_state q = Dead"
proof -
  have "list_all signal_ok [sample_proc]" "sample_proc \<in> set [sample_proc]" using sample_ok by simp_all
  with kill_and_stop_unblockable [OF rtranclp.rtrancl_refl, of "[sample_proc]" sample_proc] show ?thesis by blast
qed





end
