(* ===== verification/Pipe.thy ===== *)
theory Pipe
  imports Wait_Queue Signal_Delivery
begin

text \<open>
  Pipes (\<^verbatim>\<open>sys/fs/pipe.rs\<close>): a bounded byte buffer with reader and writer counts and the two wait queues.
  A blocking call is a sequence of attempts.  One attempt is the body of the source's loop up to
  \<^verbatim>\<open>await_io\<close>: it ends with a result, or it has entered the caller into the wait queue and the caller
  goes to sleep; \<^verbatim>\<open>resume\<close> is what the caller does after waking up, before the next attempt.
\<close>

section \<open>Model\<close>

definition EPIPE :: int where "EPIPE = 32"
definition PIPE_BUF :: nat where "PIPE_BUF = 4096"
definition PIPE_CAPACITY :: nat where "PIPE_CAPACITY = PIPE_BUF"

datatype pipe_end_kind = ReadEnd | WriteEnd

record pipe_state =
  buffer :: "u8 list"
  n_readers :: nat
  n_writers :: nat
  read_queue :: wait_queue
  write_queue :: wait_queue

definition pipe_new :: pipe_state where
  "pipe_new = \<lparr>buffer = [], n_readers = 1, n_writers = 1, read_queue = wait_queue_new, write_queue = wait_queue_new\<rparr>"

text \<open>The kernel, the queue of \<^verbatim>\<open>poll\<close> callers, and the pipe.\<close>

record pipe_sys =
  sys_kernel :: kernel
  poll_queue :: wait_queue
  the_pipe :: pipe_state

definition current_has_unblocked_signal :: "kernel \<Rightarrow> bool" where
  "current_has_unblocked_signal k =
    (case get_process (procs k) (current k) of None \<Rightarrow> False | Some p \<Rightarrow> has_unblocked_signal p)"

text \<open>Waking one queue and then the \<^verbatim>\<open>poll\<close> queue; \<open>now c n\<close> is the clock at wake \<open>n\<close> of call \<open>c\<close>.\<close>

definition notify_queue :: "(nat \<Rightarrow> nat \<Rightarrow> u64) \<Rightarrow> nat \<Rightarrow> (pipe_state \<Rightarrow> wait_queue) \<Rightarrow>
    (wait_queue \<Rightarrow> pipe_state \<Rightarrow> pipe_state) \<Rightarrow> pipe_sys \<Rightarrow> pipe_sys rs" where
  "notify_queue now c get put s = do {
     (ws, k) \<leftarrow> notify_all (now c) (get (the_pipe s)) (sys_kernel s);
     Some (s\<lparr>sys_kernel := k, the_pipe := put ws (the_pipe s)\<rparr>)
   }"

definition notify_readers :: "(nat \<Rightarrow> nat \<Rightarrow> u64) \<Rightarrow> nat \<Rightarrow> pipe_sys \<Rightarrow> pipe_sys rs" where
  "notify_readers now c = notify_queue now c read_queue (\<lambda>ws. read_queue_update (\<lambda>_. ws))"

definition notify_writers :: "(nat \<Rightarrow> nat \<Rightarrow> u64) \<Rightarrow> nat \<Rightarrow> pipe_sys \<Rightarrow> pipe_sys rs" where
  "notify_writers now c = notify_queue now c write_queue (\<lambda>ws. write_queue_update (\<lambda>_. ws))"

definition notify_poll :: "(nat \<Rightarrow> nat \<Rightarrow> u64) \<Rightarrow> nat \<Rightarrow> pipe_sys \<Rightarrow> pipe_sys rs" where
  "notify_poll now c s = do {
     (ws, k) \<leftarrow> notify_all (now c) (poll_queue s) (sys_kernel s);
     Some (s\<lparr>sys_kernel := k, poll_queue := ws\<rparr>)
   }"

definition notify_state_change :: "(nat \<Rightarrow> nat \<Rightarrow> u64) \<Rightarrow> pipe_sys \<Rightarrow> pipe_sys rs" where
  "notify_state_change now s = do {
     s1 \<leftarrow> notify_readers now 0 s;
     s2 \<leftarrow> notify_writers now 1 s1;
     notify_poll now 2 s2
   }"

datatype 'a attempt = Return 'a | Wait

definition pipe_read ::
  "(nat \<Rightarrow> nat \<Rightarrow> u64) \<Rightarrow> pipe_end_kind \<Rightarrow> nat \<Rightarrow> bool \<Rightarrow> pipe_sys \<Rightarrow> ((int + u8 list) attempt \<times> pipe_sys) rs" where
  "pipe_read now kd out_len nonblock s =
    (if kd \<noteq> ReadEnd then Some (Return (Inl EPIPE), s)
     else if out_len = 0 then Some (Return (Inr []), s)
     else
       let inner = the_pipe s in
       if buffer inner \<noteq> [] then do {
         let count = min out_len (length (buffer inner));
         s1 \<leftarrow> notify_writers now 0 (s\<lparr>the_pipe := inner\<lparr>buffer := drop count (buffer inner)\<rparr>\<rparr>);
         s2 \<leftarrow> notify_poll now 1 s1;
         Some (Return (Inr (take count (buffer inner))), s2)
       }
       else if n_writers inner = 0 then Some (Return (Inr []), s)
       else if nonblock then Some (Return (Inl EAGAIN), s)
       else if current_has_unblocked_signal (sys_kernel s) then Some (Return (Inl EINTR), s)
       else Some (Wait, s\<lparr>the_pipe := inner\<lparr>read_queue := prepare_current (current (sys_kernel s)) (read_queue inner)\<rparr>\<rparr>))"

definition pipe_write ::
  "(nat \<Rightarrow> nat \<Rightarrow> u64) \<Rightarrow> pipe_end_kind \<Rightarrow> u8 list \<Rightarrow> bool \<Rightarrow> pipe_sys \<Rightarrow> ((int + nat) attempt \<times> pipe_sys) rs" where
  "pipe_write now kd bs nonblock s =
    (if kd \<noteq> WriteEnd then Some (Return (Inl EPIPE), s)
     else if bs = [] then Some (Return (Inr 0), s)
     else
       let inner = the_pipe s in
       if n_readers inner = 0 then Some (Return (Inl EPIPE), s)
       else
         let available = PIPE_CAPACITY - length (buffer inner);
             atomic_write = length bs \<le> PIPE_BUF;
             can_write = (if atomic_write then available \<ge> length bs else available > 0) in
         if can_write then do {
           let count = (if atomic_write then length bs else min available (length bs));
           s1 \<leftarrow> notify_readers now 0 (s\<lparr>the_pipe := inner\<lparr>buffer := buffer inner @ take count bs\<rparr>\<rparr>);
           s2 \<leftarrow> notify_poll now 1 s1;
           Some (Return (Inr count), s2)
         }
         else if nonblock then Some (Return (Inl EAGAIN), s)
         else if current_has_unblocked_signal (sys_kernel s) then Some (Return (Inl EINTR), s)
         else Some (Wait, s\<lparr>the_pipe := inner\<lparr>write_queue := prepare_current (current (sys_kernel s)) (write_queue inner)\<rparr>\<rparr>))"

text \<open>After \<^verbatim>\<open>await_io\<close>: leave the queue, and give up if a signal is pending.\<close>

definition read_resume :: "u16 \<Rightarrow> pipe_sys \<Rightarrow> int option \<times> pipe_sys" where
  "read_resume i s =
    (if current_has_unblocked_signal (sys_kernel s) then Some EINTR else None,
     s\<lparr>the_pipe := (the_pipe s)\<lparr>read_queue := finish_wait i (read_queue (the_pipe s))\<rparr>\<rparr>)"

definition write_resume :: "u16 \<Rightarrow> pipe_sys \<Rightarrow> int option \<times> pipe_sys" where
  "write_resume i s =
    (if current_has_unblocked_signal (sys_kernel s) then Some EINTR else None,
     s\<lparr>the_pipe := (the_pipe s)\<lparr>write_queue := finish_wait i (write_queue (the_pipe s))\<rparr>\<rparr>)"

record pipe_poll_state =
  readable :: bool
  writable :: bool
  hangup :: bool
  poll_error :: bool

definition pipe_poll :: "pipe_end_kind \<Rightarrow> pipe_state \<Rightarrow> pipe_poll_state" where
  "pipe_poll kd inner =
    (case kd of
       ReadEnd \<Rightarrow> \<lparr>readable = (buffer inner \<noteq> []), writable = False, hangup = (n_writers inner = 0), poll_error = False\<rparr>
     | WriteEnd \<Rightarrow> \<lparr>readable = False, writable = (0 < n_readers inner \<and> length (buffer inner) < PIPE_CAPACITY),
         hangup = False, poll_error = (n_readers inner = 0)\<rparr>)"

definition pipe_drop :: "(nat \<Rightarrow> nat \<Rightarrow> u64) \<Rightarrow> pipe_end_kind \<Rightarrow> pipe_sys \<Rightarrow> pipe_sys rs" where
  "pipe_drop now kd s =
    notify_state_change now (s\<lparr>the_pipe := (case kd of
       ReadEnd \<Rightarrow> (the_pipe s)\<lparr>n_readers := n_readers (the_pipe s) - 1\<rparr>
     | WriteEnd \<Rightarrow> (the_pipe s)\<lparr>n_writers := n_writers (the_pipe s) - 1\<rparr>)\<rparr>)"

section \<open>Notifications leave the bytes alone\<close>

text \<open>What a notification keeps: the buffer, the counts and the kernel invariant.\<close>

definition bytes_same :: "pipe_sys \<Rightarrow> pipe_sys \<Rightarrow> bool" where
  "bytes_same s s' \<longleftrightarrow> buffer (the_pipe s') = buffer (the_pipe s) \<and> n_readers (the_pipe s') = n_readers (the_pipe s) \<and>
     n_writers (the_pipe s') = n_writers (the_pipe s) \<and> kernel_inv (sys_kernel s') \<and>
     current (sys_kernel s') = current (sys_kernel s)"

lemma notify_readers_result:
  assumes "kernel_inv (sys_kernel s)"
  obtains s' where "notify_readers now c s = Some s'" "bytes_same s s'" "waiters (read_queue (the_pipe s')) = []"
    "write_queue (the_pipe s') = write_queue (the_pipe s)"
    "\<And>i. get_process (procs (sys_kernel s')) i =
       map_option (if i \<in> set (waiters (read_queue (the_pipe s))) then roused else id) (get_process (procs (sys_kernel s)) i)"
proof -
  obtain ws k where n: "notify_all (now c) (read_queue (the_pipe s)) (sys_kernel s) = Some (ws, k)" "kernel_inv k"
    "current k = current (sys_kernel s)" "waiters ws = []"
    "\<And>i. get_process (procs k) i = map_option (if i \<in> set (waiters (read_queue (the_pipe s))) then roused else id)
       (get_process (procs (sys_kernel s)) i)"
    by (rule notify_all_result [OF assms, where now = "now c" and ws = "read_queue (the_pipe s)"]) blast
  then show ?thesis
    by (intro that [of "s\<lparr>sys_kernel := k, the_pipe := (the_pipe s)\<lparr>read_queue := ws\<rparr>\<rparr>"])
      (simp_all add: notify_readers_def notify_queue_def bytes_same_def)
qed

lemma notify_writers_result:
  assumes "kernel_inv (sys_kernel s)"
  obtains s' where "notify_writers now c s = Some s'" "bytes_same s s'" "waiters (write_queue (the_pipe s')) = []"
    "read_queue (the_pipe s') = read_queue (the_pipe s)"
    "\<And>i. get_process (procs (sys_kernel s')) i =
       map_option (if i \<in> set (waiters (write_queue (the_pipe s))) then roused else id) (get_process (procs (sys_kernel s)) i)"
proof -
  obtain ws k where n: "notify_all (now c) (write_queue (the_pipe s)) (sys_kernel s) = Some (ws, k)" "kernel_inv k"
    "current k = current (sys_kernel s)" "waiters ws = []"
    "\<And>i. get_process (procs k) i = map_option (if i \<in> set (waiters (write_queue (the_pipe s))) then roused else id)
       (get_process (procs (sys_kernel s)) i)"
    by (rule notify_all_result [OF assms, where now = "now c" and ws = "write_queue (the_pipe s)"]) blast
  then show ?thesis
    by (intro that [of "s\<lparr>sys_kernel := k, the_pipe := (the_pipe s)\<lparr>write_queue := ws\<rparr>\<rparr>"])
      (simp_all add: notify_writers_def notify_queue_def bytes_same_def)
qed

lemma notify_poll_result:
  assumes "kernel_inv (sys_kernel s)"
  obtains s' where "notify_poll now c s = Some s'" "bytes_same s s'" "the_pipe s' = the_pipe s"
    "\<And>i. get_process (procs (sys_kernel s')) i =
       map_option (if i \<in> set (waiters (poll_queue s)) then roused else id) (get_process (procs (sys_kernel s)) i)"
proof -
  obtain ws k where n: "notify_all (now c) (poll_queue s) (sys_kernel s) = Some (ws, k)" "kernel_inv k"
    "current k = current (sys_kernel s)"
    "\<And>i. get_process (procs k) i = map_option (if i \<in> set (waiters (poll_queue s)) then roused else id)
       (get_process (procs (sys_kernel s)) i)"
    by (rule notify_all_result [OF assms, where now = "now c" and ws = "poll_queue s"]) blast
  then show ?thesis
    by (intro that [of "s\<lparr>sys_kernel := k, poll_queue := ws\<rparr>"]) (simp_all add: notify_poll_def bytes_same_def)
qed

lemma bytes_same_trans: "bytes_same s s1 \<Longrightarrow> bytes_same s1 s2 \<Longrightarrow> bytes_same s s2"
  by (simp add: bytes_same_def)

section \<open>Every branch of an attempt\<close>

definition with_buffer :: "u8 list \<Rightarrow> pipe_sys \<Rightarrow> pipe_sys" where
  "with_buffer bs s = s\<lparr>the_pipe := (the_pipe s)\<lparr>buffer := bs\<rparr>\<rparr>"

lemma with_buffer_simps [simp]:
  "buffer (the_pipe (with_buffer bs s)) = bs" "sys_kernel (with_buffer bs s) = sys_kernel s"
  "n_readers (the_pipe (with_buffer bs s)) = n_readers (the_pipe s)" "n_writers (the_pipe (with_buffer bs s)) = n_writers (the_pipe s)"
  "read_queue (the_pipe (with_buffer bs s)) = read_queue (the_pipe s)"
  "write_queue (the_pipe (with_buffer bs s)) = write_queue (the_pipe s)" "poll_queue (with_buffer bs s) = poll_queue s"
  by (simp_all add: with_buffer_def)

lemma pipe_read_result:
  assumes "kernel_inv (sys_kernel s)"
  obtains (bytes) s' where "pipe_read now kd n nb s = Some (Return (Inr (take n (buffer (the_pipe s)))), s')" "kd = ReadEnd"
      "0 < n" "buffer (the_pipe s) \<noteq> []" "bytes_same (with_buffer (drop n (buffer (the_pipe s))) s) s'"
  | (eof) "pipe_read now kd n nb s = Some (Return (Inr []), s)"
      "n = 0 \<or> buffer (the_pipe s) = [] \<and> n_writers (the_pipe s) = 0"
  | (failed) e where "pipe_read now kd n nb s = Some (Return (Inl e), s)"
  | (waits) "pipe_read now kd n nb s =
      Some (Wait, s\<lparr>the_pipe := (the_pipe s)\<lparr>read_queue := prepare_current (current (sys_kernel s)) (read_queue (the_pipe s))\<rparr>\<rparr>)"
      "kd = ReadEnd" "buffer (the_pipe s) = []" "\<not> nb"
proof (cases "kd = ReadEnd \<and> n \<noteq> 0 \<and> buffer (the_pipe s) \<noteq> []")
  case True
  let ?b = "buffer (the_pipe s)" and ?s = "with_buffer (drop n (buffer (the_pipe s))) s"
  have eq: "drop (min n (length ?b)) ?b = drop n ?b" "take (min n (length ?b)) ?b = take n ?b" by (simp_all add: min_def)
  obtain s1 where s1: "notify_writers now 0 ?s = Some s1" "bytes_same ?s s1"
    using notify_writers_result [of ?s now 0] assms by (metis with_buffer_simps(2))
  then have "kernel_inv (sys_kernel s1)" by (simp add: bytes_same_def)
  then obtain s2 where s2: "notify_poll now 1 s1 = Some s2" "bytes_same s1 s2" by (rule notify_poll_result)
  show ?thesis
    using True s1 s2 eq by (intro bytes [of s2]) (auto simp: pipe_read_def Let_def with_buffer_def intro: bytes_same_trans)
next
  case False
  let ?sig = "current_has_unblocked_signal (sys_kernel s)"
  from False consider "kd \<noteq> ReadEnd" | "kd = ReadEnd" "n = 0 \<or> buffer (the_pipe s) = [] \<and> n_writers (the_pipe s) = 0"
    | "kd = ReadEnd" "n \<noteq> 0" "buffer (the_pipe s) = []" "n_writers (the_pipe s) \<noteq> 0" "nb \<or> ?sig"
    | "kd = ReadEnd" "n \<noteq> 0" "buffer (the_pipe s) = []" "n_writers (the_pipe s) \<noteq> 0" "\<not> nb" "\<not> ?sig" by blast
  then show ?thesis
  proof cases
    case 1
    then show ?thesis by (intro failed) (simp add: pipe_read_def)
  next
    case 2
    then show ?thesis by (intro eof) (auto simp: pipe_read_def Let_def)
  next
    case 3
    then show ?thesis by (intro failed [of "if nb then EAGAIN else EINTR"]) (auto simp: pipe_read_def Let_def)
  next
    case 4
    then show ?thesis by (intro waits) (simp_all add: pipe_read_def Let_def)
  qed
qed

text \<open>Storing bytes wakes the readers.\<close>

lemma store_and_notify:
  assumes "kernel_inv (sys_kernel s)"
  obtains s1 s2 where "notify_readers now 0 (with_buffer b s) = Some s1" "notify_poll now 1 s1 = Some s2"
    "bytes_same (with_buffer b s) s2"
    "\<And>i. i \<in> set (waiters (read_queue (the_pipe s))) \<Longrightarrow>
        get_process (procs (sys_kernel s2)) i = map_option roused (get_process (procs (sys_kernel s)) i)"
proof -
  let ?s = "with_buffer b s"
  have inv: "kernel_inv (sys_kernel ?s)" using assms by simp
  obtain s1 where s1: "notify_readers now 0 ?s = Some s1" "bytes_same ?s s1"
    "\<And>i. get_process (procs (sys_kernel s1)) i =
      map_option (if i \<in> set (waiters (read_queue (the_pipe ?s))) then roused else id) (get_process (procs (sys_kernel ?s)) i)"
    by (rule notify_readers_result [OF inv, where now = now and c = 0]) blast
  then have "kernel_inv (sys_kernel s1)" by (simp add: bytes_same_def)
  then obtain s2 where s2: "notify_poll now 1 s1 = Some s2" "bytes_same s1 s2"
    "\<And>i. get_process (procs (sys_kernel s2)) i =
      map_option (if i \<in> set (waiters (poll_queue s1)) then roused else id) (get_process (procs (sys_kernel s1)) i)"
    by (rule notify_poll_result [where now = now and c = 1]) blast
  have "get_process (procs (sys_kernel s2)) i = map_option roused (get_process (procs (sys_kernel s)) i)"
    if "i \<in> set (waiters (read_queue (the_pipe s)))" for i
    using that by (simp add: s2(3) s1(3) option.map_comp comp_def)
  then show ?thesis by (rule that [OF s1(1) s2(1) bytes_same_trans [OF s1(2) s2(2)]])
qed

lemma pipe_write_result:
  assumes "kernel_inv (sys_kernel s)"
  obtains (bytes) c s' where "pipe_write now kd bs nb s = Some (Return (Inr c), s')" "kd = WriteEnd" "0 < c" "c \<le> length bs"
      "c = length bs \<or> PIPE_BUF < length bs" "length (buffer (the_pipe s)) + c \<le> PIPE_CAPACITY"
      "bytes_same (with_buffer (buffer (the_pipe s) @ take c bs) s) s'" "0 < n_readers (the_pipe s)"
      "\<And>i. i \<in> set (waiters (read_queue (the_pipe s))) \<Longrightarrow>
        get_process (procs (sys_kernel s')) i = map_option roused (get_process (procs (sys_kernel s)) i)"
  | (empty_write) "pipe_write now kd bs nb s = Some (Return (Inr 0), s)" "bs = []"
  | (broken) "pipe_write now kd bs nb s = Some (Return (Inl EPIPE), s)" "kd \<noteq> WriteEnd \<or> n_readers (the_pipe s) = 0"
  | (full) r where "pipe_write now kd bs nb s = Some (r, s)" "n_readers (the_pipe s) \<noteq> 0"
      "r = Return (Inl EAGAIN) \<and> nb \<or> r = Return (Inl EINTR) \<and> \<not> nb \<and> current_has_unblocked_signal (sys_kernel s)"
      "PIPE_CAPACITY < length (buffer (the_pipe s)) + length bs"
  | (waits) "pipe_write now kd bs nb s =
      Some (Wait, s\<lparr>the_pipe := (the_pipe s)\<lparr>write_queue := prepare_current (current (sys_kernel s)) (write_queue (the_pipe s))\<rparr>\<rparr>)"
      "PIPE_CAPACITY < length (buffer (the_pipe s)) + length bs" "\<not> nb"
      "n_readers (the_pipe s) \<noteq> 0" "\<not> current_has_unblocked_signal (sys_kernel s)"
proof -
  let ?b = "buffer (the_pipe s)" and ?sig = "current_has_unblocked_signal (sys_kernel s)"
  let ?avail = "PIPE_CAPACITY - length ?b"
  define can where "can = (if length bs \<le> PIPE_BUF then length bs \<le> ?avail else 0 < ?avail)"
  consider "kd = WriteEnd" "bs = []" | "kd \<noteq> WriteEnd \<or> bs \<noteq> [] \<and> n_readers (the_pipe s) = 0"
    | "kd = WriteEnd" "bs \<noteq> []" "n_readers (the_pipe s) \<noteq> 0" can
    | "kd = WriteEnd" "bs \<noteq> []" "n_readers (the_pipe s) \<noteq> 0" "\<not> can" "nb \<or> ?sig"
    | "kd = WriteEnd" "bs \<noteq> []" "n_readers (the_pipe s) \<noteq> 0" "\<not> can" "\<not> nb" "\<not> ?sig" by auto
  then show ?thesis
  proof cases
    case 1
    then show ?thesis by (intro empty_write) (simp_all add: pipe_write_def)
  next
    case 2
    then show ?thesis by (intro broken) (auto simp: pipe_write_def Let_def)
  next
    case 3
    define c where "c = (if length bs \<le> PIPE_BUF then length bs else min ?avail (length bs))"
    obtain l where len: "length bs = Suc l" using 3(2) by (cases bs) auto
    have fits: "0 < c" "c \<le> length bs" "c = length bs \<or> PIPE_BUF < length bs" "length ?b + c \<le> PIPE_CAPACITY"
      using 3 len by (auto simp: c_def can_def PIPE_CAPACITY_def split: if_splits)
    obtain s1 s2 where n: "notify_readers now 0 (with_buffer (?b @ take c bs) s) = Some s1" "notify_poll now 1 s1 = Some s2"
      "bytes_same (with_buffer (?b @ take c bs) s) s2"
      "\<And>i. i \<in> set (waiters (read_queue (the_pipe s))) \<Longrightarrow>
        get_process (procs (sys_kernel s2)) i = map_option roused (get_process (procs (sys_kernel s)) i)"
      by (rule store_and_notify [OF assms, where now = now and b = "?b @ take c bs"]) blast
    have "pipe_write now kd bs nb s = Some (Return (Inr c), s2)"
      using 3 n(1,2) by (cases "length bs \<le> PIPE_BUF") (simp_all add: pipe_write_def Let_def with_buffer_def c_def can_def)
    then show ?thesis
      using fits 3 n(3,4) by (intro bytes [of c s2]) simp_all
  next
    case 4
    then show ?thesis
      by (intro full [of "Return (Inl (if nb then EAGAIN else EINTR))"])
        (auto simp: pipe_write_def Let_def PIPE_CAPACITY_def can_def split: if_splits)
  next
    case 5
    then show ?thesis by (intro waits) (auto simp: pipe_write_def Let_def PIPE_CAPACITY_def can_def split: if_splits)
  qed
qed

text \<open>
  \<^verbatim>\<open>poll\<close> reports a pipe with any room as writable, but a short write is stored only as a whole: the caller
  is told to write and then gets EAGAIN.
\<close>

lemma poll_writable_write_fails:
  assumes "0 < n_readers (the_pipe s)" "length (buffer (the_pipe s)) < PIPE_CAPACITY" "length bs \<le> PIPE_BUF"
    "PIPE_CAPACITY < length (buffer (the_pipe s)) + length bs"
  shows "writable (pipe_poll WriteEnd (the_pipe s))" "pipe_write now WriteEnd bs True s = Some (Return (Inl EAGAIN), s)"
  using assms by (auto simp: pipe_poll_def pipe_write_def Let_def)

section \<open>Histories\<close>

text \<open>
  The life of a pipe: attempts to read and write by any process, waking up, closing of ends, and whatever
  else the kernel does in between.  Beside the state it records the bytes accepted from writers and the
  bytes given to readers.
\<close>

inductive pipe_step :: "pipe_sys \<times> u8 list \<times> u8 list \<Rightarrow> pipe_sys \<times> u8 list \<times> u8 list \<Rightarrow> bool" where
  Got: "pipe_read now kd n nb s = Some (Return (Inr bs), s') \<Longrightarrow> pipe_step (s, sent, got) (s', sent, got @ bs)"
| Read_other: "pipe_read now kd n nb s = Some (r, s') \<Longrightarrow> \<forall>bs. r \<noteq> Return (Inr bs) \<Longrightarrow>
    pipe_step (s, sent, got) (s', sent, got)"
| Sent: "pipe_write now kd bs nb s = Some (Return (Inr c), s') \<Longrightarrow> pipe_step (s, sent, got) (s', sent @ take c bs, got)"
| Write_other: "pipe_write now kd bs nb s = Some (r, s') \<Longrightarrow> \<forall>c. r \<noteq> Return (Inr c) \<Longrightarrow>
    pipe_step (s, sent, got) (s', sent, got)"
| Read_resume: "pipe_step (s, sent, got) (snd (read_resume i s), sent, got)"
| Write_resume: "pipe_step (s, sent, got) (snd (write_resume i s), sent, got)"
| Closed: "pipe_drop now kd s = Some s' \<Longrightarrow> pipe_step (s, sent, got) (s', sent, got)"
| Kernel: "kstep (sys_kernel s) k' \<Longrightarrow> pipe_step (s, sent, got) (s\<lparr>sys_kernel := k'\<rparr>, sent, got)"

definition pipe_ok :: "pipe_sys \<times> u8 list \<times> u8 list \<Rightarrow> bool" where
  "pipe_ok = (\<lambda>(s, sent, got). kernel_inv (sys_kernel s) \<and> length (buffer (the_pipe s)) \<le> PIPE_CAPACITY \<and>
     sent = got @ buffer (the_pipe s))"

lemma pipe_read_ok:
  assumes "pipe_read now kd n nb s = Some (r, s')" "pipe_ok (s, sent, got)"
  shows "pipe_ok (s', sent, case r of Return (Inr bs) \<Rightarrow> got @ bs | _ \<Rightarrow> got)"
proof -
  have inv: "kernel_inv (sys_kernel s)" using assms(2) by (simp add: pipe_ok_def)
  show ?thesis
    by (cases rule: pipe_read_result [OF inv, of now kd n nb])
      (use assms in \<open>auto simp: pipe_ok_def bytes_same_def\<close>)
qed

lemma pipe_write_ok:
  assumes "pipe_write now kd bs nb s = Some (r, s')" "pipe_ok (s, sent, got)"
  shows "pipe_ok (s', case r of Return (Inr c) \<Rightarrow> sent @ take c bs | _ \<Rightarrow> sent, got)"
proof -
  have inv: "kernel_inv (sys_kernel s)" using assms(2) by (simp add: pipe_ok_def)
  show ?thesis
    by (cases rule: pipe_write_result [OF inv, of now kd bs nb])
      (use assms in \<open>auto simp: pipe_ok_def bytes_same_def\<close>)
qed

lemma pipe_drop_ok:
  assumes "pipe_drop now kd s = Some s'" "pipe_ok (s, sent, got)"
  shows "pipe_ok (s', sent, got)"
proof -
  define s0 where "s0 = s\<lparr>the_pipe := (case kd of
       ReadEnd \<Rightarrow> (the_pipe s)\<lparr>n_readers := n_readers (the_pipe s) - 1\<rparr>
     | WriteEnd \<Rightarrow> (the_pipe s)\<lparr>n_writers := n_writers (the_pipe s) - 1\<rparr>)\<rparr>"
  have same: "sys_kernel s0 = sys_kernel s" "buffer (the_pipe s0) = buffer (the_pipe s)"
    by (simp_all add: s0_def split: pipe_end_kind.splits)
  then have inv: "kernel_inv (sys_kernel s0)" using assms(2) by (simp add: pipe_ok_def)
  obtain s1 where s1: "notify_readers now 0 s0 = Some s1" "bytes_same s0 s1" by (rule notify_readers_result [OF inv])
  then have "kernel_inv (sys_kernel s1)" by (simp add: bytes_same_def)
  then obtain s2 where s2: "notify_writers now 1 s1 = Some s2" "bytes_same s1 s2" by (rule notify_writers_result)
  then have "kernel_inv (sys_kernel s2)" by (simp add: bytes_same_def)
  then obtain s3 where s3: "notify_poll now 2 s2 = Some s3" "bytes_same s2 s3" by (rule notify_poll_result)
  have "s' = s3" using assms(1) s1 s2 s3 by (simp add: pipe_drop_def notify_state_change_def s0_def)
  then show ?thesis
    using assms(2) s1(2) s2(2) s3(2) same by (simp add: pipe_ok_def bytes_same_def)
qed

lemma pipe_step_ok: "pipe_step x y \<Longrightarrow> pipe_ok x \<Longrightarrow> pipe_ok y"
proof (induction rule: pipe_step.induct)
  case Got
  then show ?case using pipe_read_ok by fastforce
next
  case (Read_other now kd n nb s r s' sent got)
  then show ?case using pipe_read_ok [OF Read_other(1,3)] by (auto split: attempt.splits sum.splits)
next
  case Sent
  then show ?case using pipe_write_ok by fastforce
next
  case (Write_other now kd bs nb s r s' sent got)
  then show ?case using pipe_write_ok [OF Write_other(1,3)] by (auto split: attempt.splits sum.splits)
next
  case Closed
  then show ?case by (rule pipe_drop_ok)
next
  case Kernel
  then show ?case using kstep_inv by (auto simp: pipe_ok_def)
qed (simp_all add: pipe_ok_def read_resume_def write_resume_def)

section \<open>A sample pipe\<close>

definition sample_sys :: pipe_sys where
  "sample_sys = \<lparr>sys_kernel = demo_kernel, poll_queue = wait_queue_new, the_pipe = pipe_new\<rparr>"

lemma sample_sys_inv: "kernel_inv (sys_kernel sample_sys)"
  by (simp add: sample_sys_def demo_kernel_inv)

text \<open>A short write to an empty pipe succeeds.\<close>

lemma sample_write:
  assumes "kernel_inv (sys_kernel s)" "n_readers (the_pipe s) = 1" "buffer (the_pipe s) = []" "bs \<noteq> []" "length bs \<le> 10"
  shows "\<exists>s'. pipe_write now WriteEnd bs nb s = Some (Return (Inr (length bs)), s')"
  by (cases rule: pipe_write_result [OF assms(1), of now WriteEnd bs nb])
    (use assms in \<open>auto simp: PIPE_CAPACITY_def PIPE_BUF_def\<close>)

section \<open>Properties\<close>

text \<open>
  C29. A pipe is a bounded first-in-first-out channel: whatever the processes and the kernel do, the bytes
  accepted from writers are, in order, the bytes given to readers followed by the bytes in the buffer, and
  the buffer never holds more than its capacity.
\<close>

theorem pipe_fifo:
  assumes "kernel_inv k" "pipe_step\<^sup>*\<^sup>* (\<lparr>sys_kernel = k, poll_queue = q, the_pipe = pipe_new\<rparr>, [], []) (s, sent, got)"
  shows "sent = got @ buffer (the_pipe s) \<and> length (buffer (the_pipe s)) \<le> PIPE_CAPACITY"
proof -
  have "pipe_ok (\<lparr>sys_kernel = k, poll_queue = q, the_pipe = pipe_new\<rparr>, [], [])"
    using assms(1) by (simp add: pipe_ok_def pipe_new_def)
  with assms(2) have "pipe_ok (s, sent, got)"
    by (induction rule: rtranclp_induct) (auto intro: pipe_step_ok)
  then show ?thesis by (simp add: pipe_ok_def)
qed

theorem pipe_fifo_witness:
  "\<exists>s. pipe_step\<^sup>*\<^sup>* (sample_sys, [], []) (s, [1, 2, 3], []) \<and> [1, 2, 3] = buffer (the_pipe s)"
proof -
  let ?w = "pipe_write (\<lambda>_ _. 0) WriteEnd [1, 2, 3] True sample_sys"
  obtain s' where w: "?w = Some (Return (Inr 3), s')"
    using sample_write [of sample_sys "[1, 2, 3]" "\<lambda>_ _. 0" True] by (auto simp: sample_sys_def pipe_new_def demo_kernel_inv)
  then have "pipe_step (sample_sys, [], []) (s', [1, 2, 3], [])"
    using pipe_step.Sent [of "\<lambda>_ _. 0" WriteEnd "[1, 2, 3]" True sample_sys 3 s' "[]" "[]"] by simp
  then have "pipe_step\<^sup>*\<^sup>* (sample_sys, [], []) (s', [1, 2, 3], [])" by blast
  moreover from this have "[1, 2, 3] = [] @ buffer (the_pipe s')"
    using pipe_fifo [OF demo_kernel_inv] unfolding sample_sys_def by blast
  ultimately show ?thesis by auto
qed

text \<open>
  C30. A write of at most \<^verbatim>\<open>PIPE_BUF\<close> bytes is all or nothing and says why: it fails with EPIPE exactly when no
  reader is left, it is stored in one piece exactly when it fits, and otherwise, with the buffer unchanged,
  it fails with EAGAIN if the caller does not want to block, with EINTR on a pending signal, or waits.
\<close>

theorem pipe_write_atomic:
  assumes "kernel_inv (sys_kernel s)" "bs \<noteq> []" "length bs \<le> PIPE_BUF"
  shows "\<exists>r s'. pipe_write now WriteEnd bs nb s = Some (r, s') \<and>
    (if n_readers (the_pipe s) = 0 then r = Return (Inl EPIPE) \<and> s' = s
     else if length (buffer (the_pipe s)) + length bs \<le> PIPE_CAPACITY
     then r = Return (Inr (length bs)) \<and> buffer (the_pipe s') = buffer (the_pipe s) @ bs
     else buffer (the_pipe s') = buffer (the_pipe s) \<and>
       r = (if nb then Return (Inl EAGAIN)
            else if current_has_unblocked_signal (sys_kernel s) then Return (Inl EINTR) else Wait))"
  by (cases rule: pipe_write_result [OF assms(1), of now WriteEnd bs nb])
    (use assms(2,3) in \<open>auto simp: bytes_same_def\<close>)

theorem pipe_write_atomic_witness:
  "\<exists>s'. pipe_write (\<lambda>_ _. 0) WriteEnd [1, 2, 3] True sample_sys = Some (Return (Inr 3), s') \<and> buffer (the_pipe s') = [1, 2, 3]"
proof -
  have "length [1, 2, 3 :: u8] \<le> PIPE_BUF" "[1, 2, 3 :: u8] \<noteq> []" by (simp_all add: PIPE_BUF_def)
  with pipe_write_atomic [OF sample_sys_inv, of "[1, 2, 3]" "\<lambda>_ _. 0" True] show ?thesis
    by (auto simp: sample_sys_def pipe_new_def PIPE_CAPACITY_def)
qed

text \<open>
  C31. A reader that found the pipe empty is not forgotten: if it entered the queue and, after whatever the
  kernel did meanwhile (putting it to sleep included), a writer stores bytes, then the reader can run or
  returns from \<^verbatim>\<open>await_io\<close> at once, and its next attempt returns bytes.
\<close>

theorem pipe_reader_woken:
  assumes "kernel_inv (sys_kernel s)" "pipe_read now ReadEnd n False s = Some (Wait, s1)" "0 < n"
    and "None \<in> set (read_queue (the_pipe s))" "current (sys_kernel s) = i"
    and "kernel_inv k" "get_process (procs k) i = Some p" "p_state p \<noteq> Dead" "p_state p \<noteq> Stopped"
    and "pipe_write now' WriteEnd bs nb (s1\<lparr>sys_kernel := k\<rparr>) = Some (Return (Inr c), s2)" "bs \<noteq> []"
  shows "\<exists>q. get_process (procs (sys_kernel s2)) i = Some q \<and> p_state q \<noteq> AwaitingIo \<and>
    (\<exists>r k'. await_io_enter reserve t timeout None ((sys_kernel s2)\<lparr>current := i\<rparr>) = Some (Inl r, k')) \<and>
    (\<exists>got s3. pipe_read now'' ReadEnd n False s2 = Some (Return (Inr got), s3) \<and> got \<noteq> [])"
proof -
  let ?s = "s1\<lparr>sys_kernel := k\<rparr>"
  have s1: "s1 = s\<lparr>the_pipe := (the_pipe s)\<lparr>read_queue := prepare_current i (read_queue (the_pipe s))\<rparr>\<rparr>"
    by (cases rule: pipe_read_result [OF assms(1), of now ReadEnd n False]) (use assms(2,5) in auto)
  have queued: "i \<in> set (waiters (read_queue (the_pipe ?s)))"
    using prepare_current_waiters(1) [OF assms(4)] by (simp add: s1)
  have inv: "kernel_inv (sys_kernel ?s)" using assms(6) by simp
  have stored: "bytes_same (with_buffer (buffer (the_pipe ?s) @ take c bs) ?s) s2 \<and> 0 < c \<and>
    get_process (procs (sys_kernel s2)) i = map_option roused (get_process (procs k) i)"
    by (cases rule: pipe_write_result [OF inv, of now' WriteEnd bs nb]) (use assms(10,11) queued in auto)
  then have q: "get_process (procs (sys_kernel s2)) i = Some (roused p)" using assms(7) by simp
  have ready: "kernel_inv (sys_kernel s2)" "buffer (the_pipe s2) \<noteq> []"
    using stored assms(11) by (auto simp: bytes_same_def)
  have "\<exists>got s3. pipe_read now'' ReadEnd n False s2 = Some (Return (Inr got), s3) \<and> got \<noteq> []"
    by (cases rule: pipe_read_result [OF ready(1), of now'' ReadEnd n False])
      (use ready(2) assms(3) in \<open>auto simp: pipe_read_def Let_def split: if_splits bind_splits\<close>)
  with q roused_does_not_sleep [OF q assms(8,9)] show ?thesis by blast
qed

theorem pipe_reader_woken_witness:
  "\<exists>s1 s2 q got s3. pipe_read (\<lambda>_ _. 0) ReadEnd 8 False sample_sys = Some (Wait, s1) \<and>
    pipe_write (\<lambda>_ _. 1) WriteEnd [7] False s1 = Some (Return (Inr 1), s2) \<and>
    get_process (procs (sys_kernel s2)) 2 = Some q \<and> p_state q \<noteq> AwaitingIo \<and>
    pipe_read (\<lambda>_ _. 2) ReadEnd 8 False s2 = Some (Return (Inr got), s3) \<and> got \<noteq> []"
proof -
  let ?s1 = "sample_sys\<lparr>the_pipe := pipe_new\<lparr>read_queue := prepare_current 2 wait_queue_new\<rparr>\<rparr>"
  have cur: "\<not> current_has_unblocked_signal demo_kernel" "current demo_kernel = 2"
    "map_option p_state (get_process (procs demo_kernel) 2) = Some Running" by code_simp+
  then obtain p where p: "get_process (procs demo_kernel) 2 = Some p" "p_state p = Running" by auto
  have r: "pipe_read (\<lambda>_ _. 0) ReadEnd 8 False sample_sys = Some (Wait, ?s1)"
    using cur by (simp add: pipe_read_def sample_sys_def pipe_new_def Let_def)
  have same: "?s1\<lparr>sys_kernel := demo_kernel\<rparr> = ?s1" by (simp add: sample_sys_def)
  obtain s2 where w: "pipe_write (\<lambda>_ _. 1) WriteEnd [7] False (?s1\<lparr>sys_kernel := demo_kernel\<rparr>) = Some (Return (Inr 1), s2)"
    using sample_write [of ?s1 "[7]" "\<lambda>_ _. 1" False] demo_kernel_inv unfolding same
    by (auto simp: sample_sys_def pipe_new_def)
  have "None \<in> set (read_queue (the_pipe sample_sys))" "current (sys_kernel sample_sys) = 2"
    using cur(2) by (simp_all add: sample_sys_def pipe_new_def wait_queue_new_def WAIT_QUEUE_CAPACITY_def)
  from pipe_reader_woken [OF sample_sys_inv r _ this demo_kernel_inv p(1) _ _ w, of "\<lambda>n. Some n" 0 None "\<lambda>_ _. 2"] p(2) r w same
  show ?thesis by fastforce
qed

end
