(* ===== verification/Memfd.thy ===== *)
theory Memfd
  imports Frame_Alloc Fd_Table
begin

text \<open>
  Anonymous memory files (\<^verbatim>\<open>sys/fs/memfd.rs\<close>) over the frame allocator: a file is a length and a list of
  frames, its bytes live in physical memory.  The machine state is the allocator's state and the bytes of
  every frame; frames are named by their address.  The allocator is an interface: the operations take its
  two calls as arguments, \<^verbatim>\<open>frame_source\<close> states what they promise, and the frame allocator provides it.
\<close>

section \<open>Model\<close>

definition EIO :: int where "EIO = 5"
definition PAGE :: nat where "PAGE = 4096"

record 's machine =
  frames :: 's
  phys :: "nat \<Rightarrow> nat \<Rightarrow> u8"

record memfd =
  mf_name :: string
  mf_len :: nat
  mf_pages :: "nat list"

definition memfd_new :: "string \<Rightarrow> memfd" where
  "memfd_new nm = \<lparr>mf_name = nm, mf_len = 0, mf_pages = []\<rparr>"

text \<open>\<^verbatim>\<open>usize\<close> values are naturals below \<^verbatim>\<open>2^64\<close>; the sum wraps.\<close>

definition align_up :: "nat \<Rightarrow> nat \<Rightarrow> nat" where
  "align_up x a = unat ((of_nat x + of_nat a - 1) AND NOT (of_nat a - 1) :: u64)"

definition usize_checked_add :: "nat \<Rightarrow> nat \<Rightarrow> nat option" where
  "usize_checked_add a b = (if a + b < 2 ^ 64 then Some (a + b) else None)"

definition allocate_zeroed_frame ::
  "('s \<Rightarrow> (nat option \<times> 's) rs) \<Rightarrow> 's machine \<Rightarrow> (nat option \<times> 's machine) rs" where
  "allocate_zeroed_frame alloc m = do {
     (r, s) \<leftarrow> alloc (frames m);
     Some (case r of
         None \<Rightarrow> (None, m\<lparr>frames := s\<rparr>)
       | Some fr \<Rightarrow> (Some fr, m\<lparr>frames := s, phys := (phys m)(fr := (\<lambda>_. 0))\<rparr>))
   }"

definition free_frame :: "('s \<Rightarrow> nat \<Rightarrow> 's rs) \<Rightarrow> nat \<Rightarrow> 's machine \<Rightarrow> 's machine rs" where
  "free_frame dealloc fr m = do { s \<leftarrow> dealloc (frames m) fr; Some (m\<lparr>frames := s\<rparr>) }"

text \<open>The two loops of \<^verbatim>\<open>truncate\<close>; the argument counts the iterations that are left.\<close>

fun grow_loop ::
  "('s \<Rightarrow> (nat option \<times> 's) rs) \<Rightarrow> nat \<Rightarrow> 's machine \<Rightarrow> memfd \<Rightarrow> (bool \<times> 's machine \<times> memfd) rs" where
  "grow_loop alloc 0 m f = Some (True, m, f)"
| "grow_loop alloc (Suc n) m f = do {
     (r, m') \<leftarrow> allocate_zeroed_frame alloc m;
     case r of
       None \<Rightarrow> Some (False, m', f)
     | Some fr \<Rightarrow> grow_loop alloc n m' (f\<lparr>mf_pages := mf_pages f @ [fr]\<rparr>)
   }"

fun shrink_loop ::
  "('s \<Rightarrow> nat \<Rightarrow> 's rs) \<Rightarrow> nat \<Rightarrow> 's machine \<Rightarrow> memfd \<Rightarrow> ('s machine \<times> memfd) rs" where
  "shrink_loop dealloc 0 m f = Some (m, f)"
| "shrink_loop dealloc (Suc n) m f =
     (if mf_pages f = [] then Some (m, f)
      else do {
        m' \<leftarrow> free_frame dealloc (last (mf_pages f)) m;
        shrink_loop dealloc n m' (f\<lparr>mf_pages := butlast (mf_pages f)\<rparr>)
      })"

definition page_get :: "nat list \<Rightarrow> nat \<Rightarrow> nat option" where
  "page_get pages i = (if i < length pages then Some (pages ! i) else None)"

definition store_page :: "nat \<Rightarrow> nat \<Rightarrow> u8 list \<Rightarrow> (nat \<Rightarrow> nat \<Rightarrow> u8) \<Rightarrow> nat \<Rightarrow> nat \<Rightarrow> u8" where
  "store_page fr off bs ph =
    ph(fr := (\<lambda>i. if off \<le> i \<and> i < off + length bs then bs ! (i - off) else ph fr i))"

text \<open>How many bytes one iteration of a copy loop handles: to the end of the page at most.\<close>

definition chunk :: "nat \<Rightarrow> nat \<Rightarrow> nat" where
  "chunk file_off left = min left (PAGE - file_off mod PAGE)"

lemma chunk_pos: "0 < left \<Longrightarrow> 0 < chunk file_off left"
  by (simp add: chunk_def PAGE_def)

lemma chunk_le: "chunk file_off left \<le> left"
  by (simp add: chunk_def)

function read_loop ::
  "(nat \<Rightarrow> nat \<Rightarrow> u8) \<Rightarrow> nat list \<Rightarrow> nat \<Rightarrow> nat \<Rightarrow> u8 list \<Rightarrow> int + u8 list" where
  "read_loop ph pages file_off left acc =
    (if left = 0 then Inr acc
     else
       let page_off = file_off mod PAGE; count = chunk file_off left in
       case page_get pages (file_off div PAGE) of
         None \<Rightarrow> Inl EIO
       | Some fr \<Rightarrow> read_loop ph pages (file_off + count) (left - count) (acc @ map (ph fr) [page_off..<page_off + count]))"
  by pat_completeness auto
termination
  by (relation "measure (\<lambda>(_, _, _, left, _). left)") (auto simp: chunk_pos Let_def)

function write_loop ::
  "nat list \<Rightarrow> nat \<Rightarrow> u8 list \<Rightarrow> (nat \<Rightarrow> nat \<Rightarrow> u8) \<Rightarrow> bool \<times> (nat \<Rightarrow> nat \<Rightarrow> u8)" where
  "write_loop pages file_off rest ph =
    (if rest = [] then (True, ph)
     else
       let page_off = file_off mod PAGE; count = chunk file_off (length rest) in
       case page_get pages (file_off div PAGE) of
         None \<Rightarrow> (False, ph)
       | Some fr \<Rightarrow> write_loop pages (file_off + count) (drop count rest) (store_page fr page_off (take count rest) ph))"
  by pat_completeness auto
termination
  by (relation "measure (\<lambda>(_, _, rest, _). length rest)") (auto simp: chunk_pos)

function zero_loop ::
  "nat list \<Rightarrow> nat \<Rightarrow> nat \<Rightarrow> (nat \<Rightarrow> nat \<Rightarrow> u8) \<Rightarrow> bool \<times> (nat \<Rightarrow> nat \<Rightarrow> u8)" where
  "zero_loop pages file_off end_off ph =
    (if file_off < end_off then
       let page_off = file_off mod PAGE; count = chunk file_off (end_off - file_off) in
       case page_get pages (file_off div PAGE) of
         None \<Rightarrow> (False, ph)
       | Some fr \<Rightarrow> zero_loop pages (file_off + count) end_off (store_page fr page_off (replicate count 0) ph)
     else (True, ph))"
  by pat_completeness auto
termination
  by (relation "measure (\<lambda>(_, file_off, end_off, _). end_off - file_off)") (auto simp: chunk_def PAGE_def)

declare read_loop.simps [simp del] write_loop.simps [simp del] zero_loop.simps [simp del]

text \<open>The operations: the error number or the result on the left, then the machine and the file.\<close>

definition zero_range :: "memfd \<Rightarrow> nat \<Rightarrow> nat \<Rightarrow> 's machine \<Rightarrow> (int + unit) \<times> 's machine" where
  "zero_range f offset n m =
    (if n = 0 then (Inr (), m)
     else case usize_checked_add offset n of
       None \<Rightarrow> (Inl EINVAL, m)
     | Some end_off \<Rightarrow>
         let (ok, ph) = zero_loop (mf_pages f) offset end_off (phys m) in
         (if ok then Inr () else Inl EIO, m\<lparr>phys := ph\<rparr>))"

definition memfd_truncate ::
  "('s \<Rightarrow> (nat option \<times> 's) rs) \<Rightarrow> ('s \<Rightarrow> nat \<Rightarrow> 's rs) \<Rightarrow> nat \<Rightarrow> 's machine \<Rightarrow> memfd \<Rightarrow>
    ((int + unit) \<times> 's machine \<times> memfd) rs" where
  "memfd_truncate alloc dealloc n m f = do {
     let needed_pages = (if n = 0 then 0 else align_up n PAGE div PAGE);
     (ok, m1, f1) \<leftarrow> grow_loop alloc (needed_pages - length (mf_pages f)) m f;
     if \<not> ok then Some (Inl EIO, m1, f1)
     else do {
       (m2, f2) \<leftarrow> shrink_loop dealloc (length (mf_pages f1) - needed_pages) m1 f1;
       let (r, m3) = (if n > mf_len f2 then zero_range f2 (mf_len f2) (n - mf_len f2) m2 else (Inr (), m2));
       Some (case r of Inl e \<Rightarrow> (Inl e, m3, f2) | Inr _ \<Rightarrow> (Inr (), m3, f2\<lparr>mf_len := n\<rparr>))
     }
   }"

definition memfd_read_at :: "nat \<Rightarrow> nat \<Rightarrow> 's machine \<Rightarrow> memfd \<Rightarrow> int + u8 list" where
  "memfd_read_at offset n m f =
    (if offset \<ge> mf_len f \<or> n = 0 then Inr []
     else read_loop (phys m) (mf_pages f) offset (min n (mf_len f - offset)) [])"

definition memfd_write_at ::
  "('s \<Rightarrow> (nat option \<times> 's) rs) \<Rightarrow> ('s \<Rightarrow> nat \<Rightarrow> 's rs) \<Rightarrow> nat \<Rightarrow> u8 list \<Rightarrow> 's machine \<Rightarrow> memfd \<Rightarrow>
    ((int + nat) \<times> 's machine \<times> memfd) rs" where
  "memfd_write_at alloc dealloc offset bs m f =
    (if bs = [] then Some (Inr 0, m, f)
     else case usize_checked_add offset (length bs) of
       None \<Rightarrow> Some (Inl EINVAL, m, f)
     | Some end_off \<Rightarrow> do {
         (r, m1, f1) \<leftarrow> (if end_off > mf_len f then memfd_truncate alloc dealloc end_off m f else Some (Inr (), m, f));
         Some (case r of
             Inl e \<Rightarrow> (Inl e, m1, f1)
           | Inr _ \<Rightarrow>
               let (ok, ph) = write_loop (mf_pages f1) offset bs (phys m1) in
               (if ok then Inr (length bs) else Inl EIO, m1\<lparr>phys := ph\<rparr>, f1))
       })"

text \<open>\<^verbatim>\<open>Drop\<close>: the frames go back in order.\<close>

fun drop_pages :: "('s \<Rightarrow> nat \<Rightarrow> 's rs) \<Rightarrow> nat list \<Rightarrow> 's machine \<Rightarrow> 's machine rs" where
  "drop_pages dealloc [] m = Some m"
| "drop_pages dealloc (fr # frs) m = do { m' \<leftarrow> free_frame dealloc fr m; drop_pages dealloc frs m' }"

definition memfd_drop :: "('s \<Rightarrow> nat \<Rightarrow> 's rs) \<Rightarrow> 's machine \<Rightarrow> memfd \<Rightarrow> 's machine rs" where
  "memfd_drop dealloc m f = drop_pages dealloc (mf_pages f) m"

section \<open>The bytes of a file\<close>

definition byte_at :: "(nat \<Rightarrow> nat \<Rightarrow> u8) \<Rightarrow> nat list \<Rightarrow> nat \<Rightarrow> u8" where
  "byte_at ph pages i = ph (pages ! (i div PAGE)) (i mod PAGE)"

definition contents :: "'s machine \<Rightarrow> memfd \<Rightarrow> u8 list" where
  "contents m f = map (byte_at (phys m) (mf_pages f)) [0..<mf_len f]"

lemma length_contents [simp]: "length (contents m f) = mf_len f"
  by (simp add: contents_def)

lemma nth_contents: "i < mf_len f \<Longrightarrow> contents m f ! i = byte_at (phys m) (mf_pages f) i"
  by (simp add: contents_def)

lemma chunk_page:
  assumes "i < chunk off left"
  shows "(off + i) div PAGE = off div PAGE" "(off + i) mod PAGE = off mod PAGE + i"
proof -
  have lt: "off mod PAGE + i < PAGE" using assms by (simp add: chunk_def less_diff_conv add.commute)
  have "off + i = off div PAGE * PAGE + (off mod PAGE + i)" by simp
  with lt show "(off + i) div PAGE = off div PAGE" "(off + i) mod PAGE = off mod PAGE + i"
    by (metis div_mult_self3 div_less add_0_right mult.commute PAGE_def zero_neq_numeral)
      (metis \<open>off + i = off div PAGE * PAGE + (off mod PAGE + i)\<close> lt mod_less mod_mult_self3)
qed

lemma page_in: "off < PAGE * n \<Longrightarrow> off div PAGE < n"
  by (simp add: PAGE_def less_mult_imp_div_less mult.commute)

lemma read_loop_result:
  "off + left \<le> PAGE * length pages \<Longrightarrow>
    read_loop ph pages off left acc = Inr (acc @ map (byte_at ph pages) [off..<off + left])"
proof (induction ph pages off left acc rule: read_loop.induct)
  case (1 ph pages off left acc)
  show ?case
  proof (cases "left = 0")
    case False
    let ?c = "chunk off left" and ?p = "off div PAGE"
    have p: "?p < length pages" using 1(2) False by (intro page_in) simp
    have split: "[off..<off + left] = [off..<off + ?c] @ [off + ?c..<off + ?c + (left - ?c)]"
      using upt_add_eq_append [of off "off + ?c" "left - ?c"] chunk_le [of off left] by simp
    have "map (ph (pages ! ?p)) [off mod PAGE..<off mod PAGE + ?c] = map (byte_at ph pages) [off..<off + ?c]"
      by (rule nth_equalityI) (simp_all add: byte_at_def chunk_page)
    moreover have get: "page_get pages ?p = Some (pages ! ?p)" using p by (simp add: page_get_def)
    moreover have "off + ?c + (left - ?c) \<le> PAGE * length pages" using 1(2) chunk_le [of off left] by simp
    ultimately show ?thesis
      using 1(1) [OF False refl refl get] False by (subst read_loop.simps) (simp add: Let_def split)
  qed (simp add: read_loop.simps)
qed

lemma byte_at_store:
  assumes "distinct pages" "p < length pages" "i < PAGE * length pages" "off + length bs \<le> PAGE"
  shows "byte_at (store_page (pages ! p) off bs ph) pages i =
    (if PAGE * p + off \<le> i \<and> i < PAGE * p + off + length bs then bs ! (i - (PAGE * p + off)) else byte_at ph pages i)"
proof -
  have q: "i div PAGE < length pages" using assms(3) by (rule page_in)
  have i: "i = PAGE * (i div PAGE) + i mod PAGE" "i mod PAGE < PAGE" by (simp_all add: PAGE_def)
  show ?thesis
  proof (cases "i div PAGE = p")
    case True
    define r where "r = i mod PAGE"
    have "byte_at ph' pages i = ph' (pages ! p) r" for ph' using True by (simp add: byte_at_def r_def)
    moreover have "i = PAGE * p + r" using i(1) True by (simp add: r_def)
    ultimately show ?thesis by (simp add: store_page_def)
  next
    case False
    then have "pages ! (i div PAGE) \<noteq> pages ! p" using assms(1,2) q by (simp add: nth_eq_iff_index_eq)
    moreover have "\<not> (PAGE * p + off \<le> i \<and> i < PAGE * p + off + length bs)"
    proof
      assume "PAGE * p + off \<le> i \<and> i < PAGE * p + off + length bs"
      then have "PAGE * p \<le> i" "i < PAGE * (p + 1)" using assms(4) by simp_all
      then have "i div PAGE = p" by (simp add: PAGE_def div_nat_eqI mult.commute)
      with False show False ..
    qed
    ultimately show ?thesis by (auto simp: byte_at_def store_page_def)
  qed
qed

lemma write_loop_result:
  assumes "distinct pages" "off + length bs \<le> PAGE * length pages"
  obtains ph' where "write_loop pages off bs ph = (True, ph')"
    "\<And>i. i < PAGE * length pages \<Longrightarrow>
       byte_at ph' pages i = (if off \<le> i \<and> i < off + length bs then bs ! (i - off) else byte_at ph pages i)"
    "\<And>fr. fr \<notin> set pages \<Longrightarrow> ph' fr = ph fr"
  using assms
proof (induction pages off bs ph arbitrary: thesis rule: write_loop.induct)
  case (1 pages off bs ph)
  show ?case
  proof (cases "bs = []")
    case True
    then show ?thesis by (intro 1(2) [of ph]) (auto simp: write_loop.simps)
  next
    case False
    let ?c = "chunk off (length bs)" and ?p = "off div PAGE"
    let ?ph = "store_page (pages ! ?p) (off mod PAGE) (take ?c bs) ph"
    have p: "?p < length pages" using 1(4) False by (intro page_in) (cases bs; simp)
    then have get: "page_get pages ?p = Some (pages ! ?p)" by (simp add: page_get_def)
    have c: "?c \<le> length bs" by (rule chunk_le)
    have "off + ?c + length (drop ?c bs) \<le> PAGE * length pages" using 1(4) c by simp
    then obtain ph' where ph': "write_loop pages (off + ?c) (drop ?c bs) ?ph = (True, ph')"
      "\<And>i. i < PAGE * length pages \<Longrightarrow> byte_at ph' pages i =
         (if off + ?c \<le> i \<and> i < off + ?c + length (drop ?c bs) then drop ?c bs ! (i - (off + ?c)) else byte_at ?ph pages i)"
      "\<And>fr. fr \<notin> set pages \<Longrightarrow> ph' fr = ?ph fr"
      using 1(1) [OF False refl refl get _ 1(3)] by blast
    have at: "PAGE * ?p + off mod PAGE = off" by simp
    have page: "off mod PAGE + length (take ?c bs) \<le> PAGE" by (auto simp: chunk_def PAGE_def)
    show ?thesis
    proof (rule 1(2))
      show "write_loop pages off bs ph = (True, ph')"
        using False get ph'(1) by (subst write_loop.simps) (simp add: Let_def)
      show "byte_at ph' pages i = (if off \<le> i \<and> i < off + length bs then bs ! (i - off) else byte_at ph pages i)"
        if "i < PAGE * length pages" for i
        using ph'(2) [OF that] byte_at_store [OF 1(3) p that page, of ph] c unfolding at by auto
      show "ph' fr = ph fr" if "fr \<notin> set pages" for fr
        using ph'(3) [OF that] that p by (auto simp: store_page_def)
    qed
  qed
qed

lemma zero_loop_write:
  "file_off \<le> end_off \<Longrightarrow> zero_loop pages file_off end_off ph = write_loop pages file_off (replicate (end_off - file_off) 0) ph"
proof (induction pages file_off end_off ph rule: zero_loop.induct)
  case (1 pages file_off end_off ph)
  show ?case
  proof (cases "file_off < end_off")
    case True
    let ?c = "chunk file_off (end_off - file_off)"
    have c: "?c \<le> end_off - file_off" by (rule chunk_le)
    with True have next_off: "file_off + ?c \<le> end_off" by linarith
    show ?thesis
    proof (cases "page_get pages (file_off div PAGE)")
      case None
      with True show ?thesis by (simp add: zero_loop.simps write_loop.simps)
    next
      case (Some fr)
      from 1(1) [OF True refl refl Some next_off] c True Some show ?thesis
        by (subst zero_loop.simps, subst write_loop.simps) (simp add: Let_def min_absorb1)
    qed
  next
    case False
    with 1(2) show ?thesis by (simp add: zero_loop.simps write_loop.simps)
  qed
qed

lemma align_up_pages:
  assumes "n + 4096 \<le> 2 ^ 64"
  shows "align_up n PAGE div PAGE = (n + 4095) div 4096"
proof -
  define w :: u64 where "w = of_nat (n + 4095)"
  have w: "unat w = n + 4095" using assms by (simp add: w_def unat_of_nat take_bit_nat_eq_self del: of_nat_add)
  have "(of_nat n + of_nat PAGE - 1) AND NOT (of_nat PAGE - 1) = w AND NOT (mask 12)"
    by (simp add: w_def PAGE_def mask_eq_exp_minus_1 add.commute)
  also have "\<dots> = push_bit 12 (drop_bit 12 w)"
    by (rule bit_word_eqI) (auto simp: bit_simps)
  finally have "align_up n PAGE = unat (push_bit 12 (drop_bit 12 w))" by (simp only: align_up_def)
  moreover have "x div PAGE = drop_bit 12 x" for x :: nat by (simp add: drop_bit_eq_div PAGE_def)
  ultimately have "align_up n PAGE div PAGE = unat (drop_bit 12 (push_bit 12 (drop_bit 12 w)))"
    by (simp only: unat_drop_bit_eq)
  also have "drop_bit 12 (push_bit 12 (drop_bit 12 w)) = drop_bit 12 w"
    by (rule bit_word_eqI) (auto simp: bit_simps dest: bit_imp_le_length)
  also have "unat (drop_bit 12 w) = (n + 4095) div 4096" by (simp only: unat_drop_bit_eq w) (simp add: drop_bit_eq_div)
  finally show ?thesis .
qed

section \<open>What the allocator promises\<close>

locale frame_source =
  fixes alloc :: "'s \<Rightarrow> (nat option \<times> 's) rs"
    and dealloc :: "'s \<Rightarrow> nat \<Rightarrow> 's rs"
    and inv :: "'s \<Rightarrow> bool"
    and taken :: "'s \<Rightarrow> nat set"
  assumes alloc_result: "inv s \<Longrightarrow> \<exists>r s'. alloc s = Some (r, s') \<and> inv s' \<and>
      (case r of None \<Rightarrow> taken s' = taken s | Some fr \<Rightarrow> fr \<notin> taken s \<and> taken s' = insert fr (taken s))"
    and dealloc_result: "inv s \<Longrightarrow> fr \<in> taken s \<Longrightarrow>
      \<exists>s'. dealloc s fr = Some s' \<and> inv s' \<and> taken s' = taken s - {fr}"

text \<open>A file owns its frames, they are different, and they hold its bytes.\<close>

definition memfd_ok :: "nat set \<Rightarrow> memfd \<Rightarrow> bool" where
  "memfd_ok T f \<longleftrightarrow> distinct (mf_pages f) \<and> set (mf_pages f) \<subseteq> T \<and> mf_len f \<le> PAGE * length (mf_pages f)"

text \<open>Frames of others are neither taken nor given back nor written.\<close>

definition others_kept :: "('s \<Rightarrow> nat set) \<Rightarrow> 's machine \<Rightarrow> memfd \<Rightarrow> 's machine \<Rightarrow> memfd \<Rightarrow> bool" where
  "others_kept taken m f m' f' \<longleftrightarrow>
    taken (frames m') - set (mf_pages f') = taken (frames m) - set (mf_pages f) \<and>
    (\<forall>fr \<in> taken (frames m) - set (mf_pages f). phys m' fr = phys m fr)"

lemma others_kept_refl [simp]: "others_kept taken m f m f"
  by (simp add: others_kept_def)

lemma others_kept_trans:
  "others_kept taken m f m1 f1 \<Longrightarrow> others_kept taken m1 f1 m2 f2 \<Longrightarrow> others_kept taken m f m2 f2"
  by (simp add: others_kept_def)

lemma contents_cong:
  assumes "mf_len f' = mf_len f"
    "\<And>i. i < mf_len f \<Longrightarrow> byte_at (phys m') (mf_pages f') i = byte_at (phys m) (mf_pages f) i"
  shows "contents m' f' = contents m f"
  using assms by (simp add: contents_def)

context frame_source
begin

lemma grow_loop_result:
  assumes "inv (frames m)" "memfd_ok (taken (frames m)) f"
  obtains ok m' f' where "grow_loop alloc n m f = Some (ok, m', f')" "inv (frames m')"
    "memfd_ok (taken (frames m')) f'" "others_kept taken m f m' f'" "mf_len f' = mf_len f"
    "contents m' f' = contents m f" "ok \<longrightarrow> length (mf_pages f') = length (mf_pages f) + n"
    "mf_name f' = mf_name f"
  using assms
proof (induction n arbitrary: m f thesis)
  case 0
  then show ?case by (intro "0.prems"(1) [of True m f]) simp_all
next
  case (Suc n)
  obtain r s' where a: "alloc (frames m) = Some (r, s')" "inv s'"
    "case r of None \<Rightarrow> taken s' = taken (frames m) | Some fr \<Rightarrow> fr \<notin> taken (frames m) \<and> taken s' = insert fr (taken (frames m))"
    using alloc_result [OF Suc.prems(2)] by blast
  show ?case
  proof (cases r)
    case None
    with a Suc.prems show ?thesis
      by (intro Suc.prems(1) [of False "m\<lparr>frames := s'\<rparr>" f])
        (simp_all add: allocate_zeroed_frame_def others_kept_def contents_def)
  next
    case (Some fr)
    let ?m = "m\<lparr>frames := s', phys := (phys m)(fr := (\<lambda>_. 0))\<rparr>" and ?f = "f\<lparr>mf_pages := mf_pages f @ [fr]\<rparr>"
    have fr: "fr \<notin> taken (frames m)" "taken s' = insert fr (taken (frames m))" using a(3) Some by simp_all
    then have new: "fr \<notin> set (mf_pages f)" using Suc.prems(3) by (auto simp: memfd_ok_def)
    have ok: "memfd_ok (taken (frames ?m)) ?f"
      using Suc.prems(3) fr new by (auto simp: memfd_ok_def)
    have "byte_at (phys ?m) (mf_pages ?f) i = byte_at (phys m) (mf_pages f) i" if "i < mf_len f" for i
    proof -
      have "i div PAGE < length (mf_pages f)" using that Suc.prems(3) by (intro page_in) (simp add: memfd_ok_def)
      then show ?thesis using new by (auto simp: byte_at_def nth_append)
    qed
    then have same: "contents ?m ?f = contents m f" by (intro contents_cong) simp_all
    have kept: "others_kept taken m f ?m ?f" using fr by (auto simp: others_kept_def)
    from ok a(2) obtain ok' m' f' where r: "grow_loop alloc n ?m ?f = Some (ok', m', f')" "inv (frames m')"
      "memfd_ok (taken (frames m')) f'" "others_kept taken ?m ?f m' f'" "mf_len f' = mf_len ?f"
      "contents m' f' = contents ?m ?f" "ok' \<longrightarrow> length (mf_pages f') = length (mf_pages ?f) + n" "mf_name f' = mf_name ?f"
      using Suc.IH [of ?m ?f] by auto
    show ?thesis
      using r same a(1) Some others_kept_trans [OF kept r(4)]
      by (intro Suc.prems(1) [of ok' m' f']) (simp_all add: allocate_zeroed_frame_def)
  qed
qed

lemma shrink_loop_result:
  assumes "inv (frames m)" "distinct (mf_pages f)" "set (mf_pages f) \<subseteq> taken (frames m)" "n \<le> length (mf_pages f)"
  obtains m' where "shrink_loop dealloc n m f = Some (m', f\<lparr>mf_pages := take (length (mf_pages f) - n) (mf_pages f)\<rparr>)"
    "inv (frames m')" "phys m' = phys m" "taken (frames m') = taken (frames m) - set (drop (length (mf_pages f) - n) (mf_pages f))"
  using assms
proof (induction n arbitrary: m f thesis)
  case 0
  then show ?case by (intro "0.prems"(1) [of m]) simp_all
next
  case (Suc n)
  obtain ps fr where ps: "mf_pages f = ps @ [fr]" using Suc.prems(5) by (cases "mf_pages f" rule: rev_cases) auto
  obtain s' where s': "dealloc (frames m) fr = Some s'" "inv s'" "taken s' = taken (frames m) - {fr}"
    using dealloc_result [OF Suc.prems(2), of fr] Suc.prems(4) ps by auto
  have sub: "set ps \<subseteq> taken s'" using Suc.prems(3,4) ps s'(3) by auto
  obtain m' where m': "shrink_loop dealloc n (m\<lparr>frames := s'\<rparr>) (f\<lparr>mf_pages := ps\<rparr>) =
      Some (m', f\<lparr>mf_pages := take (length ps - n) ps\<rparr>)" "inv (frames m')" "phys m' = phys m"
      "taken (frames m') = taken s' - set (drop (length ps - n) ps)"
    using Suc.IH [of "m\<lparr>frames := s'\<rparr>" "f\<lparr>mf_pages := ps\<rparr>"] s'(2) sub Suc.prems(3,5) ps by auto
  show ?case
  proof (rule Suc.prems(1))
    show "shrink_loop dealloc (Suc n) m f = Some (m', f\<lparr>mf_pages := take (length (mf_pages f) - Suc n) (mf_pages f)\<rparr>)"
      using m'(1) s'(1) Suc.prems(5) ps by (simp add: free_frame_def)
    show "taken (frames m') = taken (frames m) - set (drop (length (mf_pages f) - Suc n) (mf_pages f))"
      using m'(4) s'(3) Suc.prems(5) ps by auto
  qed (use m' in simp_all)
qed

lemma zero_range_result:
  assumes "distinct (mf_pages f)" "mf_len f < n" "n \<le> PAGE * length (mf_pages f)" "n < 2 ^ 64"
  obtains m' where "zero_range f (mf_len f) (n - mf_len f) m = (Inr (), m')" "frames m' = frames m"
    "\<And>i. i < n \<Longrightarrow> byte_at (phys m') (mf_pages f) i = (if i < mf_len f then byte_at (phys m) (mf_pages f) i else 0)"
    "\<And>fr. fr \<notin> set (mf_pages f) \<Longrightarrow> phys m' fr = phys m fr"
proof -
  let ?bs = "replicate (n - mf_len f) (0 :: u8)"
  have "mf_len f + length ?bs \<le> PAGE * length (mf_pages f)" using assms by simp
  then obtain ph' where ph': "write_loop (mf_pages f) (mf_len f) ?bs (phys m) = (True, ph')"
    "\<And>i. i < PAGE * length (mf_pages f) \<Longrightarrow> byte_at ph' (mf_pages f) i =
       (if mf_len f \<le> i \<and> i < mf_len f + length ?bs then ?bs ! (i - mf_len f) else byte_at (phys m) (mf_pages f) i)"
    "\<And>fr. fr \<notin> set (mf_pages f) \<Longrightarrow> ph' fr = phys m fr"
    by (rule write_loop_result [OF assms(1), where ph = "phys m"]) blast
  show ?thesis
  proof (rule that [of "m\<lparr>phys := ph'\<rparr>"])
    show "zero_range f (mf_len f) (n - mf_len f) m = (Inr (), m\<lparr>phys := ph'\<rparr>)"
      using assms(2,4) ph'(1) by (simp add: zero_range_def usize_checked_add_def zero_loop_write)
    show "byte_at (phys (m\<lparr>phys := ph'\<rparr>)) (mf_pages f) i = (if i < mf_len f then byte_at (phys m) (mf_pages f) i else 0)"
      if "i < n" for i
      using ph'(2) [of i] that assms(2,3) by simp
  qed (use ph' in simp_all)
qed

lemma contents_resize:
  assumes "mf_len f' = n"
    "\<And>i. i < n \<Longrightarrow> byte_at (phys m') (mf_pages f') i = (if i < mf_len f then byte_at (phys m) (mf_pages f) i else 0)"
  shows "contents m' f' = take n (contents m f) @ replicate (n - mf_len f) 0"
  using assms by (intro nth_equalityI) (auto simp: contents_def nth_append)

lemma shrink_kept:
  assumes "inv (frames m)" "memfd_ok (taken (frames m)) f" "N \<le> length (mf_pages f)"
  defines "f' \<equiv> f\<lparr>mf_pages := take N (mf_pages f)\<rparr>"
  obtains m' where "shrink_loop dealloc (length (mf_pages f) - N) m f = Some (m', f')" "inv (frames m')" "phys m' = phys m"
    "distinct (mf_pages f')" "set (mf_pages f') \<subseteq> taken (frames m')" "others_kept taken m f m' f'"
proof -
  obtain m' where m': "shrink_loop dealloc (length (mf_pages f) - N) m f = Some (m', f')" "inv (frames m')" "phys m' = phys m"
    "taken (frames m') = taken (frames m) - set (drop N (mf_pages f))"
    using shrink_loop_result [OF assms(1), of f "length (mf_pages f) - N"] assms(2,3)
    by (auto simp: memfd_ok_def f'_def)
  have disj: "distinct (mf_pages f')" "set (mf_pages f') \<inter> set (drop N (mf_pages f)) = {}"
    using assms(2) by (auto simp: f'_def memfd_ok_def set_take_disj_set_drop_if_distinct)
  have "mf_pages f = mf_pages f' @ drop N (mf_pages f)" by (simp add: f'_def)
  then have sets: "set (mf_pages f) = set (mf_pages f') \<union> set (drop N (mf_pages f))" by (metis set_append)
  show ?thesis
  proof (rule that [OF m'(1-3) disj(1)])
    show "set (mf_pages f') \<subseteq> taken (frames m')" using m'(4) disj sets assms(2) by (auto simp: memfd_ok_def)
    show "others_kept taken m f m' f'" using m'(3,4) disj sets unfolding others_kept_def by auto
  qed
qed

text \<open>The end of \<^verbatim>\<open>truncate\<close>: with room for \<open>n\<close> bytes, those past the old length are cleared.\<close>

lemma extend_result:
  assumes "distinct (mf_pages f)" "set (mf_pages f) \<subseteq> taken (frames m)" "n \<le> PAGE * length (mf_pages f)" "n < 2 ^ 64"
  obtains m' where
    "(if mf_len f < n then zero_range f (mf_len f) (n - mf_len f) m else (Inr (), m)) = (Inr (), m')"
    "frames m' = frames m" "others_kept taken m f m' (f\<lparr>mf_len := n\<rparr>)"
    "\<And>i. i < n \<Longrightarrow> byte_at (phys m') (mf_pages f) i = (if i < mf_len f then byte_at (phys m) (mf_pages f) i else 0)"
proof (cases "mf_len f < n")
  case True
  obtain m' where m': "zero_range f (mf_len f) (n - mf_len f) m = (Inr (), m')" "frames m' = frames m"
    "\<And>i. i < n \<Longrightarrow> byte_at (phys m') (mf_pages f) i = (if i < mf_len f then byte_at (phys m) (mf_pages f) i else 0)"
    "\<And>fr. fr \<notin> set (mf_pages f) \<Longrightarrow> phys m' fr = phys m fr"
    by (rule zero_range_result [OF assms(1) True assms(3,4), where m = m]) blast
  show ?thesis by (rule that [of m']) (use True m' in \<open>simp_all add: others_kept_def\<close>)
next
  case False
  then show ?thesis by (intro that [of m]) (simp_all add: others_kept_def)
qed

lemma truncate_grown:
  assumes "memfd_ok (taken (frames m)) f" "inv (frames m)" "N \<le> length (mf_pages f)" "n \<le> PAGE * N" "n < 2 ^ 64"
  obtains m2 m' where "shrink_loop dealloc (length (mf_pages f) - N) m f = Some (m2, f\<lparr>mf_pages := take N (mf_pages f)\<rparr>)"
    "(if mf_len f < n then zero_range (f\<lparr>mf_pages := take N (mf_pages f)\<rparr>) (mf_len f) (n - mf_len f) m2 else (Inr (), m2)) = (Inr (), m')"
    "inv (frames m')" "memfd_ok (taken (frames m')) (f\<lparr>mf_pages := take N (mf_pages f), mf_len := n\<rparr>)"
    "others_kept taken m f m' (f\<lparr>mf_pages := take N (mf_pages f), mf_len := n\<rparr>)"
    "contents m' (f\<lparr>mf_pages := take N (mf_pages f), mf_len := n\<rparr>) = take n (contents m f) @ replicate (n - mf_len f) 0"
proof -
  let ?f2 = "f\<lparr>mf_pages := take N (mf_pages f)\<rparr>"
  have room: "n \<le> PAGE * length (mf_pages ?f2)" using assms(3,4) by simp
  obtain m2 where m2: "shrink_loop dealloc (length (mf_pages f) - N) m f = Some (m2, ?f2)" "inv (frames m2)"
    "phys m2 = phys m" "distinct (mf_pages ?f2)" "set (mf_pages ?f2) \<subseteq> taken (frames m2)" "others_kept taken m f m2 ?f2"
    by (rule shrink_kept [OF assms(2,1,3)]) blast
  obtain m3 where m3: "(if mf_len ?f2 < n then zero_range ?f2 (mf_len ?f2) (n - mf_len ?f2) m2 else (Inr (), m2)) = (Inr (), m3)"
    "frames m3 = frames m2" "others_kept taken m2 ?f2 m3 (?f2\<lparr>mf_len := n\<rparr>)"
    "\<And>i. i < n \<Longrightarrow> byte_at (phys m3) (mf_pages ?f2) i = (if i < mf_len ?f2 then byte_at (phys m2) (mf_pages ?f2) i else 0)"
    by (rule extend_result [OF m2(4,5) room assms(5)]) blast
  have bytes: "byte_at (phys m3) (mf_pages ?f2) i = (if i < mf_len f then byte_at (phys m) (mf_pages f) i else 0)" if "i < n" for i
  proof -
    have "i div PAGE < N" using that assms(4) by (intro page_in) simp
    then show ?thesis using m3(4) [OF that] by (simp add: byte_at_def m2(3))
  qed
  show ?thesis
  proof (rule that [OF m2(1)])
    show "(if mf_len f < n then zero_range ?f2 (mf_len f) (n - mf_len f) m2 else (Inr (), m2)) = (Inr (), m3)"
      using m3(1) by (cases "mf_len f < n") simp_all
    show "others_kept taken m f m3 (?f2\<lparr>mf_len := n\<rparr>)" by (rule others_kept_trans [OF m2(6) m3(3)])
    show "contents m3 (?f2\<lparr>mf_len := n\<rparr>) = take n (contents m f) @ replicate (n - mf_len f) 0"
      using contents_resize [of "?f2\<lparr>mf_len := n\<rparr>" n m3 f m] bytes by simp
  qed (use m2 m3 room in \<open>simp_all add: memfd_ok_def\<close>)
qed

lemma truncate_result:
  assumes "inv (frames m)" "memfd_ok (taken (frames m)) f" "n + 4096 \<le> 2 ^ 64"
  obtains (resized) m' f' where "memfd_truncate alloc dealloc n m f = Some (Inr (), m', f')" "inv (frames m')"
      "memfd_ok (taken (frames m')) f'" "others_kept taken m f m' f'" "mf_len f' = n"
      "contents m' f' = take n (contents m f) @ replicate (n - mf_len f) 0"
  | (exhausted) m' f' where "memfd_truncate alloc dealloc n m f = Some (Inl EIO, m', f')" "inv (frames m')"
      "memfd_ok (taken (frames m')) f'" "others_kept taken m f m' f'" "mf_len f' = mf_len f"
      "contents m' f' = contents m f" "\<exists>j. grow_loop alloc j m f = Some (False, m', f')"
proof -
  define N where "N = (if n = 0 then 0 else align_up n PAGE div PAGE)"
  have N: "n \<le> PAGE * N" using assms(3) align_up_pages [OF assms(3)] by (auto simp: N_def PAGE_def)
  obtain ok m1 f1 where g: "grow_loop alloc (N - length (mf_pages f)) m f = Some (ok, m1, f1)" "inv (frames m1)"
    "memfd_ok (taken (frames m1)) f1" "others_kept taken m f m1 f1" "mf_len f1 = mf_len f"
    "contents m1 f1 = contents m f" "ok \<longrightarrow> length (mf_pages f1) = length (mf_pages f) + (N - length (mf_pages f))"
    by (rule grow_loop_result [OF assms(1,2)]) blast
  show ?thesis
  proof (cases ok)
    case False
    with g show ?thesis by (intro exhausted [of m1 f1]) (auto simp: memfd_truncate_def N_def)
  next
    case True
    let ?f = "f1\<lparr>mf_pages := take N (mf_pages f1), mf_len := n\<rparr>"
    have len: "N \<le> length (mf_pages f1)" "n < 2 ^ 64" using g(7) True assms(3) by auto
    obtain m2 m3 where m: "shrink_loop dealloc (length (mf_pages f1) - N) m1 f1 = Some (m2, f1\<lparr>mf_pages := take N (mf_pages f1)\<rparr>)"
      "(if mf_len f1 < n then zero_range (f1\<lparr>mf_pages := take N (mf_pages f1)\<rparr>) (mf_len f1) (n - mf_len f1) m2 else (Inr (), m2)) = (Inr (), m3)"
      "inv (frames m3)" "memfd_ok (taken (frames m3)) ?f" "others_kept taken m1 f1 m3 ?f"
      "contents m3 ?f = take n (contents m1 f1) @ replicate (n - mf_len f1) 0"
      by (rule truncate_grown [OF g(3,2) len(1) N len(2)]) blast
    show ?thesis
    proof (rule resized)
      show "memfd_truncate alloc dealloc n m f = Some (Inr (), m3, ?f)"
        using g(1) True m(1,2) unfolding memfd_truncate_def N_def [symmetric] Let_def
        by (cases "mf_len f1 < n") simp_all
      show "others_kept taken m f m3 ?f" by (rule others_kept_trans [OF g(4) m(5)])
    qed (use m g in simp_all)
  qed
qed

end

text \<open>What \<open>bs\<close> written at \<open>offset\<close> makes of a byte string; a gap is filled with zeros.\<close>

definition overwrite :: "nat \<Rightarrow> u8 list \<Rightarrow> u8 list \<Rightarrow> u8 list" where
  "overwrite offset bs c = take offset c @ replicate (offset - length c) 0 @ bs @ drop (offset + length bs) c"

lemma nth_overwrite:
  "i < length (overwrite offset bs c) \<Longrightarrow> overwrite offset bs c ! i =
    (if offset \<le> i \<and> i < offset + length bs then bs ! (i - offset) else if i < length c then c ! i else 0)"
  by (auto simp: overwrite_def nth_append min_def)

lemma length_overwrite: "length (overwrite offset bs c) = max (length c) (offset + length bs)"
  by (auto simp: overwrite_def)

lemma write_contents:
  assumes "memfd_ok T f" "offset + length bs \<le> mf_len f"
  obtains ph' where "write_loop (mf_pages f) offset bs (phys m) = (True, ph')"
    "contents (m\<lparr>phys := ph'\<rparr>) f = overwrite offset bs (contents m f)"
    "\<And>fr. fr \<notin> set (mf_pages f) \<Longrightarrow> ph' fr = phys m fr"
proof -
  have ok: "distinct (mf_pages f)" "mf_len f \<le> PAGE * length (mf_pages f)" using assms(1) by (simp_all add: memfd_ok_def)
  then have "offset + length bs \<le> PAGE * length (mf_pages f)" using assms(2) by simp
  then obtain ph' where ph': "write_loop (mf_pages f) offset bs (phys m) = (True, ph')"
    "\<And>i. i < PAGE * length (mf_pages f) \<Longrightarrow> byte_at ph' (mf_pages f) i =
       (if offset \<le> i \<and> i < offset + length bs then bs ! (i - offset) else byte_at (phys m) (mf_pages f) i)"
    "\<And>fr. fr \<notin> set (mf_pages f) \<Longrightarrow> ph' fr = phys m fr"
    by (rule write_loop_result [OF ok(1), where ph = "phys m"]) blast
  have "contents (m\<lparr>phys := ph'\<rparr>) f = overwrite offset bs (contents m f)"
  proof (rule nth_equalityI)
    show len: "length (contents (m\<lparr>phys := ph'\<rparr>) f) = length (overwrite offset bs (contents m f))"
      using assms(2) by (simp add: length_overwrite)
    show "contents (m\<lparr>phys := ph'\<rparr>) f ! i = overwrite offset bs (contents m f) ! i"
      if "i < length (contents (m\<lparr>phys := ph'\<rparr>) f)" for i
    proof -
      have i: "i < mf_len f" "i < PAGE * length (mf_pages f)" "i < length (overwrite offset bs (contents m f))"
        using that len ok(2) by simp_all
      then show ?thesis using ph'(2) [OF i(2)] by (simp add: nth_overwrite [OF i(3)] nth_contents)
    qed
  qed
  from that [OF ph'(1) this ph'(3)] show ?thesis .
qed

context frame_source
begin

lemma write_at_result:
  assumes "inv (frames m)" "memfd_ok (taken (frames m)) f" "offset + length bs + 4096 \<le> 2 ^ 64" "bs \<noteq> []"
  obtains (written) m' f' where "memfd_write_at alloc dealloc offset bs m f = Some (Inr (length bs), m', f')" "inv (frames m')"
      "memfd_ok (taken (frames m')) f'" "others_kept taken m f m' f'"
      "contents m' f' = overwrite offset bs (contents m f)"
  | (exhausted) m' f' where "memfd_write_at alloc dealloc offset bs m f = Some (Inl EIO, m', f')" "inv (frames m')"
      "memfd_ok (taken (frames m')) f'" "others_kept taken m f m' f'" "contents m' f' = contents m f"
proof -
  let ?e = "offset + length bs"
  have add: "usize_checked_add offset (length bs) = Some ?e" using assms(3) by (simp add: usize_checked_add_def)
  have written': thesis
    if r: "(if ?e > mf_len f then memfd_truncate alloc dealloc ?e m f else Some (Inr (), m, f)) = Some (Inr (), m1, f1)"
      "inv (frames m1)" "memfd_ok (taken (frames m1)) f1" "others_kept taken m f m1 f1" "?e \<le> mf_len f1"
      "overwrite offset bs (contents m1 f1) = overwrite offset bs (contents m f)" for m1 f1
  proof -
    obtain ph where ph: "write_loop (mf_pages f1) offset bs (phys m1) = (True, ph)"
      "contents (m1\<lparr>phys := ph\<rparr>) f1 = overwrite offset bs (contents m1 f1)"
      "\<And>fr. fr \<notin> set (mf_pages f1) \<Longrightarrow> ph fr = phys m1 fr"
      by (rule write_contents [OF r(3,5), where m = m1]) blast
    have "others_kept taken m1 f1 (m1\<lparr>phys := ph\<rparr>) f1" using ph(3) by (simp add: others_kept_def)
    then show thesis
      using r ph(1,2) add assms(4) others_kept_trans [OF r(4)]
      by (intro written [of "m1\<lparr>phys := ph\<rparr>" f1]) (simp_all add: memfd_write_at_def)
  qed
  show thesis
  proof (cases "?e > mf_len f")
    case False
    with assms(1,2) show thesis by (intro written' [of m f]) simp_all
  next
    case True
    have fill: "overwrite offset bs (take ?e c @ replicate (?e - length c) 0) = overwrite offset bs c"
      if "length c < ?e" for c
      using that by (auto simp: overwrite_def min_def)
    from assms(1-3) show thesis
    proof (cases rule: truncate_result [where n = ?e])
      case (resized m' f')
      with True fill [of "contents m f"] show thesis by (intro written' [of m' f']) simp_all
    next
      case (exhausted m' f')
      with True add assms(4) show thesis by (intro that(2) [of m' f']) (simp_all add: memfd_write_at_def)
    qed
  qed
qed

lemma drop_pages_result:
  assumes "inv (frames m)" "distinct ps" "set ps \<subseteq> taken (frames m)"
  obtains m' where "drop_pages dealloc ps m = Some m'" "inv (frames m')" "phys m' = phys m"
    "taken (frames m') = taken (frames m) - set ps"
  using assms
proof (induction ps arbitrary: m thesis)
  case Nil
  then show ?case by (intro Nil(1) [of m]) simp_all
next
  case (Cons fr ps)
  obtain s' where s': "dealloc (frames m) fr = Some s'" "inv s'" "taken s' = taken (frames m) - {fr}"
    using dealloc_result [OF Cons.prems(2), of fr] Cons.prems(4) by auto
  have "set ps \<subseteq> taken (frames (m\<lparr>frames := s'\<rparr>))" using Cons.prems(3,4) s'(3) by auto
  then obtain m' where m': "drop_pages dealloc ps (m\<lparr>frames := s'\<rparr>) = Some m'" "inv (frames m')" "phys m' = phys m"
      "taken (frames m') = taken s' - set ps"
    using Cons.IH [of "m\<lparr>frames := s'\<rparr>"] s'(2) Cons.prems(3) by auto
  show ?case
    using m' s' by (intro Cons.prems(1) [of m']) (auto simp: free_frame_def)
qed

end

lemma read_at_result:
  assumes "memfd_ok T f"
  shows "memfd_read_at offset n m f = Inr (take n (drop offset (contents m f)))"
proof (cases "offset \<ge> mf_len f \<or> n = 0")
  case False
  let ?want = "min n (mf_len f - offset)"
  have "offset + ?want \<le> PAGE * length (mf_pages f)" using assms False by (auto simp: memfd_ok_def)
  then have "memfd_read_at offset n m f = Inr (map (byte_at (phys m) (mf_pages f)) [offset..<offset + ?want])"
    using False by (simp add: memfd_read_at_def read_loop_result)
  also have "map (byte_at (phys m) (mf_pages f)) [offset..<offset + ?want] = take n (drop offset (contents m f))"
    using False by (intro nth_equalityI) (auto simp: nth_contents)
  finally show ?thesis .
qed (auto simp: memfd_read_at_def)

section \<open>The frame allocator provides the interface\<close>

lemma used_aligned:
  assumes "fa_wf a" "fr \<in> used a"
  shows "fr mod 4096 = 0"
proof -
  have "fr \<in> set (pool a)" using assms by (auto simp: used_def fa_wf_def)
  then obtain r j where "r \<in> set (regions a)" "fr = first_frame r + 4096 * j"
    by (auto simp: pool_def region_frames_def)
  moreover have "first_frame r mod 4096 = 0" if "r \<in> set (regions a)" for r
    using assms(1) that by (auto simp: fa_wf_def region_ok_def)
  ultimately show ?thesis by (simp add: mod_add_left_eq [symmetric])
qed

context frame_crates
begin

lemma provides_frames: "frame_source (allocate_frame k) (deallocate_frame k) fa_wf used"
proof
  fix s
  assume wf: "fa_wf s"
  then show "\<exists>r s'. allocate_frame k s = Some (r, s') \<and> fa_wf s' \<and>
      (case r of None \<Rightarrow> used s' = used s | Some fr \<Rightarrow> fr \<notin> used s \<and> used s' = insert fr (used s))"
    by (cases rule: allocate_frame_result) (use wf in auto)
  fix fr
  assume "fr \<in> used s"
  then have "fr mod 4096 = 0" by (rule used_aligned [OF wf])
  with wf show "\<exists>s'. deallocate_frame k s fr = Some s' \<and> fa_wf s' \<and> used s' = used s - {fr}"
    by (rule deallocate_frame_result) blast
qed

text \<open>The growing loop gives up only when no frame of the pool is left.\<close>

lemma grow_loop_exhausts:
  assumes "fa_wf (frames m)" "grow_loop (allocate_frame k) n m f = Some (False, m', f')"
  shows "used (frames m') = set (pool (frames m)) \<and> mf_len f' = mf_len f"
  using assms
proof (induction n arbitrary: m f)
  case (Suc n)
  from Suc.prems(1) show ?case
  proof (cases rule: allocate_frame_result)
    case full
    with Suc.prems(2) show ?thesis by (auto simp: allocate_zeroed_frame_def)
  next
    case (fresh fr b)
    with Suc.prems(2) Suc.IH [of "m\<lparr>frames := b, phys := (phys m)(fr := (\<lambda>_. 0))\<rparr>"] show ?thesis
      by (simp add: allocate_zeroed_frame_def)
  qed
qed simp

end

interpretation fs: frame_source "allocate_frame std_crates" "deallocate_frame std_crates" fa_wf used
  by (rule std.provides_frames)

section \<open>A sample file\<close>

text \<open>An empty file over the sample allocator.\<close>

definition sample_machine :: "frame_allocator machine" where
  "sample_machine = \<lparr>frames = demo_alloc, phys = (\<lambda>_ _. 7)\<rparr>"

text \<open>The same allocator with all of its four frames in use.\<close>

definition sample_full :: "frame_allocator machine" where
  "sample_full = \<lparr>frames = demo_alloc\<lparr>bitmap := [15]\<rparr>, phys = (\<lambda>_ _. 7)\<rparr>"

lemma sample_file: "fa_wf (frames sample_machine)" "memfd_ok (used (frames sample_machine)) (memfd_new nm)"
  using demo_wf by (simp_all add: sample_machine_def memfd_ok_def memfd_new_def)

section \<open>Properties\<close>





text \<open>
  A resize that fails keeps what it took: when it returns EIO every frame of the pool is in use, held by
  the file although its length did not change.
\<close>

theorem failed_truncate_takes_all:
  assumes "frame_crates k" "fa_wf (frames m)" "memfd_ok (used (frames m)) f" "n + 4096 \<le> 2 ^ 64"
    and "memfd_truncate (allocate_frame k) (deallocate_frame k) n m f = Some (Inl EIO, m', f')"
  shows "used (frames m') = set (pool (frames m)) \<and> mf_len f' = mf_len f"
proof -
  note fs = frame_crates.provides_frames [OF assms(1)]
  from assms(2-4) show ?thesis
    by (cases rule: frame_source.truncate_result [OF fs])
      (use assms(5) frame_crates.grow_loop_exhausts [OF assms(1,2)] in auto)
qed

theorem failed_truncate_takes_all_witness:
  "\<exists>m' f'. memfd_truncate (allocate_frame std_crates) (deallocate_frame std_crates) 1 sample_full (memfd_new ''m'') =
      Some (Inl EIO, m', f') \<and> used (frames m') = set (pool demo_alloc) \<and> mf_len f' = 0"
proof -
  let ?f = "memfd_new ''m''"
  have wf: "fa_wf (frames sample_full)" and pool: "pool (frames sample_full) = pool demo_alloc"
    using demo_wf by (simp_all add: sample_full_def fa_wf_def pool_def regions_def demo_alloc_def)
  have ok: "memfd_ok (used (frames sample_full)) ?f" "mf_len ?f = 0" by (simp_all add: memfd_ok_def memfd_new_def)
  have "bit (15 :: u64) i" if "i < 4" for i using that bit_mask_iff [of 4 i, where 'a = "64 word"] by (simp add: mask_eq_exp_minus_1)
  then have "bit_at (frames sample_full) i" if "i < 4" for i using that by (simp add: bit_at_def sample_full_def)
  moreover have "frames_count (frames sample_full) = 4" by (simp add: sample_full_def demo_alloc_def)
  ultimately have full: "used (frames sample_full) = set (pool (frames sample_full))"
    using wf by (auto simp: used_def fa_wf_def set_conv_nth)
  from wf have "allocate_frame std_crates (frames sample_full) = Some (None, frames sample_full)"
    by (cases rule: std.allocate_frame_result) (use full in auto)
  then have t: "memfd_truncate (allocate_frame std_crates) (deallocate_frame std_crates) 1 sample_full ?f = Some (Inl EIO, sample_full, ?f)"
    by (simp add: memfd_truncate_def align_up_def PAGE_def memfd_new_def allocate_zeroed_frame_def)
  have "(1 :: nat) + 4096 \<le> 2 ^ 64" by simp
  from failed_truncate_takes_all [OF std.frame_crates_axioms wf ok(1) this t] t ok(2) pool show ?thesis by auto
qed

end
