(* ===== verification/Fd_Syscalls.thy ===== *)
theory Fd_Syscalls
  imports Signal_Delivery
begin

text \<open>
  The calls on file descriptors (\<^verbatim>\<open>sys/syscall/service.rs\<close>): \<^verbatim>\<open>close\<close>, \<^verbatim>\<open>dup\<close>, \<^verbatim>\<open>dup2\<close>, \<^verbatim>\<open>dup3\<close>, \<^verbatim>\<open>fcntl\<close>,
  the creation of pipes and memory files as far as descriptors go, the installation of descriptors
  received over a socket, and what \<^verbatim>\<open>exec\<close> does to descriptors and signals.  An open file is its
  identity; its status flags are kept in a store, because every descriptor of the file shares them.
  The operations on a table are separate from the lookup of the calling process around them.
\<close>

section \<open>Model\<close>

definition O_ACCMODE :: int where "O_ACCMODE = 3"
definition O_RDONLY :: int where "O_RDONLY = 0"
definition O_WRONLY :: int where "O_WRONLY = 1"
definition O_RDWR :: int where "O_RDWR = 2"
definition O_APPEND :: int where "O_APPEND = 1024"
definition O_NONBLOCK :: int where "O_NONBLOCK = 2048"
definition O_DIRECTORY :: int where "O_DIRECTORY = 65536"
definition O_CLOEXEC :: int where "O_CLOEXEC = 524288"
definition O_PATH :: int where "O_PATH = 2097152"
definition FD_CLOEXEC :: int where "FD_CLOEXEC = 1"
definition STATUS_FLAG_MUTABLE :: int where "STATUS_FLAG_MUTABLE = O_APPEND OR O_NONBLOCK"

definition status_flags_from_open :: "int \<Rightarrow> int" where
  "status_flags_from_open flags =
    flags AND O_ACCMODE OR flags AND (O_APPEND OR O_NONBLOCK OR O_DIRECTORY OR O_PATH)"

definition apply_umask :: "32 word \<Rightarrow> u16 \<Rightarrow> u16" where
  "apply_umask mode umask = (ucast mode AND 0xfff) AND NOT (umask AND 0x1ff)"

text \<open>\<^verbatim>\<open>arg as i32\<close>.\<close>

definition as_i32 :: "u64 \<Rightarrow> int" where
  "as_i32 arg = sint (ucast arg :: 32 word)"

subsection \<open>On one table\<close>

definition close_on :: "int \<Rightarrow> fd_table \<Rightarrow> int \<times> fd_table" where
  "close_on fd t = (case close_fd t fd of (Inr _, t') \<Rightarrow> (0, t') | (Inl errno, t') \<Rightarrow> (- errno, t'))"

definition install_on :: "fdentry \<Rightarrow> int \<Rightarrow> fd_table \<Rightarrow> int \<times> fd_table" where
  "install_on e min_fd t =
    (case install_fd t e min_fd of (Inr fd, t') \<Rightarrow> (fd, t') | (Inl errno, t') \<Rightarrow> (- errno, t'))"

definition duplicate_fd :: "int \<Rightarrow> int \<Rightarrow> int \<Rightarrow> fd_table \<Rightarrow> int \<times> fd_table" where
  "duplicate_fd oldfd min_fd fd_flags t =
    (case fd_entry t oldfd of
       None \<Rightarrow> (- EBADF, t)
     | Some e \<Rightarrow> install_on \<lparr>fe_file = fe_file e, fe_fd_flags = fd_flags\<rparr> min_fd t)"

definition replace_on :: "int \<Rightarrow> fdentry \<Rightarrow> fd_table \<Rightarrow> int \<times> fd_table" where
  "replace_on newfd e t =
    (case replace_fd t newfd e of (Inr _, t') \<Rightarrow> (newfd, t') | (Inl errno, t') \<Rightarrow> (- errno, t'))"

definition dup2_on :: "int \<Rightarrow> int \<Rightarrow> fd_table \<Rightarrow> int \<times> fd_table" where
  "dup2_on oldfd newfd t =
    (case fd_entry t oldfd of
       None \<Rightarrow> (- EBADF, t)
     | Some e \<Rightarrow>
         if oldfd = newfd then (newfd, t)
         else replace_on newfd \<lparr>fe_file = fe_file e, fe_fd_flags = 0\<rparr> t)"

definition dup3_on :: "int \<Rightarrow> int \<Rightarrow> int \<Rightarrow> fd_table \<Rightarrow> int \<times> fd_table" where
  "dup3_on oldfd newfd flags t =
    (case fd_entry t oldfd of
       None \<Rightarrow> (- EBADF, t)
     | Some e \<Rightarrow> replace_on newfd
         \<lparr>fe_file = fe_file e, fe_fd_flags = (if flags AND O_CLOEXEC \<noteq> 0 then FD_CLOEXEC else 0)\<rparr> t)"

text \<open>Two new descriptors, the first taken back when there is none for the second.\<close>

definition install_pair :: "fdentry \<Rightarrow> fdentry \<Rightarrow> fd_table \<Rightarrow> (int + int \<times> int) \<times> fd_table" where
  "install_pair a b t =
    (case install_fd t a 0 of
       (Inl errno, t1) \<Rightarrow> (Inl (- errno), t1)
     | (Inr afd, t1) \<Rightarrow>
         (case install_fd t1 b 0 of
            (Inl errno, t2) \<Rightarrow> (Inl (- errno), snd (close_fd t2 afd))
          | (Inr bfd, t2) \<Rightarrow> (Inr (afd, bfd), t2)))"

text \<open>The loop of \<^verbatim>\<open>copyout_scm_rights\<close> over the received files.\<close>

fun install_rights :: "int \<Rightarrow> nat list \<Rightarrow> int list \<Rightarrow> fd_table \<Rightarrow> (int + int list) \<times> fd_table" where
  "install_rights fd_flags [] installed t = (Inr installed, t)"
| "install_rights fd_flags (g # rights) installed t =
    (case install_fd t \<lparr>fe_file = g, fe_fd_flags = fd_flags\<rparr> 0 of
       (Inr fd, t') \<Rightarrow> install_rights fd_flags rights (installed @ [fd]) t'
     | (Inl errno, t') \<Rightarrow> (Inl (- errno), fold (\<lambda>fd u. snd (close_fd u fd)) installed t'))"

subsection \<open>Calls\<close>

text \<open>The calling process is looked up and its table updated; without it the call fails.\<close>

definition on_current :: "process list \<Rightarrow> u16 \<Rightarrow> (fd_table \<Rightarrow> int \<times> fd_table) \<Rightarrow> int \<times> process list" where
  "on_current ps cur f =
    (case get_process ps cur of
       None \<Rightarrow> (- ESRCH, ps)
     | Some p \<Rightarrow> let (r, t) = f (p_fd_table p) in (r, set_process ps cur (p\<lparr>p_fd_table := t\<rparr>)))"

definition sys_close :: "process list \<Rightarrow> u16 \<Rightarrow> int \<Rightarrow> int \<times> process list" where
  "sys_close ps cur fd = on_current ps cur (close_on fd)"

definition sys_dup :: "process list \<Rightarrow> u16 \<Rightarrow> int \<Rightarrow> int \<times> process list" where
  "sys_dup ps cur oldfd =
    (if oldfd < 0 then (- EBADF, ps) else on_current ps cur (duplicate_fd oldfd 0 0))"

definition sys_dup2 :: "process list \<Rightarrow> u16 \<Rightarrow> int \<Rightarrow> int \<Rightarrow> int \<times> process list" where
  "sys_dup2 ps cur oldfd newfd =
    (if oldfd < 0 \<or> newfd < 0 then (- EBADF, ps) else on_current ps cur (dup2_on oldfd newfd))"

definition sys_dup3 :: "process list \<Rightarrow> u16 \<Rightarrow> int \<Rightarrow> int \<Rightarrow> int \<Rightarrow> int \<times> process list" where
  "sys_dup3 ps cur oldfd newfd flags =
    (if oldfd < 0 \<or> newfd < 0 then (- EBADF, ps)
     else if oldfd = newfd \<or> flags AND NOT O_CLOEXEC \<noteq> 0 then (- EINVAL, ps)
     else on_current ps cur (dup3_on oldfd newfd flags))"

definition fcntl_on ::
  "int \<Rightarrow> int \<Rightarrow> u64 \<Rightarrow> fd_table \<Rightarrow> (nat \<Rightarrow> int) \<Rightarrow> int \<times> fd_table \<times> (nat \<Rightarrow> int)" where
  "fcntl_on fd cmd arg t files =
    (if cmd = 1 then
       (case fd_entry t fd of None \<Rightarrow> (- EBADF, t, files) | Some e \<Rightarrow> (fe_fd_flags e, t, files))
     else if cmd = 2 then
       (case fd_entry t fd of
          None \<Rightarrow> (- EBADF, t, files)
        | Some e \<Rightarrow>
            let new_flags = as_i32 arg AND FD_CLOEXEC in
            (0, t[nat fd := Some (e\<lparr>fe_fd_flags := fe_fd_flags e AND NOT FD_CLOEXEC OR new_flags\<rparr>)], files))
     else if cmd = 3 then
       (case fd_entry t fd of None \<Rightarrow> (- EBADF, t, files) | Some e \<Rightarrow> (files (fe_file e), t, files))
     else if cmd = 4 then
       (case fd_entry t fd of
          None \<Rightarrow> (- EBADF, t, files)
        | Some e \<Rightarrow>
            let new_bits = as_i32 arg AND STATUS_FLAG_MUTABLE;
                preserved = files (fe_file e) AND NOT STATUS_FLAG_MUTABLE in
            (0, t, files(fe_file e := preserved OR new_bits)))
     else if cmd = 0 \<or> cmd = 1030 then
       (if arg > 2 ^ 31 - 1 then (- EINVAL, t, files)
        else
          let (r, t') = duplicate_fd fd (uint arg) (if cmd = 1030 then FD_CLOEXEC else 0) t in (r, t', files))
     else (- EINVAL, t, files))"

definition sys_fcntl ::
  "process list \<Rightarrow> u16 \<Rightarrow> int \<Rightarrow> int \<Rightarrow> u64 \<Rightarrow> (nat \<Rightarrow> int) \<Rightarrow> int \<times> process list \<times> (nat \<Rightarrow> int)" where
  "sys_fcntl ps cur fd cmd arg files =
    (if fd < 0 then (- EBADF, ps, files)
     else case get_process ps cur of
       None \<Rightarrow> (- ESRCH, ps, files)
     | Some p \<Rightarrow>
         let (r, t, files') = fcntl_on fd cmd arg (p_fd_table p) files in
         (r, set_process ps cur (p\<lparr>p_fd_table := t\<rparr>), files'))"

text \<open>
  \<^verbatim>\<open>pipe2\<close> and \<^verbatim>\<open>memfd_create\<close> as far as descriptors go: \<open>nf\<close> is a file identity not in use, \<open>name_ok\<close> says
  whether the name could be copied from the caller.  The result of \<^verbatim>\<open>pipe2\<close> is also what it stores.
\<close>

definition sys_pipe2 ::
  "process list \<Rightarrow> u16 \<Rightarrow> bool \<Rightarrow> int \<Rightarrow> nat \<Rightarrow> (nat \<Rightarrow> int) \<Rightarrow> (int + int \<times> int) \<times> process list \<times> (nat \<Rightarrow> int)" where
  "sys_pipe2 ps cur ptr_ok flags nf files =
    (if \<not> ptr_ok then (Inl (- EFAULT), ps, files)
     else if flags AND NOT (O_CLOEXEC OR O_NONBLOCK) \<noteq> 0 then (Inl (- EINVAL), ps, files)
     else case get_process ps cur of
       None \<Rightarrow> (Inl (- ESRCH), ps, files)
     | Some p \<Rightarrow>
         let fl = (if flags AND O_CLOEXEC \<noteq> 0 then FD_CLOEXEC else 0);
             files' = files(nf := status_flags_from_open (O_RDONLY OR flags AND O_NONBLOCK),
               Suc nf := status_flags_from_open (O_WRONLY OR flags AND O_NONBLOCK));
             (r, t) = install_pair \<lparr>fe_file = nf, fe_fd_flags = fl\<rparr> \<lparr>fe_file = Suc nf, fe_fd_flags = fl\<rparr> (p_fd_table p) in
         (r, set_process ps cur (p\<lparr>p_fd_table := t\<rparr>), files'))"

definition sys_memfd_create ::
  "process list \<Rightarrow> u16 \<Rightarrow> bool \<Rightarrow> bool \<Rightarrow> 32 word \<Rightarrow> nat \<Rightarrow> (nat \<Rightarrow> int) \<Rightarrow> int \<times> process list \<times> (nat \<Rightarrow> int)" where
  "sys_memfd_create ps cur ptr_ok name_ok flags nf files =
    (if flags AND NOT (1 OR 2) \<noteq> 0 then (- EINVAL, ps, files)
     else if \<not> ptr_ok then (- EFAULT, ps, files)
     else if \<not> name_ok then (- EFAULT, ps, files)
     else case get_process ps cur of
       None \<Rightarrow> (- ESRCH, ps, files)
     | Some p \<Rightarrow>
         let e = \<lparr>fe_file = nf, fe_fd_flags = (if flags AND 1 \<noteq> 0 then FD_CLOEXEC else 0)\<rparr>;
             (r, t) = install_on e 0 (p_fd_table p) in
         (r, set_process ps cur (p\<lparr>p_fd_table := t\<rparr>), files(nf := O_RDWR)))"

subsection \<open>The commit of an exec\<close>

definition close_on_exec :: "fd_table \<Rightarrow> fd_table" where
  "close_on_exec t =
    map (\<lambda>slot. case slot of None \<Rightarrow> None | Some e \<Rightarrow> if fe_fd_flags e AND 1 \<noteq> 0 then None else Some e) t"

definition signal_action_default :: signal_action where
  "signal_action_default = \<lparr>handler = 0, sa_mask = (0, 0), sa_flags = 0, restorer = 0\<rparr>"

definition exec_commit :: "process \<Rightarrow> process" where
  "exec_commit p = p\<lparr>p_signal_actions := replicate SIGNAL_COUNT signal_action_default, p_signal_mask := (0, 0),
     p_pending_signals := 0, p_fd_table := close_on_exec (p_fd_table p)\<rparr>"

section \<open>Duplicates\<close>

lemma install_on_result:
  assumes "lowest_free t (nat min_fd) n" "0 \<le> min_fd" "n < 2 ^ 31"
  obtains t' where "install_on e min_fd t = (int n, t')" "install_fd t e min_fd = (Inr (int n), t')"
    "\<And>d. fd_entry t' d = (if d = int n then Some e else fd_entry t d)"
proof -
  obtain m where m: "lowest_free t (nat min_fd) m" "fst (install_fd t e min_fd) = i32_try_from m EMFILE"
    "\<And>d. fd_entry (snd (install_fd t e min_fd)) d = (if d = int m then Some e else fd_entry t d)"
    by (rule install_fd_result [OF assms(2), where t = t and e = e]) blast
  have "m = n" by (rule lowest_free_unique [OF m(1) assms(1)])
  with m assms(3) show ?thesis
    by (intro that [of "snd (install_fd t e min_fd)"])
      (simp_all add: install_on_def i32_try_from_def prod_eq_iff split: prod.splits)
qed

lemma duplicate_fd_result:
  assumes "fd_entry t fd = Some e" "lowest_free t (nat min_fd) n" "0 \<le> min_fd" "n < 2 ^ 31"
  obtains t' where "duplicate_fd fd min_fd fl t = (int n, t')"
    "\<And>d. fd_entry t' d = (if d = int n then Some (e\<lparr>fe_fd_flags := fl\<rparr>) else fd_entry t d)"
proof -
  have e: "\<lparr>fe_file = fe_file e, fe_fd_flags = fl\<rparr> = e\<lparr>fe_fd_flags := fl\<rparr>" by (cases e) simp
  obtain t' where "install_on (e\<lparr>fe_fd_flags := fl\<rparr>) min_fd t = (int n, t')"
    "\<And>d. fd_entry t' d = (if d = int n then Some (e\<lparr>fe_fd_flags := fl\<rparr>) else fd_entry t d)"
    by (rule install_on_result [OF assms(2-4), where e = "e\<lparr>fe_fd_flags := fl\<rparr>"]) blast
  with assms(1) show ?thesis by (intro that [of t']) (simp_all add: duplicate_fd_def e)
qed

lemma dup2_result:
  assumes "fd_entry t old = Some e" "0 \<le> new" "old \<noteq> new"
  obtains t' where "dup2_on old new t = (new, t')"
    "\<And>d. fd_entry t' d = (if d = new then Some (e\<lparr>fe_fd_flags := 0\<rparr>) else fd_entry t d)"
proof -
  have e: "\<lparr>fe_file = fe_file e, fe_fd_flags = 0\<rparr> = e\<lparr>fe_fd_flags := 0\<rparr>" by (cases e) simp
  note r = replace_fd_result [OF assms(2), of t "e\<lparr>fe_fd_flags := 0\<rparr>"]
  show ?thesis
    using assms(1,3) r by (intro that [of "snd (replace_fd t new (e\<lparr>fe_fd_flags := 0\<rparr>))"])
      (simp_all add: dup2_on_def replace_on_def e prod_eq_iff split: prod.splits)
qed

text \<open>A pair of new descriptors: the two lowest unused ones.\<close>

lemma install_pair_result:
  assumes "lowest_free t 0 a" "lowest_free t (Suc a) b" "b < 2 ^ 31"
  obtains t' where "install_pair x y t = (Inr (int a, int b), t')"
    "\<And>d. fd_entry t' d = (if d = int a then Some x else if d = int b then Some y else fd_entry t d)"
proof -
  have ab: "a < b" "a < 2 ^ 31" using assms(2,3) by (simp_all add: lowest_free_def)
  have "lowest_free t (nat 0) a" using assms(1) by simp
  from install_on_result [OF this order_refl ab(2), of x] obtain t1 where t1: "install_fd t x 0 = (Inr (int a), t1)"
    "\<And>d. fd_entry t1 d = (if d = int a then Some x else fd_entry t d)" by metis
  have "lowest_free t1 (nat 0) b"
    using assms(1,2) ab t1(2) unfolding lowest_free_def
    by (auto simp del: fd_entry_int) (metis Suc_leI linorder_neqE_nat)
  from install_on_result [OF this order_refl assms(3), of y] obtain t2 where t2: "install_fd t1 y 0 = (Inr (int b), t2)"
    "\<And>d. fd_entry t2 d = (if d = int b then Some y else fd_entry t1 d)" by metis
  show ?thesis
    using ab t1 t2 by (intro that [of t2]) (auto simp: install_pair_def simp del: fd_entry_int)
qed

text \<open>Receiving descriptors never disturbs one that is in use.\<close>

lemma install_rights_keeps:
  assumes "install_rights fl rights installed t = (Inr fds, t')" "fd_entry t d = Some e"
  shows "fd_entry t' d = Some e"
  using assms
proof (induction rights arbitrary: installed t)
  case (Cons g rights)
  obtain n where n: "lowest_free t (nat 0) n" "fst (install_fd t \<lparr>fe_file = g, fe_fd_flags = fl\<rparr> 0) = i32_try_from n EMFILE"
    "\<And>d. fd_entry (snd (install_fd t \<lparr>fe_file = g, fe_fd_flags = fl\<rparr> 0)) d =
      (if d = int n then Some \<lparr>fe_file = g, fe_fd_flags = fl\<rparr> else fd_entry t d)"
    by (rule install_fd_result [OF order_refl, where t = t and e = "\<lparr>fe_file = g, fe_fd_flags = fl\<rparr>"]) blast
  have "d \<noteq> int n" using Cons.prems(2) n(1) by (auto simp: lowest_free_def simp del: fd_entry_int)
  with Cons.prems(2) n(3) have "fd_entry (snd (install_fd t \<lparr>fe_file = g, fe_fd_flags = fl\<rparr> 0)) d = Some e" by simp
  with Cons.prems(1) Cons.IH show ?case by (auto split: prod.splits sum.splits)
qed simp

lemma fd_entry_close_on_exec:
  "fd_entry (close_on_exec t) d =
    (case fd_entry t d of None \<Rightarrow> None | Some e \<Rightarrow> if fe_fd_flags e AND 1 \<noteq> 0 then None else Some e)"
  by (simp add: fd_entry_def close_on_exec_def split: option.splits)

section \<open>Properties\<close>

text \<open>
  C32. A duplicate is the lowest unused descriptor and names the same open file: no other descriptor
  changes, close-on-exec is clear on it, and status flags set through it are seen through the original,
  with only the append and non-blocking bits replaced.
\<close>

theorem dup_shares_file:
  assumes "fd_entry t fd = Some e" "lowest_free t 0 n" "n < 2 ^ 31"
  shows "\<exists>t'. duplicate_fd fd 0 0 t = (int n, t') \<and>
    (\<forall>d. fd_entry t' d = (if d = int n then Some (e\<lparr>fe_fd_flags := 0\<rparr>) else fd_entry t d)) \<and>
    fst (fcntl_on fd 3 0 t' (snd (snd (fcntl_on (int n) 4 arg t' files)))) =
      files (fe_file e) AND NOT STATUS_FLAG_MUTABLE OR as_i32 arg AND STATUS_FLAG_MUTABLE"
proof -
  obtain t' where t': "duplicate_fd fd 0 0 t = (int n, t')"
    "\<And>d. fd_entry t' d = (if d = int n then Some (e\<lparr>fe_fd_flags := 0\<rparr>) else fd_entry t d)"
    by (rule duplicate_fd_result [OF assms(1) _ order_refl assms(3), where fl = 0]) (use assms(2) in auto)
  have "fd \<noteq> int n" using assms(1,2) by (auto simp: lowest_free_def simp del: fd_entry_int)
  then show ?thesis
    using t' assms(1) by (intro exI [of _ t']) (simp add: fcntl_on_def Let_def del: fd_entry_int)
qed

theorem dup_shares_file_witness:
  "\<exists>t'. duplicate_fd 1 0 0 [None, Some \<lparr>fe_file = 5, fe_fd_flags = 1\<rparr>] = (0, t') \<and>
    fd_entry t' 0 = Some \<lparr>fe_file = 5, fe_fd_flags = 0\<rparr> \<and>
    fst (fcntl_on 1 3 0 t' (snd (snd (fcntl_on 0 4 2048 t' (\<lambda>_. 1026))))) = 2050"
proof -
  let ?t = "[None, Some \<lparr>fe_file = 5, fe_fd_flags = 1\<rparr>]"
  have pre: "fd_entry ?t 1 = Some \<lparr>fe_file = 5, fe_fd_flags = 1\<rparr>" "lowest_free ?t 0 0" "(0 :: nat) < 2 ^ 31"
    by (simp_all add: fd_entry_def lowest_free_def)
  have "(1026 :: int) AND NOT STATUS_FLAG_MUTABLE OR as_i32 2048 AND STATUS_FLAG_MUTABLE = 2050" by code_simp
  with dup_shares_file [OF pre, of 2048 "\<lambda>_. 1026"] show ?thesis by auto
qed

text \<open>
  What survives an exec: exactly the descriptors without close-on-exec, in their places.  Every
  disposition is the default afterwards, ignored signals included, and the mask and the pending
  signals are cleared.
\<close>

theorem exec_keeps_and_resets:
  "fd_entry (p_fd_table (exec_commit p)) d =
     (case fd_entry (p_fd_table p) d of None \<Rightarrow> None | Some e \<Rightarrow> if fe_fd_flags e AND 1 \<noteq> 0 then None else Some e) \<and>
   length (p_signal_actions (exec_commit p)) = SIGNAL_COUNT \<and>
   list_all (\<lambda>a. handler a = 0) (p_signal_actions (exec_commit p)) \<and>
   blocked (exec_commit p) = {} \<and> pending (exec_commit p) = {}"
  by (simp add: exec_commit_def fd_entry_close_on_exec signal_action_default_def blocked_def pending_def list_all_iff)

end
