(* ===== verification/Sessions.thy ===== *)
theory Sessions
  imports Kernel_Steps
begin

text \<open>
  Process groups and sessions: \<^verbatim>\<open>setpgid\<close>, \<^verbatim>\<open>setsid\<close>, \<^verbatim>\<open>fork\<close>, \<^verbatim>\<open>clone\<close> and the removal of processes, seen as steps
  on the process table.  The operations are those of \<^verbatim>\<open>Lifecycle\<close>; here is what they keep.
\<close>

section \<open>Steps\<close>

text \<open>
  A new process number is neither a process nor a group in use: without a wrap of the 16-bit counter this is
  always so.
\<close>

inductive sess_step :: "process list \<Rightarrow> process list \<Rightarrow> bool" where
  Setpgid: "setpgid ps cur which pgid = (r, ps') \<Longrightarrow> sess_step ps ps'"
| Setsid: "setsid ps cur = (r, ps') \<Longrightarrow> sess_step ps ps'"
| Fork: "get_process ps cur = Some p \<Longrightarrow> child \<notin> p_pid ` set ps \<Longrightarrow> child \<notin> p_pgid ` set ps \<Longrightarrow>
    sess_step ps (ps @ [fork_child child p])"
| Clone: "get_process ps cur = Some p \<Longrightarrow> child \<notin> p_pid ` set ps \<Longrightarrow> child \<notin> p_pgid ` set ps \<Longrightarrow>
    sess_step ps (ps @ [thread_child child p])"
| Reap: "i < length ps \<Longrightarrow> sess_step ps (reap_at i ps)"

inductive_simps sess_step_simps: "sess_step ps ps'"

text \<open>
  Members of a group are in one session, and a process is in the session of the group that has its number.
\<close>

definition agree :: "process \<Rightarrow> process \<Rightarrow> bool" where
  "agree p q \<longleftrightarrow> (p_pgid p = p_pgid q \<longrightarrow> p_sid p = p_sid q) \<and> (p_pgid q = p_pid p \<longrightarrow> p_sid q = p_sid p)"

definition sessions_ok :: "process list \<Rightarrow> bool" where
  "sessions_ok ps \<longleftrightarrow> distinct (map p_pid ps) \<and> (\<forall>p \<in> set ps. \<forall>q \<in> set ps. agree p q)"

lemma sessions_okD:
  assumes "sessions_ok ps" "p \<in> set ps" "q \<in> set ps"
  shows "p_pgid p = p_pgid q \<Longrightarrow> p_sid p = p_sid q" "p_pgid q = p_pid p \<Longrightarrow> p_sid q = p_sid p"
  using assms unfolding sessions_ok_def agree_def by blast+

lemma sessions_ok_subset:
  "sessions_ok ps \<Longrightarrow> set qs \<subseteq> set ps \<Longrightarrow> distinct (map p_pid qs) \<Longrightarrow> sessions_ok qs"
  unfolding sessions_ok_def by blast

lemma sessions_ok_insert:
  assumes "sessions_ok ps" "distinct (map p_pid qs)" "set qs \<subseteq> insert c (set ps)"
    and "agree c c" "\<And>q. q \<in> set qs \<Longrightarrow> q \<in> set ps \<Longrightarrow> agree c q \<and> agree q c"
  shows "sessions_ok qs"
  unfolding sessions_ok_def
proof (intro conjI ballI)
  fix p q assume "p \<in> set qs" "q \<in> set qs"
  then show "agree p q" using assms(1,3-5) unfolding sessions_ok_def by blast
qed (rule assms(2))

text \<open>Giving one process another group and session.\<close>

lemma sessions_ok_move:
  assumes "sessions_ok ps" "get_process ps i = Some t"
    and "\<And>q. q \<in> set ps \<Longrightarrow> p_pid q \<noteq> i \<Longrightarrow> p_pgid q = g \<Longrightarrow> p_sid q = s"
    and "\<And>q. q \<in> set ps \<Longrightarrow> p_pid q \<noteq> i \<Longrightarrow> p_pid q = g \<Longrightarrow> p_sid q = s"
    and "\<And>q. q \<in> set ps \<Longrightarrow> p_pid q \<noteq> i \<Longrightarrow> p_pgid q = i \<Longrightarrow> p_sid q = s"
  shows "sessions_ok (set_process ps i (t\<lparr>p_sid := s, p_pgid := g\<rparr>))"
proof -
  let ?t = "t\<lparr>p_sid := s, p_pgid := g\<rparr>"
  have t: "t \<in> set ps" "p_pid t = i" using get_process_Some [OF assms(2)] by auto
  have dist: "distinct (map p_pid ps)" using assms(1) by (simp add: sessions_ok_def)
  have set: "set (set_process ps i ?t) = insert ?t {p \<in> set ps. p_pid p \<noteq> i}"
    using set_set_process [OF dist, of ?t i] t by auto
  show ?thesis
  proof (rule sessions_ok_insert [OF assms(1), where c = ?t])
    show "distinct (map p_pid (set_process ps i ?t))" using dist t(2) by simp
    show "set (set_process ps i ?t) \<subseteq> insert ?t (set ps)" using set by auto
    show "agree ?t ?t" by (simp add: agree_def)
    fix q assume q: "q \<in> set (set_process ps i ?t)" "q \<in> set ps"
    show "agree ?t q \<and> agree q ?t"
    proof (cases "p_pid q = i")
      case True
      with q(1) set have "q = ?t" by auto
      then show ?thesis by (simp add: agree_def)
    next
      case False
      then show ?thesis using assms(3-5) [OF q(2) False] t(2) by (auto simp: agree_def)
    qed
  qed
qed

lemma setpgid_ok:
  assumes "setpgid ps cur which pgid = (r, ps')" "sessions_ok ps"
  shows "sessions_ok ps'"
proof (cases "ps' = ps")
  case False
  define i where "i = target_pid cur which"
  define g where "g = (if pgid = 0 then i else of_int pgid)"
  note res = assms(1) [unfolded setpgid_def Let_def, folded i_def, folded g_def]
  from False res obtain c t where ct: "get_process ps cur = Some c" "get_process ps i = Some t" "p_sid t = p_sid c"
    and member: "g = i \<or> (\<exists>p \<in> set ps. p_pgid p = g \<and> p_sid p = p_sid c)" and ps': "ps' = set_process ps i (t\<lparr>p_pgid := g\<rparr>)"
    by (auto split: if_splits option.splits)
  have same: "t\<lparr>p_sid := p_sid t, p_pgid := g\<rparr> = t\<lparr>p_pgid := g\<rparr>" by simp
  have t: "t \<in> set ps" "p_pid t = i" using get_process_Some [OF ct(2)] by auto
  note old = sessions_okD [OF assms(2)]
  have "sessions_ok (set_process ps i (t\<lparr>p_sid := p_sid t, p_pgid := g\<rparr>))"
  proof (rule sessions_ok_move [OF assms(2) ct(2)])
    fix q assume q: "q \<in> set ps" "p_pid q \<noteq> i"
    show "p_pgid q = i \<Longrightarrow> p_sid q = p_sid t" using old(2) [OF t(1) q(1)] t(2) by simp
    show "p_sid q = p_sid t" if "p_pgid q = g"
      using member
    proof
      assume "g = i"
      then show ?thesis using old(2) [OF t(1) q(1)] t(2) that by simp
    next
      assume "\<exists>m \<in> set ps. p_pgid m = g \<and> p_sid m = p_sid c"
      then show ?thesis using old(1) [OF q(1)] that ct(3) by auto
    qed
    show "p_sid q = p_sid t" if "p_pid q = g"
      using member
    proof
      assume "\<exists>m \<in> set ps. p_pgid m = g \<and> p_sid m = p_sid c"
      then show ?thesis using old(2) [OF q(1)] that ct(3) by auto
    qed (use that q(2) in simp)
  qed
  then show ?thesis by (simp add: ps' same)
qed (use assms(2) in simp)

lemma setsid_ok:
  assumes "setsid ps cur = (r, ps')" "sessions_ok ps"
  shows "sessions_ok ps'"
proof (cases "ps' = ps")
  case False
  with assms(1) obtain p where p: "get_process ps cur = Some p" and none: "\<forall>q \<in> set ps. p_pgid q \<noteq> cur"
    and ps': "ps' = set_process ps cur (p\<lparr>p_sid := cur, p_pgid := cur\<rparr>)"
    by (auto simp: setsid_def split: if_splits option.splits)
  show ?thesis unfolding ps' using none by (intro sessions_ok_move [OF assms(2) p]) auto
qed (use assms(2) in simp)

lemma spawn_ok:
  assumes "sessions_ok ps" "get_process ps cur = Some p" "p_pid c \<notin> p_pid ` set ps" "p_pid c \<notin> p_pgid ` set ps"
    "p_pgid c = p_pgid p" "p_sid c = p_sid p"
  shows "sessions_ok (ps @ [c])"
proof (rule sessions_ok_insert [OF assms(1), where c = c])
  have p: "p \<in> set ps" using get_process_Some [OF assms(2)] by simp
  show "distinct (map p_pid (ps @ [c]))" using assms(1,3) by (simp add: sessions_ok_def)
  show "agree c c" by (simp add: agree_def)
  fix q assume q: "q \<in> set ps"
  have "p_pgid q \<noteq> p_pid c" using assms(4) q by (metis image_eqI)
  then show "agree c q \<and> agree q c"
    using sessions_okD [OF assms(1) p q] sessions_okD [OF assms(1) q p] assms(5,6) unfolding agree_def by simp
qed simp

lemma fork_ok:
  assumes "get_process ps cur = Some p" "child \<notin> p_pid ` set ps" "child \<notin> p_pgid ` set ps" "sessions_ok ps"
  shows "sessions_ok (ps @ [fork_child child p])" "sessions_ok (ps @ [thread_child child p])"
proof -
  note spawn = spawn_ok [OF assms(4,1)]
  show "sessions_ok (ps @ [fork_child child p])"
  proof (rule spawn)
    show "p_pid (fork_child child p) \<notin> p_pid ` set ps" unfolding child_simps by (rule assms(2))
    show "p_pid (fork_child child p) \<notin> p_pgid ` set ps" unfolding child_simps by (rule assms(3))
  qed (rule child_simps)+
  show "sessions_ok (ps @ [thread_child child p])"
  proof (rule spawn)
    show "p_pid (thread_child child p) \<notin> p_pid ` set ps" unfolding child_simps by (rule assms(2))
    show "p_pid (thread_child child p) \<notin> p_pgid ` set ps" unfolding child_simps by (rule assms(3))
  qed (rule child_simps)+
qed

lemma sess_step_ok: "sess_step ps ps' \<Longrightarrow> sessions_ok ps \<Longrightarrow> sessions_ok ps'"
proof (induction rule: sess_step.induct)
  case Setpgid
  then show ?case by (rule setpgid_ok)
next
  case Setsid
  then show ?case by (rule setsid_ok)
next
  case Fork
  then show ?case by (rule fork_ok(1))
next
  case Clone
  then show ?case by (rule fork_ok(2))
next
  case (Reap i ps)
  then have d: "distinct (map p_pid ps)" by (simp add: sessions_ok_def)
  note r = reap_at_result [OF Reap(1) d]
  have "set (reap_at i ps) \<subseteq> set ps" unfolding r(1) by blast
  then show ?case by (rule sessions_ok_subset [OF Reap(2) _ r(2)])
qed

section \<open>Properties\<close>

text \<open>
  C33. Process groups do not cross sessions: whatever sequence of \<^verbatim>\<open>setpgid\<close>, \<^verbatim>\<open>setsid\<close>, \<^verbatim>\<open>fork\<close>, \<^verbatim>\<open>clone\<close> and
  reaping runs, two processes of one group are in one session, and a process whose number names a group is
  in that group's session.
\<close>

theorem groups_within_sessions:
  assumes "sess_step\<^sup>*\<^sup>* ps ps'" "sessions_ok ps" "p \<in> set ps'" "q \<in> set ps'"
  shows "(p_pgid p = p_pgid q \<longrightarrow> p_sid p = p_sid q) \<and> (p_pgid q = p_pid p \<longrightarrow> p_sid q = p_sid p)"
proof -
  have "sessions_ok ps'" using assms(1,2) by (induction rule: rtranclp_induct) (blast, rule sess_step_ok)
  then have "agree p q" using assms(3,4) unfolding sessions_ok_def by blast
  then show ?thesis unfolding agree_def .
qed

text \<open>Process 2 forks 7, which leads a session of its own and forks 8.\<close>

definition demo_session :: "process list" where
  "demo_session =
    (let seven = fork_child 7 (demo_proc 2 1 Running) in
     snd (setsid (demo_table @ [seven]) 7) @ [fork_child 8 (seven\<lparr>p_sid := 7, p_pgid := 7\<rparr>)])"

lemma demo_session_steps: "sess_step\<^sup>*\<^sup>* demo_table demo_session"
proof -
  let ?seven = "fork_child 7 (demo_proc 2 1 Running)"
  let ?t1 = "demo_table @ [?seven]" and ?led = "?seven\<lparr>p_sid := 7, p_pgid := 7\<rparr>"
  have "sess_step demo_table ?t1"
    by (rule sess_step.Fork [where cur = 2]) code_simp+
  moreover have "sess_step ?t1 (snd (setsid ?t1 7))"
    by (rule sess_step.Setsid [of _ 7 "fst (setsid ?t1 7)"]) simp
  moreover have "sess_step (snd (setsid ?t1 7)) (snd (setsid ?t1 7) @ [fork_child 8 ?led])"
    by (rule sess_step.Fork [where cur = 7]) code_simp+
  ultimately show ?thesis
    unfolding demo_session_def Let_def by (meson rtranclp.rtrancl_into_rtrancl rtranclp.rtrancl_refl)
qed

theorem groups_within_sessions_witness:
  "p_pgid (demo_session ! 2) = p_pgid (demo_session ! 3) \<and> p_sid (demo_session ! 2) = p_sid (demo_session ! 3) \<and>
   p_sid (demo_session ! 3) = 7"
proof -
  have grp: "p_pgid (demo_session ! 2) = p_pgid (demo_session ! 3)" "p_sid (demo_session ! 3) = 7"
    "length demo_session = 4" by code_simp+
  then have mem: "demo_session ! 2 \<in> set demo_session" "demo_session ! 3 \<in> set demo_session" by simp_all
  have "sessions_ok demo_table"
    by (simp add: sessions_ok_def demo_table_def agree_def demo_proc_def)
  from groups_within_sessions [OF demo_session_steps this mem] grp show ?thesis by blast
qed

end
