(* ===== verification/Block_Dev.thy ===== *)
theory Block_Dev
  imports Bytes
begin

text \<open>
  Block devices (\<^verbatim>\<open>driver/disk/mod.rs\<close>) and the block layer of the file system
  (\<^verbatim>\<open>sys/fs/twilight_fs/mod.rs\<close>): the default methods of the trait \<^verbatim>\<open>BlockDeviceIO\<close>, the window
  \<^verbatim>\<open>PartitionBlockDevice\<close> on a disk, and the transfer of 2048-byte file system blocks.  A disk is its
  sectors, their number and the set of sectors on which a transfer fails.
\<close>

section \<open>Model\<close>

subsection \<open>The trait\<close>

text \<open>The default \<^verbatim>\<open>read_blocks\<close> and \<^verbatim>\<open>write_blocks\<close>, over a device's own \<^verbatim>\<open>read\<close> and \<^verbatim>\<open>write\<close>.\<close>

fun read_chunks :: "('d \<Rightarrow> u32 \<Rightarrow> unit + u8 list) \<Rightarrow> 'd \<Rightarrow> u32 \<Rightarrow> nat \<Rightarrow> unit + u8 list" where
  "read_chunks rd d addr 0 = Inr []"
| "read_chunks rd d addr (Suc n) =
    (case rd d addr of
       Inl e \<Rightarrow> Inl e
     | Inr c \<Rightarrow> (case read_chunks rd d (addr + 1) n of Inl e \<Rightarrow> Inl e | Inr cs \<Rightarrow> Inr (c @ cs)))"

definition read_blocks ::
  "('d \<Rightarrow> u32 \<Rightarrow> unit + u8 list) \<Rightarrow> nat \<Rightarrow> 'd \<Rightarrow> u32 \<Rightarrow> nat \<Rightarrow> unit + u8 list" where
  "read_blocks rd block_size d start_addr len =
    (if block_size = 0 \<or> len = 0 \<or> len mod block_size \<noteq> 0 then Inl ()
     else read_chunks rd d start_addr (len div block_size))"

fun write_chunks ::
  "('d \<Rightarrow> u32 \<Rightarrow> u8 list \<Rightarrow> (unit + unit) \<times> 'd) \<Rightarrow> nat \<Rightarrow> 'd \<Rightarrow> u32 \<Rightarrow> nat \<Rightarrow> u8 list \<Rightarrow> (unit + unit) \<times> 'd" where
  "write_chunks wr bs d addr 0 buf = (Inr (), d)"
| "write_chunks wr bs d addr (Suc n) buf =
    (case wr d addr (take bs buf) of
       (Inl e, d') \<Rightarrow> (Inl e, d')
     | (Inr _, d') \<Rightarrow> write_chunks wr bs d' (addr + 1) n (drop bs buf))"

definition write_blocks ::
  "('d \<Rightarrow> u32 \<Rightarrow> u8 list \<Rightarrow> (unit + unit) \<times> 'd) \<Rightarrow> nat \<Rightarrow> 'd \<Rightarrow> u32 \<Rightarrow> u8 list \<Rightarrow> (unit + unit) \<times> 'd" where
  "write_blocks wr block_size d start_addr buf =
    (if block_size = 0 \<or> buf = [] \<or> length buf mod block_size \<noteq> 0 then (Inl (), d)
     else write_chunks wr block_size d start_addr (length buf div block_size) buf)"

subsection \<open>A disk\<close>

record disk =
  d_block_size :: nat
  d_block_count :: nat
  d_data :: "u32 \<Rightarrow> u8 list"
  d_fails :: "u32 \<Rightarrow> bool"

definition disk_good :: "disk \<Rightarrow> u32 \<Rightarrow> bool" where
  "disk_good d addr \<longleftrightarrow> unat addr < d_block_count d \<and> \<not> d_fails d addr"

definition disk_read :: "disk \<Rightarrow> u32 \<Rightarrow> unit + u8 list" where
  "disk_read d addr = (if disk_good d addr then Inr (d_data d addr) else Inl ())"

definition disk_write :: "disk \<Rightarrow> u32 \<Rightarrow> u8 list \<Rightarrow> (unit + unit) \<times> disk" where
  "disk_write d addr c =
    (if disk_good d addr then (Inr (), d\<lparr>d_data := (d_data d)(addr := c)\<rparr>) else (Inl (), d))"

subsection \<open>A partition\<close>

record partition_dev =
  pd_inner :: disk
  pd_start_block :: u32
  pd_block_count :: nat
  pd_read_only :: bool

definition partition_new :: "disk \<Rightarrow> u32 \<Rightarrow> nat \<Rightarrow> bool \<Rightarrow> unit + partition_dev" where
  "partition_new d start cnt ro =
    (if unat start + cnt \<ge> 2 ^ 64 then Inl ()
     else if cnt = 0 \<or> unat start + cnt > d_block_count d then Inl ()
     else Inr \<lparr>pd_inner = d, pd_start_block = start, pd_block_count = cnt, pd_read_only = ro\<rparr>)"

definition pd_block_size :: "partition_dev \<Rightarrow> nat" where
  "pd_block_size p = d_block_size (pd_inner p)"

definition pd_read :: "partition_dev \<Rightarrow> u32 \<Rightarrow> nat \<Rightarrow> unit + u8 list" where
  "pd_read p addr len =
    (let block_size = pd_block_size p in
     if block_size = 0 \<or> len mod block_size \<noteq> 0 then Inl ()
     else if unat addr + len div block_size > pd_block_count p then Inl ()
     else read_blocks disk_read block_size (pd_inner p) (pd_start_block p + addr) len)"

definition pd_write :: "partition_dev \<Rightarrow> u32 \<Rightarrow> u8 list \<Rightarrow> (unit + unit) \<times> partition_dev" where
  "pd_write p addr buf =
    (if pd_read_only p then (Inl (), p)
     else
       let block_size = pd_block_size p in
       if block_size = 0 \<or> length buf mod block_size \<noteq> 0 then (Inl (), p)
       else if unat addr + length buf div block_size > pd_block_count p then (Inl (), p)
       else
         let (r, d) = write_blocks disk_write block_size (pd_inner p) (pd_start_block p + addr) buf in
         (r, p\<lparr>pd_inner := d\<rparr>))"

subsection \<open>File system blocks\<close>

datatype fs_error =
  NotSupported | FileAlreadyExists | FileNotFound | InvalidPath | InvalidInode | FileNameTooLong | FileSizeTooLarge

definition FS_BLOCK_SIZE :: nat where "FS_BLOCK_SIZE = 2048"

definition read_tfs_blocks :: "partition_dev \<Rightarrow> u32 \<Rightarrow> nat \<Rightarrow> fs_error + u8 list" where
  "read_tfs_blocks p start_block_no len =
    (let bs = pd_block_size p in
     if bs = 0 \<or> FS_BLOCK_SIZE mod bs \<noteq> 0 \<or> len mod bs \<noteq> 0 then Inl InvalidInode
     else if unat start_block_no * (FS_BLOCK_SIZE div bs) \<ge> 2 ^ 64 then Inl InvalidInode
     else case pd_read p (of_nat (unat start_block_no * (FS_BLOCK_SIZE div bs))) len of
         Inl _ \<Rightarrow> Inl InvalidInode
       | Inr buf \<Rightarrow> Inr buf)"

definition read_tfs_block :: "partition_dev \<Rightarrow> u32 \<Rightarrow> fs_error + u8 list" where
  "read_tfs_block p block_no = read_tfs_blocks p block_no 2048"

definition write_tfs_blocks :: "partition_dev \<Rightarrow> u32 \<Rightarrow> u8 list \<Rightarrow> (fs_error + unit) \<times> partition_dev" where
  "write_tfs_blocks p start_block_no buf =
    (let bs = pd_block_size p in
     if bs = 0 \<or> FS_BLOCK_SIZE mod bs \<noteq> 0 \<or> length buf mod bs \<noteq> 0 then (Inl InvalidInode, p)
     else if unat start_block_no * (FS_BLOCK_SIZE div bs) \<ge> 2 ^ 64 then (Inl InvalidInode, p)
     else case pd_write p (of_nat (unat start_block_no * (FS_BLOCK_SIZE div bs))) buf of
         (Inl _, p') \<Rightarrow> (Inl InvalidInode, p')
       | (Inr _, p') \<Rightarrow> (Inr (), p'))"

definition write_tfs_block :: "partition_dev \<Rightarrow> u32 \<Rightarrow> u8 list \<Rightarrow> (fs_error + unit) \<times> partition_dev" where
  "write_tfs_block p block_no buf = write_tfs_blocks p block_no buf"

section \<open>What a device promises\<close>

text \<open>
  A transfer of one sector works exactly on the good ones, and a write changes one sector.  The default
  methods then transfer a whole run.
\<close>

primrec overlay :: "nat \<Rightarrow> u32 \<Rightarrow> nat \<Rightarrow> u8 list \<Rightarrow> (u32 \<Rightarrow> u8 list) \<Rightarrow> u32 \<Rightarrow> u8 list" where
  "overlay bs a 0 buf f = f"
| "overlay bs a (Suc n) buf f = overlay bs (a + 1) n (drop bs buf) (f(a := take bs buf))"

lemma overlay_apply:
  "n \<le> 2 ^ 32 \<Longrightarrow> overlay bs a n buf f x =
    (if unat (x - a) < n then take bs (drop (bs * unat (x - a)) buf) else f x)"
proof (induction n arbitrary: a buf f)
  case (Suc n)
  have n: "n \<le> 2 ^ 32" using Suc.prems by (rule Suc_leD)
  note IH = Suc.IH [OF n, of "a + 1" "drop bs buf" "f(a := take bs buf)"]
  show ?case
  proof (cases "x = a")
    case True
    have "unat (a - (a + 1)) = 2 ^ 32 - 1" by (simp add: unsigned_minus_1_eq_mask mask_eq_exp_minus_1)
    moreover have "\<not> (2 ^ 32 - 1 :: nat) < n" using Suc.prems by linarith
    ultimately have "\<not> unat (x - (a + 1)) < n" unfolding True by (simp only: not_False_eq_True)
    then have "overlay bs a (Suc n) buf f x = (f(a := take bs buf)) x" using IH by (simp only: overlay.simps if_False)
    then show ?thesis using True by simp
  next
    case False
    then have ne: "x - a \<noteq> 0" by simp
    from unat_minus_one [OF this] have less: "unat (x - (a + 1)) = unat (x - a) - 1" by (simp add: diff_diff_eq)
    have "unat (x - a) \<noteq> 0" using ne by (simp add: unat_eq_zero)
    then obtain k where k: "unat (x - a) = Suc k" by (cases "unat (x - a)") simp_all
    show ?thesis unfolding overlay.simps IH less k using False by (simp add: add.commute)
  qed
qed simp

locale block_device =
  fixes rd :: "'d \<Rightarrow> u32 \<Rightarrow> unit + u8 list"
    and wr :: "'d \<Rightarrow> u32 \<Rightarrow> u8 list \<Rightarrow> (unit + unit) \<times> 'd"
    and good :: "'d \<Rightarrow> u32 \<Rightarrow> bool"
    and content :: "'d \<Rightarrow> u32 \<Rightarrow> u8 list"
    and put :: "'d \<Rightarrow> (u32 \<Rightarrow> u8 list) \<Rightarrow> 'd"
  assumes rd_eq: "rd d a = (if good d a then Inr (content d a) else Inl ())"
    and wr_eq: "wr d a c = (if good d a then (Inr (), put d ((content d)(a := c))) else (Inl (), d))"
    and content_put: "content (put d f) = f"
    and good_put: "good (put d f) = good d"
    and put_put: "put (put d f) g = put d g"
    and put_content: "put d (content d) = d"
begin

lemma read_chunks_eq:
  "read_chunks rd d a n =
    (if \<forall>i < n. good d (a + of_nat i) then Inr (concat (map (\<lambda>i. content d (a + of_nat i)) [0..<n])) else Inl ())"
proof (induction n arbitrary: a)
  case (Suc n)
  have all: "(\<forall>i < Suc n. good d (a + of_nat i)) \<longleftrightarrow> good d a \<and> (\<forall>i < n. good d (a + 1 + of_nat i))"
    by (auto simp: less_Suc_eq_0_disj add.assoc)
  have "map (\<lambda>i. content d (a + of_nat i)) [0..<Suc n] = content d a # map (\<lambda>i. content d (a + 1 + of_nat i)) [0..<n]"
    by (simp add: upt_conv_Cons map_Suc_upt [symmetric] add.assoc comp_def del: upt_Suc)
  then show ?case using Suc [of "a + 1"] by (simp only: all read_chunks.simps rd_eq) auto
qed simp

lemma write_chunks_eq:
  "\<forall>i < n. good d (a + of_nat i) \<Longrightarrow>
    write_chunks wr bs d a n buf = (Inr (), put d (overlay bs a n buf (content d)))"
proof (induction n arbitrary: d a buf)
  case (Suc n)
  from Suc.prems have "good d a" by force
  moreover from Suc.prems have "\<forall>i < n. good d (a + 1 + of_nat i)" by (force simp: add.assoc)
  ultimately show ?case using Suc.IH [of "put d ((content d)(a := take bs buf))"]
    by (simp add: wr_eq content_put good_put put_put fun_upd_def)
qed (simp add: put_content)

lemma write_chunks_outside:
  "write_chunks wr bs d a n buf = (r, d') \<Longrightarrow>
    \<exists>f. d' = put d f \<and> (\<forall>x. (\<forall>i < n. x \<noteq> a + of_nat i) \<longrightarrow> f x = content d x)"
proof (induction n arbitrary: d a buf)
  case 0
  then show ?case by (intro exI [of _ "content d"]) (simp add: put_content)
next
  case (Suc n)
  show ?case
  proof (cases "good d a")
    case True
    with Suc.prems have "write_chunks wr bs (put d ((content d)(a := take bs buf))) (a + 1) n (drop bs buf) = (r, d')"
      using wr_eq [of d a "take bs buf"] by simp
    from Suc.IH [OF this] obtain f where f: "d' = put d f"
      "\<forall>x. (\<forall>i < n. x \<noteq> a + 1 + of_nat i) \<longrightarrow> f x = ((content d)(a := take bs buf)) x"
      by (auto simp: put_put content_put)
    have "f x = content d x" if x: "\<forall>i < Suc n. x \<noteq> a + of_nat i" for x
    proof -
      have "x \<noteq> a" using x [rule_format, of 0] by simp
      moreover have "\<forall>i < n. x \<noteq> a + 1 + of_nat i" using x by (force simp: add.assoc)
      ultimately show ?thesis using f(2) by simp
    qed
    with f(1) show ?thesis by blast
  next
    case False
    with Suc.prems show ?thesis by (intro exI [of _ "content d"]) (simp add: wr_eq [of d a "take bs buf"] put_content)
  qed
qed

end

interpretation raw: block_device disk_read disk_write disk_good d_data "\<lambda>d f. d\<lparr>d_data := f\<rparr>"
  by unfold_locales (simp_all add: disk_read_def disk_write_def disk_good_def fun_eq_iff)

section \<open>The blocks of a partition\<close>

text \<open>A partition inside its disk; the sectors of its window, by position.\<close>

definition part_wf :: "partition_dev \<Rightarrow> bool" where
  "part_wf p \<longleftrightarrow> d_block_size (pd_inner p) = 512 \<and> d_block_count (pd_inner p) \<le> 2 ^ 32 \<and>
    0 < pd_block_count p \<and> unat (pd_start_block p) + pd_block_count p \<le> d_block_count (pd_inner p) \<and>
    (\<forall>a. length (d_data (pd_inner p) a) = 512)"

definition sect :: "partition_dev \<Rightarrow> nat \<Rightarrow> u8 list" where
  "sect p s = d_data (pd_inner p) (pd_start_block p + of_nat s)"

definition sect_ok :: "partition_dev \<Rightarrow> nat \<Rightarrow> bool" where
  "sect_ok p s \<longleftrightarrow> s < pd_block_count p \<and> \<not> d_fails (pd_inner p) (pd_start_block p + of_nat s)"

text \<open>The block of four sectors, and when it can be transferred.\<close>

definition blk :: "partition_dev \<Rightarrow> u32 \<Rightarrow> u8 list" where
  "blk p b = concat (map (\<lambda>i. sect p (4 * unat b + i)) [0..<4])"

definition blk_ok :: "partition_dev \<Rightarrow> u32 \<Rightarrow> bool" where
  "blk_ok p b \<longleftrightarrow> (\<forall>i < 4. sect_ok p (4 * unat b + i))"

lemma part_wfD:
  assumes "part_wf p"
  shows "pd_block_size p = 512" "unat (pd_start_block p) + pd_block_count p \<le> 2 ^ 32" "length (sect p s) = 512"
    "unat (pd_start_block p) + pd_block_count p \<le> d_block_count (pd_inner p)"
  using assms by (auto simp: part_wf_def pd_block_size_def sect_def)

lemma length_blk [simp]: "part_wf p \<Longrightarrow> length (blk p b) = 2048"
  by (simp add: blk_def length_concat comp_def part_wfD sum_list_triv)

lemma blk_ok_less: "blk_ok p b \<Longrightarrow> 4 * unat b + 3 < pd_block_count p"
  by (simp add: blk_ok_def sect_ok_def)

lemma unat_start_add:
  assumes "part_wf p" "s < pd_block_count p"
  shows "unat (pd_start_block p + of_nat s) = unat (pd_start_block p) + s"
proof -
  have "unat (pd_start_block p) + s < 2 ^ 32" using part_wfD(2) [OF assms(1)] assms(2) by simp
  moreover from this have "unat (of_nat s :: u32) = s" by (intro unat_of_nat_u32) simp
  ultimately show ?thesis by (simp add: unat_word_ariths)
qed

lemma good_start_add:
  assumes "part_wf p" "s < pd_block_count p"
  shows "disk_good (pd_inner p) (pd_start_block p + of_nat s) = sect_ok p s"
  using unat_start_add [OF assms] part_wfD(4) [OF assms(1)] assms(2) by (simp add: disk_good_def sect_ok_def)

lemma pd_read_eq:
  assumes "part_wf p" "n \<noteq> 0" "s + n \<le> pd_block_count p"
  shows "pd_read p (of_nat s) (512 * n) =
    (if \<forall>i < n. sect_ok p (s + i) then Inr (concat (map (\<lambda>i. sect p (s + i)) [0..<n])) else Inl ())"
proof -
  have s: "unat (of_nat s :: u32) = s" using part_wfD(2) [OF assms(1)] assms(2,3) by (intro unat_of_nat_u32) simp
  have "disk_good (pd_inner p) (pd_start_block p + of_nat s + of_nat i) = sect_ok p (s + i)" if "i < n" for i
    using good_start_add [OF assms(1), of "s + i"] that assms(3) by (simp add: add.assoc)
  then show ?thesis
    using s part_wfD(1) [OF assms(1)] assms(2,3)
    by (simp add: pd_read_def read_blocks_def raw.read_chunks_eq sect_def add.assoc cong: conj_cong)
qed

lemma read_tfs_block_eq:
  assumes "part_wf p" "blk_ok p b"
  shows "read_tfs_block p b = Inr (blk p b)"
proof -
  have "4 * unat b + 4 \<le> pd_block_count p" using blk_ok_less [OF assms(2)] by simp
  from pd_read_eq [OF assms(1) _ this] assms show ?thesis
    using unat_u32_less [of b]
    by (simp add: read_tfs_block_def read_tfs_blocks_def part_wfD FS_BLOCK_SIZE_def blk_ok_def blk_def mult.commute)
qed

text \<open>Storing a run of sectors.\<close>

definition put_sects :: "partition_dev \<Rightarrow> nat \<Rightarrow> u8 list \<Rightarrow> partition_dev" where
  "put_sects p s buf = p\<lparr>pd_inner := (pd_inner p)\<lparr>d_data :=
     overlay 512 (pd_start_block p + of_nat s) (length buf div 512) buf (d_data (pd_inner p))\<rparr>\<rparr>"

lemma put_sects_sel [simp]:
  "pd_start_block (put_sects p s buf) = pd_start_block p" "pd_block_count (put_sects p s buf) = pd_block_count p"
  "pd_read_only (put_sects p s buf) = pd_read_only p" "pd_block_size (put_sects p s buf) = pd_block_size p"
  "d_block_size (pd_inner (put_sects p s buf)) = d_block_size (pd_inner p)"
  "d_block_count (pd_inner (put_sects p s buf)) = d_block_count (pd_inner p)"
  "d_fails (pd_inner (put_sects p s buf)) = d_fails (pd_inner p)"
  by (simp_all add: put_sects_def pd_block_size_def)

lemma data_put_sects: "d_data (pd_inner (put_sects p s buf)) =
    overlay 512 (pd_start_block p + of_nat s) (length buf div 512) buf (d_data (pd_inner p))"
  by (simp add: put_sects_def)

lemma pd_write_eq:
  assumes "part_wf p" "\<not> pd_read_only p" "length buf = 512 * n" "n \<noteq> 0" "s + n \<le> pd_block_count p"
    "\<And>i. i < n \<Longrightarrow> sect_ok p (s + i)"
  shows "pd_write p (of_nat s) buf = (Inr (), put_sects p s buf)"
proof -
  have s: "unat (of_nat s :: u32) = s" using part_wfD(2) [OF assms(1)] assms(4,5) by (intro unat_of_nat_u32) simp
  have good: "\<forall>i < n. disk_good (pd_inner p) (pd_start_block p + of_nat s + of_nat i)"
    using good_start_add [OF assms(1), of "s + i" for i] assms(5,6) by (simp add: add.assoc)
  have "buf \<noteq> []" "length buf div 512 = n" "length buf mod 512 = 0" using assms(3,4) by auto
  then have "write_blocks disk_write 512 (pd_inner p) (pd_start_block p + of_nat s) buf =
      (Inr (), (pd_inner p)\<lparr>d_data := overlay 512 (pd_start_block p + of_nat s) n buf (d_data (pd_inner p))\<rparr>)"
    using raw.write_chunks_eq [OF good, of 512 buf] by (simp add: write_blocks_def)
  then show ?thesis
    using s part_wfD(1) [OF assms(1)] assms(2,5) \<open>length buf div 512 = n\<close> \<open>length buf mod 512 = 0\<close>
    unfolding pd_write_def put_sects_def Let_def by (simp only: if_False if_True) simp
qed

lemma sect_put_sects:
  assumes "part_wf p" "length buf = 512 * n" "n \<noteq> 0" "s + n \<le> pd_block_count p" "t < pd_block_count p"
  shows "sect (put_sects p s buf) t = (if s \<le> t \<and> t < s + n then take 512 (drop (512 * (t - s)) buf) else sect p t)"
proof -
  let ?x = "pd_start_block p + of_nat t" and ?a = "pd_start_block p + of_nat s"
  have bound: "pd_block_count p \<le> 2 ^ 32" using part_wfD(2) [OF assms(1)] by simp
  have diff: "?x - ?a = of_nat t - of_nat s" by simp
  have "unat (of_nat t :: u32) = t" "unat (of_nat s :: u32) = s"
    using assms(3-5) bound by (intro unat_of_nat_u32; simp)+
  then have sub: "unat (?x - ?a) = (if s \<le> t then t - s else t + 2 ^ 32 - s)"
    unfolding diff by (simp add: unat_sub_if')
  have less: "unat (?x - ?a) < n \<longleftrightarrow> s \<le> t \<and> t < s + n"
  proof (cases "s \<le> t")
    case False
    then have "n \<le> t + 2 ^ 32 - s" using assms(4) bound by linarith
    with False sub show ?thesis by simp
  qed (use sub in auto)
  have "overlay 512 ?a n buf (d_data (pd_inner p)) ?x =
      (if unat (?x - ?a) < n then take 512 (drop (512 * unat (?x - ?a)) buf) else d_data (pd_inner p) ?x)"
    using assms(4) bound by (intro overlay_apply) linarith
  moreover have "length buf div 512 = n" using assms(2) by simp
  ultimately have "sect (put_sects p s buf) t =
      (if s \<le> t \<and> t < s + n then take 512 (drop (512 * unat (?x - ?a)) buf) else sect p t)"
    unfolding less sect_def data_put_sects put_sects_sel by (simp only:)
  moreover have "unat (?x - ?a) = t - s" if "s \<le> t" using sub that by (simp only: if_True)
  ultimately show ?thesis by (cases "s \<le> t") (simp_all only: simp_thms if_False)
qed

text \<open>Storing a run of blocks.\<close>

definition put_blks :: "partition_dev \<Rightarrow> u32 \<Rightarrow> u8 list \<Rightarrow> partition_dev" where
  "put_blks p b buf = put_sects p (4 * unat b) buf"

lemma put_blks_sel [simp]:
  "pd_read_only (put_blks p b buf) = pd_read_only p" "pd_block_count (put_blks p b buf) = pd_block_count p"
  "blk_ok (put_blks p b buf) = blk_ok p"
  by (simp_all add: put_blks_def blk_ok_def sect_ok_def fun_eq_iff)

lemma part_wf_put_sects:
  assumes "part_wf p" "length buf = 512 * n"
  shows "part_wf (put_sects p s buf)"
proof -
  have len: "\<forall>a. length (f a) = 512 \<Longrightarrow> \<forall>a. length (overlay 512 x n buf f a) = 512" for f x
    using assms(2) by (induction n arbitrary: x buf f) simp_all
  show ?thesis using assms len by (simp add: part_wf_def data_put_sects)
qed

lemma run_ok:
  assumes "\<And>c. unat b \<le> unat c \<Longrightarrow> unat c < unat b + m \<Longrightarrow> blk_ok p c" "m \<noteq> 0" "unat b + m \<le> 2 ^ 32" "i < 4 * m"
  shows "sect_ok p (4 * unat b + i)"
proof -
  have c: "unat (of_nat (unat b + i div 4) :: u32) = unat b + i div 4"
    using assms(3,4) by (intro unat_of_nat_u32) linarith
  have "i div 4 < m" using assms(4) by linarith
  then have "blk_ok p (of_nat (unat b + i div 4))" by (intro assms(1); unfold c) simp_all
  then have "sect_ok p (4 * (unat b + i div 4) + i mod 4)" unfolding blk_ok_def c by (metis mod_less_divisor zero_less_numeral)
  moreover have "4 * (unat b + i div 4) + i mod 4 = 4 * unat b + i" by simp
  ultimately show ?thesis by metis
qed

lemma write_tfs_blocks_eq:
  assumes "part_wf p" "\<not> pd_read_only p" "length buf = 2048 * m" "m \<noteq> 0" "unat b + m \<le> 2 ^ 32"
    "\<And>c. unat b \<le> unat c \<Longrightarrow> unat c < unat b + m \<Longrightarrow> blk_ok p c"
  shows "write_tfs_blocks p b buf = (Inr (), put_blks p b buf)"
proof -
  note ok = run_ok [OF assms(6,4,5)]
  have "sect_ok p (4 * unat b + (4 * m - 1))" using assms(4) by (intro ok) simp_all
  then have "4 * unat b + (4 * m - 1) < pd_block_count p" unfolding sect_ok_def by blast
  then have len: "4 * unat b + 4 * m \<le> pd_block_count p" using assms(4) by linarith
  have "pd_write p (of_nat (4 * unat b)) buf = (Inr (), put_sects p (4 * unat b) buf)"
    using assms(3,4) len ok by (intro pd_write_eq [OF assms(1,2), of _ "4 * m"]) simp_all
  then show ?thesis
    using unat_u32_less [of b] assms(3)
    by (simp add: write_tfs_blocks_def put_blks_def part_wfD(1) [OF assms(1)] FS_BLOCK_SIZE_def mult.commute)
qed

lemma concat_slices:
  "length xs = 512 * n \<Longrightarrow> concat (map (\<lambda>i. take 512 (drop (512 * i) xs)) [0..<n]) = xs"
proof (induction n arbitrary: xs)
  case (Suc n)
  have "map (\<lambda>i. take 512 (drop (512 * i) xs)) [0..<Suc n] =
      take 512 xs # map (\<lambda>i. take 512 (drop (512 * i) (drop 512 xs))) [0..<n]"
    by (simp add: upt_conv_Cons map_Suc_upt [symmetric] comp_def add.commute del: upt_Suc)
  then show ?case using Suc.IH [of "drop 512 xs"] Suc.prems by simp
qed simp

lemma blk_put_blks:
  assumes "part_wf p" "length buf = 2048 * m" "m \<noteq> 0" "unat b + m \<le> 2 ^ 32" "blk_ok p c"
    "\<And>c. unat b \<le> unat c \<Longrightarrow> unat c < unat b + m \<Longrightarrow> blk_ok p c"
  shows "blk (put_blks p b buf) c =
    (if unat b \<le> unat c \<and> unat c < unat b + m then take 2048 (drop (2048 * (unat c - unat b)) buf) else blk p c)"
proof -
  have "sect_ok p (4 * unat b + (4 * m - 1))" using assms(3) by (intro run_ok [OF assms(6,3,4)]) simp_all
  then have "4 * unat b + (4 * m - 1) < pd_block_count p" unfolding sect_ok_def by blast
  then have len: "4 * unat b + 4 * m \<le> pd_block_count p" using assms(3) by linarith
  have each: "sect (put_blks p b buf) (4 * unat c + i) =
      (if unat b \<le> unat c \<and> unat c < unat b + m then take 512 (drop (512 * (4 * unat c + i - 4 * unat b)) buf)
       else sect p (4 * unat c + i))" if "i < 4" for i
  proof -
    have "4 * unat c + i < pd_block_count p" using blk_ok_less [OF assms(5)] that by linarith
    from sect_put_sects [OF assms(1) _ _ len this, of buf] assms(2,3)
    have "sect (put_blks p b buf) (4 * unat c + i) =
      (if 4 * unat b \<le> 4 * unat c + i \<and> 4 * unat c + i < 4 * unat b + 4 * m
       then take 512 (drop (512 * (4 * unat c + i - 4 * unat b)) buf) else sect p (4 * unat c + i))"
      by (simp add: put_blks_def)
    moreover have "4 * unat b \<le> 4 * unat c + i \<and> 4 * unat c + i < 4 * unat b + 4 * m \<longleftrightarrow>
        unat b \<le> unat c \<and> unat c < unat b + m" using that by linarith
    ultimately show ?thesis by (simp only:)
  qed
  show ?thesis
  proof (cases "unat b \<le> unat c \<and> unat c < unat b + m")
    case True
    let ?k = "unat c - unat b"
    have part: "take 512 (drop (512 * (4 * unat c + i - 4 * unat b)) buf) =
        take 512 (drop (512 * i) (take 2048 (drop (2048 * ?k) buf)))" if "i < 4" for i
    proof -
      from True obtain k where "unat c = unat b + k" by (auto simp: le_iff_add)
      then have "512 * (4 * unat c + i - 4 * unat b) = 512 * i + 2048 * ?k" by simp
      moreover have "min 512 (2048 - 512 * i) = 512" using that by simp
      ultimately show ?thesis by (simp only: drop_take take_take drop_drop)
    qed
    have "2048 * m - 2048 * ?k \<ge> 2048" using True by linarith
    then have "length (take 2048 (drop (2048 * ?k) buf)) = 512 * 4" using assms(2) by simp
    note slices = concat_slices [OF this]
    have "map (\<lambda>i. sect (put_blks p b buf) (4 * unat c + i)) [0..<4] =
        map (\<lambda>i. take 512 (drop (512 * i) (take 2048 (drop (2048 * ?k) buf)))) [0..<4]"
      by (rule map_cong [OF refl]) (use part each True in simp)
    then show ?thesis using True slices unfolding blk_def by (simp only: if_True simp_thms)
  next
    case False
    then have "map (\<lambda>i. sect (put_blks p b buf) (4 * unat c + i)) [0..<4] = map (\<lambda>i. sect p (4 * unat c + i)) [0..<4]"
      using each by (intro map_cong [OF refl]) (simp only: set_upt atLeastLessThan_iff if_False)
    then show ?thesis using False unfolding blk_def by (simp only: if_False)
  qed
qed

lemma part_wf_put_blks: "part_wf p \<Longrightarrow> length buf = 2048 * m \<Longrightarrow> part_wf (put_blks p b buf)"
  unfolding put_blks_def by (rule part_wf_put_sects [where n = "4 * m"]) simp_all

text \<open>One block.\<close>

lemma only_itself: "unat b \<le> unat c \<Longrightarrow> unat c < unat b + 1 \<Longrightarrow> c = (b :: u32)"
  by (simp add: word_unat_eq_iff)

lemma block_le: "unat (b :: u32) + 1 \<le> 2 ^ 32"
  using unat_u32_less [of b] by simp

lemma write_tfs_block_eq:
  assumes "part_wf p" "\<not> pd_read_only p" "length buf = 2048" "blk_ok p b"
  shows "write_tfs_block p b buf = (Inr (), put_blks p b buf)"
  unfolding write_tfs_block_def
  by (rule write_tfs_blocks_eq [OF assms(1,2), of _ 1])
    (use assms(3,4) block_le only_itself [of b] in auto)

lemma blk_put_blk:
  assumes "part_wf p" "length buf = 2048" "blk_ok p b" "blk_ok p c"
  shows "blk (put_blks p b buf) c = (if c = b then buf else blk p c)"
proof -
  have eq: "unat b \<le> unat c \<and> unat c < unat b + 1 \<longleftrightarrow> c = b" using only_itself [of b c] by auto
  have "blk_ok p d" if "unat b \<le> unat d" "unat d < unat b + 1" for d using only_itself [OF that] assms(3) by simp
  from blk_put_blks [OF assms(1) _ _ block_le [of b] assms(4) this, of buf] assms(2) show ?thesis unfolding eq by simp
qed

lemma part_wf_put_blk: "part_wf p \<Longrightarrow> length buf = 2048 \<Longrightarrow> part_wf (put_blks p b buf)"
  by (rule part_wf_put_blks [where m = 1]) simp_all

section \<open>Properties\<close>



end
