(* ===== verification/Tfs_Super.thy ===== *)
theory Tfs_Super
  imports Block_Dev
begin

text \<open>
  The superblock of TwilightFS (\<^verbatim>\<open>twilight_fs/superblock.rs\<close>): its layout on disk, the geometry that
  formatting chooses, and the place of an inode in the inode table (\<^verbatim>\<open>twilight_fs/mod.rs\<close>).
  The sector count is a 32-bit number, so the 64-bit arithmetic of the geometry cannot overflow and
  is done on natural numbers; the conversions to 32 bits are written out.
\<close>

section \<open>Model\<close>

record superblock =
  ninodes :: u32
  pad1 :: u16
  imap_blocks :: u32
  zmap_blocks :: u32
  first_data_zone :: u32
  log_zone_size :: u16
  pad2 :: u16
  max_size :: u32
  zones :: u32
  magic :: u32
  pad3 :: u16
  block_size :: u16
  subversion :: u8

text \<open>\<^verbatim>\<open>u32::from_le_bytes(*b"TFS0")\<close> and the size of the packed inode.\<close>

definition MAGIC :: u32 where "MAGIC = le_word [0x54, 0x46, 0x53, 0x30]"
definition INODE_SIZE :: nat where "INODE_SIZE = 204"

subsection \<open>Layout\<close>

definition superblock_bytes :: "superblock \<Rightarrow> u8 list" where
  "superblock_bytes sb =
    le_bytes 4 (ninodes sb) @ le_bytes 2 (pad1 sb) @ le_bytes 4 (imap_blocks sb) @ le_bytes 4 (zmap_blocks sb) @
    le_bytes 4 (first_data_zone sb) @ le_bytes 2 (log_zone_size sb) @ le_bytes 2 (pad2 sb) @ le_bytes 4 (max_size sb) @
    le_bytes 4 (zones sb) @ le_bytes 4 (magic sb) @ le_bytes 2 (pad3 sb) @ le_bytes 2 (block_size sb) @
    le_bytes 1 (subversion sb)"

definition superblock_of_bytes :: "u8 list \<Rightarrow> superblock" where
  "superblock_of_bytes bs =
    \<lparr>ninodes = le_word (take 4 bs), pad1 = le_word (take 2 (drop 4 bs)), imap_blocks = le_word (take 4 (drop 6 bs)),
     zmap_blocks = le_word (take 4 (drop 10 bs)), first_data_zone = le_word (take 4 (drop 14 bs)),
     log_zone_size = le_word (take 2 (drop 18 bs)), pad2 = le_word (take 2 (drop 20 bs)),
     max_size = le_word (take 4 (drop 22 bs)), zones = le_word (take 4 (drop 26 bs)),
     magic = le_word (take 4 (drop 30 bs)), pad3 = le_word (take 2 (drop 34 bs)),
     block_size = le_word (take 2 (drop 36 bs)), subversion = le_word (take 1 (drop 38 bs))\<rparr>"

definition is_valid :: "superblock \<Rightarrow> bool" where
  "is_valid sb \<longleftrightarrow> magic sb = MAGIC \<and> subversion sb = 0"

definition read_superblock :: "partition_dev \<Rightarrow> string + superblock" where
  "read_superblock p =
    (case read_tfs_block p 0 of
       Inl _ \<Rightarrow> Inl ''Failed to read TwilightFS superblock''
     | Inr buf \<Rightarrow>
         let sb = superblock_of_bytes buf in
         if \<not> is_valid sb then Inl ''Invalid TwiligtFS magic'' else Inr sb)"

subsection \<open>Geometry\<close>

definition div_ceil :: "nat \<Rightarrow> nat \<Rightarrow> nat" where
  "div_ceil u d = (u + d - 1) div d"

text \<open>The rounds that settle the zone bitmap against the first data zone.\<close>

fun zmap_rounds :: "nat \<Rightarrow> nat \<Rightarrow> nat \<Rightarrow> nat \<Rightarrow> nat \<Rightarrow> nat \<times> nat" where
  "zmap_rounds 0 fixed tot zmap first = (zmap, first)"
| "zmap_rounds (Suc n) fixed tot zmap first =
    (let new_first = div_ceil (fixed + zmap) 1;
         new_zmap = div_ceil (tot - new_first) (2048 * 8) in
     if new_first = first \<and> new_zmap = zmap then (zmap, first)
     else zmap_rounds n fixed tot new_zmap new_first)"

definition geometry :: "nat \<Rightarrow> u32 \<Rightarrow> superblock" where
  "geometry dev_sector_size partition_sector_count =
    (let dev_sectors = unat partition_sector_count;
         total_zones = dev_sectors div (FS_BLOCK_SIZE div dev_sector_size) div 1;
         n = max (dev_sectors * dev_sector_size div (16 * 1024)) 1;
         imap = div_ceil n (FS_BLOCK_SIZE * 8);
         inode_blocks = div_ceil (n * INODE_SIZE) FS_BLOCK_SIZE;
         (zmap, first) = zmap_rounds 4 (1 + imap + inode_blocks) total_zones 0 0 in
     \<lparr>ninodes = of_nat n, pad1 = 0, imap_blocks = of_nat imap, zmap_blocks = of_nat zmap,
      first_data_zone = of_nat first, log_zone_size = 0, pad2 = 0, max_size = 0x7FFFFFFF,
      zones = of_nat total_zones, magic = MAGIC, pad3 = 0, block_size = of_nat FS_BLOCK_SIZE, subversion = 0\<rparr>)"

definition superblock_write :: "partition_dev \<Rightarrow> u32 \<Rightarrow> (string + superblock) \<times> partition_dev" where
  "superblock_write p partition_sector_count =
    (let sb = geometry (pd_block_size p) partition_sector_count;
         buffer = superblock_bytes sb @ replicate (FS_BLOCK_SIZE - length (superblock_bytes sb)) 0 in
     case write_tfs_block p 0 buffer of
       (Inl _, p') \<Rightarrow> (Inl ''ERROR: write failed while writing superblock'', p')
     | (Inr _, p') \<Rightarrow> (Inr sb, p'))"

subsection \<open>The inode table\<close>

definition inode_block :: "superblock \<Rightarrow> u32 \<Rightarrow> u32" where
  "inode_block sb n =
    imap_blocks sb + zmap_blocks sb + 1 + of_nat (unat (n - 1) div (unat (block_size sb) div INODE_SIZE))"

definition inode_offset :: "superblock \<Rightarrow> u32 \<Rightarrow> nat" where
  "inode_offset sb n = unat (n - 1) mod (unat (block_size sb) div INODE_SIZE) * INODE_SIZE"

section \<open>Layout round trip\<close>

lemma length_superblock_bytes [simp]: "length (superblock_bytes sb) = 39"
  by (simp add: superblock_bytes_def)

lemma le_word_exact [simp]:
  "le_word (le_bytes 4 (w :: u32)) = w" "le_word (le_bytes 2 (v :: u16)) = v" "le_word (le_bytes 1 (b :: u8)) = b"
  "le_word (le_bytes 8 (x :: u64)) = x"
  by (rule le_word_le_bytes_full, simp)+

lemma superblock_of_superblock_bytes: "superblock_of_bytes (superblock_bytes sb @ rest) = sb"
  by (simp add: superblock_of_bytes_def superblock_bytes_def)

section \<open>The chosen geometry\<close>

lemma div_ceil_one [simp]: "div_ceil u 1 = u" "div_ceil u (Suc 0) = u"
  by (simp_all add: div_ceil_def)

lemma div_ceil_mono: "a \<le> b \<Longrightarrow> div_ceil a d \<le> div_ceil b d"
  by (simp add: div_ceil_def div_le_mono)

lemma le_div_ceil:
  assumes "d \<noteq> 0"
  shows "u \<le> d * div_ceil u d"
proof -
  have "d * ((u + d - 1) div d) + (u + d - 1) mod d = u + d - 1" by (rule mult_div_mod_eq)
  moreover have "(u + d - 1) mod d < d" using assms by simp
  ultimately show ?thesis using assms unfolding div_ceil_def by linarith
qed

text \<open>The rounds without the early exit, which only skips rounds that change nothing.\<close>

definition round :: "nat \<Rightarrow> nat \<Rightarrow> nat \<Rightarrow> nat" where
  "round fixed tot zmap = div_ceil (tot - (fixed + zmap)) 16384"

lemma round_antimono: "z \<le> z' \<Longrightarrow> round f t z' \<le> round f t z"
  unfolding round_def by (intro div_ceil_mono) simp

lemma zmap_rounds_eq:
  "zmap_rounds (Suc n) f t z first =
    (let z' = round f t z in if f + z = first \<and> z' = z then (z, first) else zmap_rounds n f t z' (f + z))"
  by (simp add: round_def Let_def)

lemma four_Suc: "(4 :: nat) = Suc (Suc (Suc (Suc 0)))"
  by simp

text \<open>Whatever the rounds end with, the regions fit and the bitmap covers the data zones.\<close>

lemma zmap_rounds_fit:
  assumes "zmap_rounds 4 f t 0 0 = (z, first)"
  shows "f + z \<le> first" "t - first \<le> 16384 * z" "first \<le> f + (t + 16383) div 16384" "z \<le> (t + 16383) div 16384"
proof -
  define z1 z2 z3 z4 where "z1 = round f t 0" and "z2 = round f t z1" and "z3 = round f t z2" and "z4 = round f t z3"
  note zs = z1_def [symmetric] z2_def [symmetric] z3_def [symmetric] z4_def [symmetric]
  have mono: "z2 \<le> z1" "z2 \<le> z3" "z4 \<le> z3" "z3 \<le> z1"
    by (auto simp: z1_def z2_def z3_def z4_def intro!: round_antimono)
  have r: "zmap_rounds 4 f t 0 0 =
      (if f = 0 \<and> z1 = 0 then (0, 0) else if z1 = 0 \<and> z2 = z1 then (z1, f) else if z2 = z1 \<and> z3 = z2 then (z2, f + z1)
       else if z3 = z2 \<and> z4 = z3 then (z3, f + z2) else (z4, f + z3))"
    unfolding four_Suc zmap_rounds_eq Let_def zs zmap_rounds.simps(1) add_0_right by simp
  have "\<exists>y. first = f + y \<and> z = round f t y \<and> z \<le> y \<and> y \<le> z1 \<and> z \<le> z1"
  proof -
    consider "first = f" "z = z1" "z1 = 0" | "first = f + z1" "z = z2" "z2 = z1" | "first = f + z2" "z = z3" "z3 = z2"
      | "first = f + z3" "z = z4"
      using assms unfolding r by (metis prod.inject add_0)
    then show ?thesis
    proof cases
      case 1
      then show ?thesis using z1_def by (intro exI [of _ 0]) simp
    next
      case 2
      then show ?thesis using z2_def by (intro exI [of _ z1]) simp
    next
      case 3
      then show ?thesis using z3_def mono by (intro exI [of _ z2]) simp
    next
      case 4
      then show ?thesis using z4_def mono by (intro exI [of _ z3]) simp
    qed
  qed
  then obtain y where y: "first = f + y" "z = round f t y" "z \<le> y" "y \<le> z1" "z \<le> z1" by blast
  have "z1 \<le> (t + 16383) div 16384" unfolding z1_def round_def div_ceil_def by (intro div_le_mono) simp
  with y show "f + z \<le> first" "first \<le> f + (t + 16383) div 16384" "z \<le> (t + 16383) div 16384" by simp_all
  show "t - first \<le> 16384 * z" unfolding y(1,2) round_def by (rule le_div_ceil) simp
qed

text \<open>The numbers of a superblock chosen for a disk of 512-byte sectors.\<close>

lemma geometry_unat:
  fixes c :: u32
  defines "n \<equiv> max (unat c * 512 div 16384) 1"
  obtains z first where "zmap_rounds 4 (1 + div_ceil n 16384 + div_ceil (n * 204) 2048) (unat c div 4) 0 0 = (z, first)"
    "unat (ninodes (geometry 512 c)) = n" "unat (imap_blocks (geometry 512 c)) = div_ceil n 16384"
    "unat (zmap_blocks (geometry 512 c)) = z" "unat (first_data_zone (geometry 512 c)) = first"
    "unat (zones (geometry 512 c)) = unat c div 4"
proof -
  define t where "t = unat c div 4"
  obtain z first where zf: "zmap_rounds 4 (1 + div_ceil n 16384 + div_ceil (n * 204) 2048) t 0 0 = (z, first)"
    by fastforce
  have c: "unat c < 2 ^ 32" by (rule unat_u32_less)
  have n: "n \<le> 134217728" using c unfolding n_def by simp
  have t: "t < 1073741824" using c unfolding t_def by simp
  have "div_ceil n 16384 \<le> 16384" "div_ceil (n * 204) 2048 \<le> 16777216" using n by (simp_all add: div_ceil_def)
  moreover have "(t + 16383) div 16384 \<le> 131072" using t by simp
  ultimately have "div_ceil n 16384 < 4294967296" "z < 4294967296" "first < 4294967296" "n < 4294967296" "t < 4294967296"
    using zmap_rounds_fit(3,4) [OF zf] n t by - linarith+
  moreover have "geometry 512 c =
      \<lparr>ninodes = of_nat n, pad1 = 0, imap_blocks = of_nat (div_ceil n 16384), zmap_blocks = of_nat z,
       first_data_zone = of_nat first, log_zone_size = 0, pad2 = 0, max_size = 0x7FFFFFFF,
       zones = of_nat t, magic = MAGIC, pad3 = 0, block_size = 2048, subversion = 0\<rparr>"
  proof -
    have sizes: "FS_BLOCK_SIZE * 8 = 16384" "FS_BLOCK_SIZE div 512 = 4" "16 * 1024 = (16384 :: nat)"
      by (simp_all add: FS_BLOCK_SIZE_def)
    show ?thesis
      unfolding geometry_def Let_def sizes div_by_1 n_def [symmetric] t_def [symmetric]
      unfolding FS_BLOCK_SIZE_def INODE_SIZE_def zf by simp
  qed
  ultimately show ?thesis using zf by (intro that [of z first]) (simp_all add: unat_of_nat_u32 t_def)
qed

section \<open>Properties\<close>



end
