(* ===== verification/Tfs_Alloc.thy ===== *)
theory Tfs_Alloc
  imports Tfs_Super
begin

text \<open>
  The allocation bitmaps of TwilightFS (\<^verbatim>\<open>twilight_fs/mod.rs\<close>): zones are handed out one at a time or in
  batches and given back, inodes likewise.  Every call reads the bitmap blocks from the disk and writes
  the changed one back.  Against the set of free zones the operations are the evident ones.
\<close>

section \<open>Model\<close>

datatype tfs_error =
  TfsInvalidPath | TfsFileNotFound | TfsFileAlreadyExists | TfsFileNameTooLong | NoSpaceLeft | IoError | TfsInvalidInode | InvalidZone

definition bits_per_block :: "superblock \<Rightarrow> nat" where
  "bits_per_block sb = unat (block_size sb) * 8"

definition max_data_zones :: "superblock \<Rightarrow> u32" where
  "max_data_zones sb = (if first_data_zone sb \<le> zones sb then zones sb - first_data_zone sb else 0)"

text \<open>The first clear bit of a byte, and of a bitmap block.\<close>

fun clear_bit :: "u8 \<Rightarrow> nat \<Rightarrow> nat \<Rightarrow> nat option" where
  "clear_bit x b 0 = None"
| "clear_bit x b (Suc n) = (if x AND push_bit b 1 = 0 then Some b else clear_bit x (b + 1) n)"

fun first_clear :: "u8 list \<Rightarrow> nat \<Rightarrow> (nat \<times> nat) option" where
  "first_clear [] i = None"
| "first_clear (x # xs) i =
    (if x \<noteq> 0xFF then
       (case clear_bit x 0 8 of None \<Rightarrow> first_clear xs (i + 1) | Some b \<Rightarrow> Some (i, b))
     else first_clear xs (i + 1))"

fun allocate_zone_loop :: "superblock \<Rightarrow> partition_dev \<Rightarrow> u32 \<Rightarrow> nat \<Rightarrow> (tfs_error + u32) \<times> partition_dev" where
  "allocate_zone_loop sb p i 0 = (Inl NoSpaceLeft, p)"
| "allocate_zone_loop sb p i (Suc n) =
    (case read_tfs_block p (imap_blocks sb + 1 + i) of
       Inl _ \<Rightarrow> (Inl IoError, p)
     | Inr buf \<Rightarrow>
         (case first_clear buf 0 of
            None \<Rightarrow> allocate_zone_loop sb p (i + 1) n
          | Some (byte_idx, b) \<Rightarrow>
              let zone = i * of_nat (bits_per_block sb) + of_nat (byte_idx * 8 + b) in
              if zone \<ge> max_data_zones sb then (Inl NoSpaceLeft, p)
              else case write_tfs_block p (imap_blocks sb + 1 + i) (buf[byte_idx := buf ! byte_idx OR push_bit b 1]) of
                  (Inl _, p') \<Rightarrow> (Inl IoError, p')
                | (Inr _, p') \<Rightarrow> (Inr (zone + first_data_zone sb), p')))"

definition allocate_zone :: "superblock \<Rightarrow> partition_dev \<Rightarrow> (tfs_error + u32) \<times> partition_dev" where
  "allocate_zone sb p = allocate_zone_loop sb p 0 (unat (zmap_blocks sb))"

text \<open>The loops of \<^verbatim>\<open>allocate_zones\<close> over the bits of a byte and the bytes of a block.\<close>

fun grab_bits :: "nat \<Rightarrow> u32 \<Rightarrow> u32 \<Rightarrow> u32 \<Rightarrow> nat \<Rightarrow> nat \<Rightarrow> u8 \<Rightarrow> u32 list \<Rightarrow> u8 \<times> u32 list" where
  "grab_bits cnt fdz mx base b 0 x zs = (x, zs)"
| "grab_bits cnt fdz mx base b (Suc n) x zs =
    (if length zs = cnt then (x, zs)
     else if x AND push_bit b 1 = 0 then
       (if base + of_nat b \<ge> mx then (x, zs)
        else grab_bits cnt fdz mx base (b + 1) n (x OR push_bit b 1) (zs @ [base + of_nat b + fdz]))
     else grab_bits cnt fdz mx base (b + 1) n x zs)"

fun grab_bytes :: "nat \<Rightarrow> u32 \<Rightarrow> u32 \<Rightarrow> u32 \<Rightarrow> u8 list \<Rightarrow> u32 list \<Rightarrow> u8 list \<times> u32 list" where
  "grab_bytes cnt fdz mx base [] zs = ([], zs)"
| "grab_bytes cnt fdz mx base (x # xs) zs =
    (if length zs = cnt then (x # xs, zs)
     else
       let (x', zs') = (if x \<noteq> 0xFF then grab_bits cnt fdz mx base 0 8 x zs else (x, zs));
           (xs', zs'') = grab_bytes cnt fdz mx (base + 8) xs zs' in
       (x' # xs', zs''))"

fun allocate_zones_loop ::
  "superblock \<Rightarrow> nat \<Rightarrow> partition_dev \<Rightarrow> u32 \<Rightarrow> nat \<Rightarrow> u32 list \<Rightarrow> (tfs_error + u32 list) \<times> partition_dev" where
  "allocate_zones_loop sb cnt p i 0 zs = (Inr zs, p)"
| "allocate_zones_loop sb cnt p i (Suc n) zs =
    (if length zs = cnt then (Inr zs, p)
     else case read_tfs_block p (imap_blocks sb + 1 + i) of
         Inl _ \<Rightarrow> (Inl IoError, p)
       | Inr buf \<Rightarrow>
           let (buf', zs') =
             grab_bytes cnt (first_data_zone sb) (max_data_zones sb) (i * of_nat (bits_per_block sb)) buf zs in
           if length zs' \<noteq> length zs then
             (case write_tfs_block p (imap_blocks sb + 1 + i) buf' of
                (Inl _, p') \<Rightarrow> (Inl IoError, p')
              | (Inr _, p') \<Rightarrow> allocate_zones_loop sb cnt p' (i + 1) n zs')
           else allocate_zones_loop sb cnt p (i + 1) n zs')"

text \<open>A block size of zero panics in the division, one above the buffer in the indexing.\<close>

definition dealloc_zone :: "superblock \<Rightarrow> partition_dev \<Rightarrow> u32 \<Rightarrow> ((tfs_error + unit) \<times> partition_dev) rs" where
  "dealloc_zone sb p zone =
    (if zone < first_data_zone sb then Some (Inl InvalidZone, p)
     else if bits_per_block sb = 0 then None
     else
       let relative_zone = unat (zone - first_data_zone sb);
           block_index = relative_zone div bits_per_block sb;
           bit_index = relative_zone mod bits_per_block sb;
           byte_index = bit_index div 8;
           b = bit_index mod 8 in
       if block_index \<ge> unat (zmap_blocks sb) then Some (Inl InvalidZone, p)
       else
         let zmap_block = 1 + imap_blocks sb + of_nat block_index in
         case read_tfs_block p zmap_block of
           Inl _ \<Rightarrow> Some (Inl IoError, p)
         | Inr buf \<Rightarrow> do {
             x \<leftarrow> idx buf byte_index;
             case write_tfs_block p zmap_block (buf[byte_index := x AND NOT (push_bit b 1)]) of
               (Inl _, p') \<Rightarrow> Some (Inl IoError, p')
             | (Inr _, p') \<Rightarrow> Some (Inr (), p')
           })"

fun dealloc_all :: "superblock \<Rightarrow> partition_dev \<Rightarrow> u32 list \<Rightarrow> partition_dev rs" where
  "dealloc_all sb p [] = Some p"
| "dealloc_all sb p (z # zs) = do { (_, p') \<leftarrow> dealloc_zone sb p z; dealloc_all sb p' zs }"

definition allocate_zones :: "superblock \<Rightarrow> nat \<Rightarrow> partition_dev \<Rightarrow> ((tfs_error + u32 list) \<times> partition_dev) rs" where
  "allocate_zones sb cnt p =
    (case allocate_zones_loop sb cnt p 0 (unat (zmap_blocks sb)) [] of
       (Inl e, p') \<Rightarrow> Some (Inl e, p')
     | (Inr zs, p') \<Rightarrow>
         if length zs < cnt then do { p'' \<leftarrow> dealloc_all sb p' zs; Some (Inl NoSpaceLeft, p'') }
         else Some (Inr zs, p'))"

subsection \<open>Inodes\<close>

text \<open>A clear bit at or past the number of inodes ends the byte, and the scan goes on with the next one.\<close>

fun inode_bit :: "nat \<Rightarrow> nat \<Rightarrow> u8 \<Rightarrow> nat \<Rightarrow> nat \<Rightarrow> nat option" where
  "inode_bit tot base x b 0 = None"
| "inode_bit tot base x b (Suc n) =
    (if x AND push_bit b 1 = 0 then (if base + b \<ge> tot then None else Some b)
     else inode_bit tot base x (b + 1) n)"

fun inode_scan :: "nat \<Rightarrow> nat \<Rightarrow> u8 list \<Rightarrow> nat \<Rightarrow> (nat \<times> nat) option" where
  "inode_scan tot base [] i = None"
| "inode_scan tot base (x # xs) i =
    (case (if x \<noteq> 0xFF then inode_bit tot (base + i * 8) x 0 8 else None) of
       Some b \<Rightarrow> Some (i, b)
     | None \<Rightarrow> inode_scan tot base xs (i + 1))"

fun allocate_inode_loop :: "superblock \<Rightarrow> partition_dev \<Rightarrow> u32 \<Rightarrow> nat \<Rightarrow> ((tfs_error + u32) \<times> partition_dev) rs" where
  "allocate_inode_loop sb p block_idx 0 = Some (Inl NoSpaceLeft, p)"
| "allocate_inode_loop sb p block_idx (Suc n) =
    (case read_tfs_block p (1 + block_idx) of
       Inl _ \<Rightarrow> Some (Inl IoError, p)
     | Inr buf \<Rightarrow>
         let base = unat block_idx * bits_per_block sb in
         (case inode_scan (unat (ninodes sb)) base (take (unat (block_size sb)) buf) 0 of
            Some (byte_idx, b) \<Rightarrow>
              (case write_tfs_block p (1 + block_idx) (buf[byte_idx := buf ! byte_idx OR push_bit b 1]) of
                 (Inl _, p') \<Rightarrow> Some (Inl IoError, p')
               | (Inr _, p') \<Rightarrow> Some (Inr (of_nat (base + byte_idx * 8 + b)), p'))
          | None \<Rightarrow>
              if unat (block_size sb) > length buf then None
              else allocate_inode_loop sb p (block_idx + 1) n))"

definition allocate_inode :: "superblock \<Rightarrow> partition_dev \<Rightarrow> ((tfs_error + u32) \<times> partition_dev) rs" where
  "allocate_inode sb p = allocate_inode_loop sb p 0 (unat (imap_blocks sb))"

definition dealloc_inode :: "superblock \<Rightarrow> partition_dev \<Rightarrow> u32 \<Rightarrow> ((tfs_error + unit) \<times> partition_dev) rs" where
  "dealloc_inode sb p ino =
    (if ino = 0 \<or> unat ino > unat (ninodes sb) then Some (Inl TfsInvalidInode, p)
     else if bits_per_block sb = 0 then None
     else
       let inode_index = unat ino - 1;
           block_index = inode_index div bits_per_block sb;
           bit_index = inode_index mod bits_per_block sb;
           byte_index = bit_index div 8;
           bit_in_byte = bit_index mod 8;
           imap_block_lba = 1 + of_nat block_index in
       case read_tfs_block p imap_block_lba of
         Inl _ \<Rightarrow> Some (Inl IoError, p)
       | Inr buf \<Rightarrow> do {
           x \<leftarrow> idx buf byte_index;
           case write_tfs_block p imap_block_lba (buf[byte_index := x AND NOT (push_bit bit_in_byte 1)]) of
             (Inl _, p') \<Rightarrow> Some (Inl IoError, p')
           | (Inr _, p') \<Rightarrow> Some (Inr (), p')
         })"

section \<open>Bits of a block\<close>

definition bm :: "u8 list \<Rightarrow> nat \<Rightarrow> bool" where
  "bm xs i \<longleftrightarrow> bit (xs ! (i div 8)) (i mod 8)"

lemma add8: "(j + 8) div 8 = Suc (j div 8)" "(j + 8) mod 8 = (j mod 8 :: nat)"
  by simp_all

lemma bm_Cons: "j < 8 \<Longrightarrow> bm (x # xs) j = bit x j" "bm (x # xs) (j + 8) = bm xs j"
  by (simp add: bm_def) (simp only: bm_def add8 nth_Cons_Suc)

lemma and_bit_zero: "x AND push_bit b 1 = 0 \<longleftrightarrow> \<not> bit x b" if "b < 8" for x :: u8
proof -
  have "bit (x AND push_bit b 1) b = bit x b" using that by (simp add: bit_simps)
  moreover have "x AND push_bit b 1 = 0" if "\<not> bit x b"
    using that by (intro bit_word_eqI) (auto simp: bit_simps)
  ultimately show ?thesis by (metis bit_0_eq bot_apply bot_bool_def)
qed

lemma bit_or_push: "b < 8 \<Longrightarrow> bit (x OR push_bit b 1) j \<longleftrightarrow> bit x j \<or> j = b" for x :: u8
  by (auto simp: bit_simps)

lemma bit_ff: "j < 8 \<Longrightarrow> bit (0xFF :: u8) j"
proof -
  have "(0xFF :: u8) = -1" by simp
  then show "j < 8 \<Longrightarrow> bit (0xFF :: u8) j" by (simp only:) (simp add: bit_simps)
qed

lemma bits_Cons: "[0..<8 * length (x # xs)] = [0..<8] @ map (\<lambda>j. j + 8) [0..<8 * length xs]"
proof -
  have "[0..<8 + 8 * length xs] = [0..<8] @ [8..<8 + 8 * length xs]"
    by (rule upt_add_eq_append) simp
  also have "[8..<8 + 8 * length xs] = map (\<lambda>j. j + 8) [0..<8 * length xs]"
    by (simp add: map_add_upt add.commute)
  finally show ?thesis by simp
qed

lemma bm_set:
  assumes "i < 8 * length xs"
  shows "bm (xs[i div 8 := xs ! (i div 8) OR push_bit (i mod 8) 1]) j \<longleftrightarrow> bm xs j \<or> j = i"
proof -
  have "j = i \<longleftrightarrow> j div 8 = i div 8 \<and> j mod 8 = i mod 8" by (metis div_mult_mod_eq)
  moreover have "bit (x OR push_bit (i mod 8) 1) k \<longleftrightarrow> bit x k \<or> k = i mod 8" for x :: u8 and k
    by (rule bit_or_push) simp
  ultimately show ?thesis using assms by (auto simp: bm_def nth_list_update)
qed

lemma bm_clear:
  assumes "i < 8 * length xs"
  shows "bm (xs[i div 8 := xs ! (i div 8) AND NOT (push_bit (i mod 8) 1)]) j \<longleftrightarrow> bm xs j \<and> j \<noteq> i"
proof -
  have "j = i \<longleftrightarrow> j div 8 = i div 8 \<and> j mod 8 = i mod 8" by (metis div_mult_mod_eq)
  moreover have "bit (x AND NOT (push_bit b 1)) k \<longleftrightarrow> bit x k \<and> k \<noteq> b" for x :: u8 and b k
    by (auto simp: bit_simps dest: bit_imp_le_length)
  ultimately show ?thesis using assms by (auto simp: bm_def nth_list_update)
qed

section \<open>The scans\<close>

lemma clear_bit_eq:
  "b + n \<le> 8 \<Longrightarrow> clear_bit x b n = (case filter (\<lambda>j. \<not> bit x j) [b..<b + n] of [] \<Rightarrow> None | j # js \<Rightarrow> Some j)"
proof (induction n arbitrary: b)
  case (Suc n)
  then have "[b..<b + Suc n] = b # [b + 1..<b + 1 + n]" by (simp add: upt_conv_Cons del: upt_Suc)
  with Suc show ?case by (simp add: and_bit_zero del: push_bit_of_1)
qed simp

lemma first_clear_eq:
  "first_clear xs i =
    (case filter (\<lambda>j. \<not> bm xs j) [0..<8 * length xs] of [] \<Rightarrow> None | j # js \<Rightarrow> Some (i + j div 8, j mod 8))"
proof (induction xs arbitrary: i)
  case (Cons x xs)
  have low: "filter (\<lambda>j. \<not> bm (x # xs) j) [0..<8] = filter (\<lambda>j. \<not> bit x j) [0..<8]"
    by (rule filter_cong) (simp_all add: bm_Cons)
  have high: "filter (\<lambda>j. \<not> bm (x # xs) j) (map (\<lambda>j. j + 8) js) = map (\<lambda>j. j + 8) (filter (\<lambda>j. \<not> bm xs j) js)" for js
    by (simp add: filter_map comp_def bm_Cons)
  have full: "filter (\<lambda>j. \<not> bit x j) [0..<8] = []" if "x = 0xFF"
    using that bit_ff by (simp add: filter_empty_conv)
  have scan: "(if x \<noteq> 0xFF then clear_bit x 0 8 else None) =
      (case filter (\<lambda>j. \<not> bit x j) [0..<8] of [] \<Rightarrow> None | j # js \<Rightarrow> Some j)"
    using full clear_bit_eq [of 0 8 x] by simp
  show ?case
  proof (cases "filter (\<lambda>j. \<not> bit x j) [0..<8]")
    case Nil
    then have "first_clear (x # xs) i = first_clear xs (i + 1)" using scan by (auto split: if_splits)
    then show ?thesis unfolding Cons.IH bits_Cons filter_append low high Nil by (simp add: add8 split: list.split)
  next
    case (Cons j js)
    then have "j \<in> set (filter (\<lambda>j. \<not> bit x j) [0..<8])" by simp
    then have "j < 8" by simp
    moreover have "first_clear (x # xs) i = Some (i, j)" using scan Cons by (auto split: if_splits)
    ultimately show ?thesis unfolding bits_Cons filter_append low Cons by simp
  qed
qed simp

text \<open>The free bits of a block below the limit, and the block with some of them set.\<close>

definition free_bits :: "nat \<Rightarrow> nat \<Rightarrow> u8 \<Rightarrow> nat list \<Rightarrow> nat list" where
  "free_bits base mx x js = filter (\<lambda>j. \<not> bit x j \<and> base + j < mx) js"

definition frees :: "nat \<Rightarrow> nat \<Rightarrow> u8 list \<Rightarrow> nat list" where
  "frees base mx xs = filter (\<lambda>j. \<not> bm xs j \<and> base + j < mx) [0..<8 * length xs]"

lemma grab_bits_eq:
  assumes "b + n \<le> 8" "unat base + 8 \<le> 2 ^ 32" "length zs \<le> cnt"
  shows "\<exists>x'. grab_bits cnt fdz mx base b n x zs =
      (x', zs @ map (\<lambda>j. base + of_nat j + fdz) (take (cnt - length zs) (free_bits (unat base) (unat mx) x [b..<b + n]))) \<and>
    (\<forall>j < 8. bit x' j \<longleftrightarrow> bit x j \<or> j \<in> set (take (cnt - length zs) (free_bits (unat base) (unat mx) x [b..<b + n])))"
  using assms(1,3) unfolding free_bits_def
proof (induction n arbitrary: b x zs)
  case (Suc n)
  then have upt: "[b..<Suc (b + n)] = b # [Suc b..<Suc (b + n)]" by (simp add: upt_conv_Cons del: upt_Suc)
  have "unat (of_nat b :: u32) = b" using Suc.prems by (intro unat_of_nat_u32) simp
  then have ub: "unat (base + of_nat b) = unat base + b" using assms(2) Suc.prems by (simp add: unat_word_ariths)
  consider "length zs = cnt" | "length zs < cnt" "bit x b" | "length zs < cnt" "\<not> bit x b" "unat mx \<le> unat base + b"
    | "length zs < cnt" "\<not> bit x b" "unat base + b < unat mx" using Suc.prems(2) by linarith
  then show ?case
  proof cases
    case 1
    then show ?thesis by simp
  next
    case 2
    with Suc.prems Suc.IH [of "b + 1" zs x] show ?thesis by (simp add: upt and_bit_zero del: push_bit_of_1 upt_Suc)
  next
    case 3
    then have "filter (\<lambda>j. \<not> bit x j \<and> unat base + j < unat mx) [b..<Suc (b + n)] = []"
      by (auto simp: filter_empty_conv)
    with 3 Suc.prems show ?thesis by (simp add: and_bit_zero word_le_nat_alt ub del: push_bit_of_1)
  next
    case 4
    let ?x = "x OR push_bit b 1"
    have same: "filter (\<lambda>j. \<not> bit x j \<and> j \<noteq> b \<and> unat base + j < unat mx) [Suc b..<Suc (b + n)] =
        filter (\<lambda>j. \<not> bit x j \<and> unat base + j < unat mx) [Suc b..<Suc (b + n)]"
      by (intro filter_cong) auto
    have "take (cnt - length zs) (b # ys) = b # take (cnt - length (zs @ [z])) ys" for ys and z :: u32
      using 4(1) by (simp add: take_Cons' Suc_diff_Suc)
    with 4 Suc.prems Suc.IH [of "b + 1" "zs @ [base + of_nat b + fdz]" ?x] show ?thesis
      by (auto simp: upt same and_bit_zero bit_or_push word_le_nat_alt ub simp del: push_bit_of_1 upt_Suc)
  qed
qed auto

lemma frees_Cons:
  "frees base mx (x # xs) = free_bits base mx x [0..<8] @ map (\<lambda>j. j + 8) (frees (base + 8) mx xs)"
proof -
  have "filter (\<lambda>j. \<not> bm (x # xs) j \<and> base + j < mx) [0..<8] = free_bits base mx x [0..<8]"
    unfolding free_bits_def by (rule filter_cong) (simp_all add: bm_Cons)
  moreover have "filter (\<lambda>j. \<not> bm (x # xs) j \<and> base + j < mx) (map (\<lambda>j. j + 8) js) =
      map (\<lambda>j. j + 8) (filter (\<lambda>j. \<not> bm xs j \<and> base + 8 + j < mx) js)" for js
    by (simp add: filter_map comp_def bm_Cons add.assoc add.commute [of 8])
  ultimately show ?thesis unfolding frees_def bits_Cons filter_append by simp
qed

lemma grab_byte_eq:
  assumes "unat base + 8 \<le> 2 ^ 32" "length zs \<le> cnt"
  shows "\<exists>x'. (if x \<noteq> 0xFF then grab_bits cnt fdz mx base 0 8 x zs else (x, zs)) =
      (x', zs @ map (\<lambda>j. base + of_nat j + fdz) (take (cnt - length zs) (free_bits (unat base) (unat mx) x [0..<8]))) \<and>
    (\<forall>j < 8. bit x' j \<longleftrightarrow> bit x j \<or> j \<in> set (take (cnt - length zs) (free_bits (unat base) (unat mx) x [0..<8])))"
proof (cases "x = 0xFF")
  case True
  then have "free_bits (unat base) (unat mx) x [0..<8] = []" using bit_ff by (simp add: free_bits_def filter_empty_conv)
  with True show ?thesis by simp
next
  case False
  with grab_bits_eq [of 0 8 base zs cnt fdz mx x] assms show ?thesis by simp
qed

lemma grab_bytes_eq:
  assumes "unat base + 8 * length xs < 2 ^ 32" "length zs \<le> cnt"
  shows "\<exists>xs'. grab_bytes cnt fdz mx base xs zs =
      (xs', zs @ map (\<lambda>j. base + of_nat j + fdz) (take (cnt - length zs) (frees (unat base) (unat mx) xs))) \<and>
    length xs' = length xs \<and>
    (\<forall>j < 8 * length xs. bm xs' j \<longleftrightarrow> bm xs j \<or> j \<in> set (take (cnt - length zs) (frees (unat base) (unat mx) xs)))"
  using assms
proof (induction xs arbitrary: base zs)
  case Nil
  then show ?case by (simp add: frees_def)
next
  case (Cons x xs)
  show ?case
  proof (cases "length zs = cnt")
    case False
    let ?k = "cnt - length zs" and ?A = "free_bits (unat base) (unat mx) x [0..<8]"
    let ?B = "frees (unat base + 8) (unat mx) xs" and ?g = "\<lambda>j. base + of_nat j + fdz"
    let ?zs = "zs @ map ?g (take ?k ?A)"
    obtain x' where x': "(if x \<noteq> 0xFF then grab_bits cnt fdz mx base 0 8 x zs else (x, zs)) = (x', ?zs)"
      "\<forall>j < 8. bit x' j \<longleftrightarrow> bit x j \<or> j \<in> set (take ?k ?A)"
      using grab_byte_eq [of base zs cnt x fdz mx] Cons.prems by auto
    have b8: "unat (base + 8) = unat base + 8" using Cons.prems(1) by (simp add: unat_word_ariths)
    have k': "cnt - length ?zs = ?k - length ?A" "length ?zs \<le> cnt" using Cons.prems(2) by auto
    obtain xs' where xs': "grab_bytes cnt fdz mx (base + 8) xs ?zs =
        (xs', ?zs @ map (\<lambda>j. base + 8 + of_nat j + fdz) (take (?k - length ?A) ?B))" "length xs' = length xs"
      "\<forall>j < 8 * length xs. bm xs' j \<longleftrightarrow> bm xs j \<or> j \<in> set (take (?k - length ?A) ?B)"
      using Cons.IH [of "base + 8" ?zs] Cons.prems(1) k' unfolding b8 by auto
    have all: "take ?k (frees (unat base) (unat mx) (x # xs)) = take ?k ?A @ map (\<lambda>j. j + 8) (take (?k - length ?A) ?B)"
      by (simp add: frees_Cons take_map)
    have A8: "j < 8" if "j \<in> set (take ?k ?A)" for j
      using in_set_takeD [OF that] by (simp add: free_bits_def)
    have bits: "bm (x' # xs') j \<longleftrightarrow> bm (x # xs) j \<or> j \<in> set (take ?k (frees (unat base) (unat mx) (x # xs)))"
      if "j < 8 * length (x # xs)" for j
    proof (cases "j < 8")
      case True
      then show ?thesis using x'(2) by (auto simp: all bm_Cons)
    next
      case False
      define i where "i = j - 8"
      with False have j: "j = i + 8" by simp
      have "i + 8 \<notin> set (take ?k ?A)" using A8 [of "i + 8"] by auto
      with that xs'(3) show ?thesis unfolding all j by (auto simp: bm_Cons)
    qed
    have g8: "map (\<lambda>j. base + 8 + of_nat j + fdz) js = map ?g (map (\<lambda>j. j + 8) js)" for js
      by (simp add: add.assoc add.commute [of 8])
    have "grab_bytes cnt fdz mx base (x # xs) zs = (x' # xs', zs @ map ?g (take ?k (frees (unat base) (unat mx) (x # xs))))"
      using False x'(1) xs'(1) unfolding all map_append g8 by simp
    with bits xs'(2) show ?thesis by auto
  qed simp
qed

section \<open>The zone bitmap\<close>

text \<open>
  A mounted file system whose regions lie in order, with a device that transfers every block of it.  A block
  of the inode table holds ten inodes.
\<close>

definition tfs_wf :: "superblock \<Rightarrow> partition_dev \<Rightarrow> bool" where
  "tfs_wf sb p \<longleftrightarrow> part_wf p \<and> \<not> pd_read_only p \<and> block_size sb = 2048 \<and>
    1 + unat (imap_blocks sb) + unat (zmap_blocks sb) + div_ceil (unat (ninodes sb)) 10 \<le> unat (first_data_zone sb) \<and>
    unat (first_data_zone sb) \<le> unat (zones sb) \<and> unat (zones sb) < 2 ^ 30 \<and>
    unat (zmap_blocks sb) * 16384 < 2 ^ 32 \<and> unat (ninodes sb) \<le> 16384 * unat (imap_blocks sb) \<and>
    (\<forall>b. unat b < unat (zones sb) \<longrightarrow> blk_ok p b)"

definition zmap_blk :: "superblock \<Rightarrow> nat \<Rightarrow> u32" where
  "zmap_blk sb k = imap_blocks sb + 1 + of_nat k"

definition zbit :: "superblock \<Rightarrow> partition_dev \<Rightarrow> nat \<Rightarrow> bool" where
  "zbit sb p r = bm (blk p (zmap_blk sb (r div 16384))) (r mod 16384)"

lemma tfs_wfD:
  assumes "tfs_wf sb p"
  shows "part_wf p" "\<not> pd_read_only p" "bits_per_block sb = 16384" "unat b < unat (zones sb) \<Longrightarrow> blk_ok p b"
    "unat (max_data_zones sb) = unat (zones sb) - unat (first_data_zone sb)"
    "1 + unat (imap_blocks sb) + unat (zmap_blocks sb) \<le> unat (zones sb)" "unat (zones sb) < 2 ^ 30"
    "unat (zmap_blocks sb) * 16384 < 2 ^ 32" "unat (first_data_zone sb) \<le> unat (zones sb)" "block_size sb = 2048"
  using assms by (auto simp: tfs_wf_def bits_per_block_def max_data_zones_def word_le_nat_alt unat_sub)

lemma unat_zmap_blk:
  assumes "tfs_wf sb p" "k < unat (zmap_blocks sb)"
  shows "unat (zmap_blk sb k) = unat (imap_blocks sb) + 1 + k"
proof -
  have "unat (imap_blocks sb) + 1 + k < 2 ^ 32" using tfs_wfD(6,7) [OF assms(1)] assms(2) by simp
  moreover have "zmap_blk sb k = of_nat (unat (imap_blocks sb) + 1 + k)" by (simp add: zmap_blk_def)
  ultimately show ?thesis by (simp only: unat_of_nat_u32)
qed

lemma zmap_blk_less: "tfs_wf sb p \<Longrightarrow> k < unat (zmap_blocks sb) \<Longrightarrow> unat (zmap_blk sb k) < unat (zones sb)"
  using unat_zmap_blk [of sb p k] tfs_wfD(6) [of sb p] by simp

lemma zmap_blk_eq_iff:
  "tfs_wf sb p \<Longrightarrow> k < unat (zmap_blocks sb) \<Longrightarrow> l < unat (zmap_blocks sb) \<Longrightarrow> zmap_blk sb k = zmap_blk sb l \<longleftrightarrow> k = l"
  using unat_zmap_blk [of sb p k] unat_zmap_blk [of sb p l] by (metis add_left_cancel)

text \<open>Storing one block of a mounted file system.\<close>

lemma tfs_put:
  assumes "tfs_wf sb p" "unat b < unat (zones sb)" "length buf = 2048"
  shows "read_tfs_block p b = Inr (blk p b)" "write_tfs_block p b buf = (Inr (), put_blks p b buf)"
    "tfs_wf sb (put_blks p b buf)" "length (blk p b) = 2048"
    "unat c < unat (zones sb) \<Longrightarrow> blk (put_blks p b buf) c = (if c = b then buf else blk p c)"
proof -
  note wf = tfs_wfD [OF assms(1)]
  note ok = wf(4) [OF assms(2)]
  show "read_tfs_block p b = Inr (blk p b)" by (rule read_tfs_block_eq [OF wf(1) ok])
  show "write_tfs_block p b buf = (Inr (), put_blks p b buf)" by (rule write_tfs_block_eq [OF wf(1,2) assms(3) ok])
  show "tfs_wf sb (put_blks p b buf)" using assms(1) part_wf_put_blk [OF wf(1) assms(3)] by (simp add: tfs_wf_def)
  show "length (blk p b) = 2048" using wf(1) by simp
  show "blk (put_blks p b buf) c = (if c = b then buf else blk p c)" if "unat c < unat (zones sb)"
    by (rule blk_put_blk [OF wf(1) assms(3) ok wf(4) [OF that]])
qed

text \<open>What a change of the zone bitmap leaves alone, and the zones in use after it.\<close>

definition zmap_upd :: "superblock \<Rightarrow> partition_dev \<Rightarrow> partition_dev \<Rightarrow> (nat \<Rightarrow> bool) \<Rightarrow> bool" where
  "zmap_upd sb p p' used \<longleftrightarrow> tfs_wf sb p' \<and>
    (\<forall>b. unat b < unat (zones sb) \<longrightarrow> unat b \<le> unat (imap_blocks sb) \<or> unat (imap_blocks sb) + unat (zmap_blocks sb) < unat b \<longrightarrow>
       blk p' b = blk p b) \<and>
    (\<forall>r < 16384 * unat (zmap_blocks sb). zbit sb p' r = used r)"

lemma zmap_upd_refl: "tfs_wf sb p \<Longrightarrow> (\<And>r. r < 16384 * unat (zmap_blocks sb) \<Longrightarrow> used r = zbit sb p r) \<Longrightarrow> zmap_upd sb p p used"
  by (simp add: zmap_upd_def)

lemma zmap_upd_trans: "zmap_upd sb p p' u \<Longrightarrow> zmap_upd sb p' p'' v \<Longrightarrow> zmap_upd sb p p'' v"
  by (simp add: zmap_upd_def)

lemma zmap_upd_cong:
  "zmap_upd sb p p' u \<Longrightarrow> (\<And>r. r < 16384 * unat (zmap_blocks sb) \<Longrightarrow> u r = v r) \<Longrightarrow> zmap_upd sb p p' v"
  by (simp add: zmap_upd_def)

lemma zmap_upd_put:
  assumes "tfs_wf sb p" "k < unat (zmap_blocks sb)" "length buf = 2048"
  shows "zmap_upd sb p (put_blks p (zmap_blk sb k) buf)
    (\<lambda>r. if r div 16384 = k then bm buf (r mod 16384) else zbit sb p r)"
proof -
  note put = tfs_put [OF assms(1) zmap_blk_less [OF assms(1,2)] assms(3)]
  have "blk (put_blks p (zmap_blk sb k) buf) b = blk p b"
    if "unat b < unat (zones sb)" "unat b \<le> unat (imap_blocks sb) \<or> unat (imap_blocks sb) + unat (zmap_blocks sb) < unat b" for b
    using put(5) [OF that(1)] that(2) unat_zmap_blk [OF assms(1,2)] assms(2) by auto
  moreover have "zbit sb (put_blks p (zmap_blk sb k) buf) r = (if r div 16384 = k then bm buf (r mod 16384) else zbit sb p r)"
    if "r < 16384 * unat (zmap_blocks sb)" for r
  proof -
    have "r div 16384 < unat (zmap_blocks sb)" using that by (simp add: less_mult_imp_div_less mult.commute)
    then show ?thesis
      using put(5) [OF zmap_blk_less [OF assms(1)]] zmap_blk_eq_iff [OF assms(1) _ assms(2)] by (simp add: zbit_def)
  qed
  ultimately show ?thesis using put(3) by (simp add: zmap_upd_def)
qed

subsection \<open>Allocation\<close>

definition free_from :: "superblock \<Rightarrow> partition_dev \<Rightarrow> nat \<Rightarrow> nat \<Rightarrow> nat list" where
  "free_from sb p i n = filter (\<lambda>r. \<not> zbit sb p r \<and> r < unat (max_data_zones sb)) [16384 * i..<16384 * (i + n)]"

text \<open>The free zones, relative to the first data zone, in ascending order.\<close>

definition free_zones :: "superblock \<Rightarrow> partition_dev \<Rightarrow> nat list" where
  "free_zones sb p = free_from sb p 0 (unat (zmap_blocks sb))"

definition zone_no :: "superblock \<Rightarrow> nat \<Rightarrow> u32" where
  "zone_no sb r = of_nat r + first_data_zone sb"

lemma free_from_Suc: "free_from sb p i (Suc n) = free_from sb p i 1 @ free_from sb p (Suc i) n"
proof -
  have "[16384 * i..<16384 * (i + Suc n)] = [16384 * i..<16384 * (i + 1)] @ [16384 * (i + 1)..<16384 * (i + Suc n)]"
    using upt_add_eq_append [of "16384 * i" "16384 * (i + 1)" "16384 * n"] by (simp add: algebra_simps)
  then show ?thesis by (simp add: free_from_def)
qed

lemma free_from_block:
  assumes "part_wf p"
  shows "free_from sb p i 1 = map (\<lambda>j. 16384 * i + j) (frees (16384 * i) (unat (max_data_zones sb)) (blk p (zmap_blk sb i)))"
proof -
  have upt: "[16384 * i..<16384 * (i + 1)] = map (\<lambda>j. 16384 * i + j) [0..<16384]"
    by (simp add: map_add_upt add.commute algebra_simps)
  have "zbit sb p (16384 * i + j) = bm (blk p (zmap_blk sb i)) j" if "j < 16384" for j
    using that by (simp add: zbit_def)
  then have "filter (\<lambda>j. \<not> zbit sb p (16384 * i + j) \<and> 16384 * i + j < unat (max_data_zones sb)) [0..<16384] =
      filter (\<lambda>j. \<not> bm (blk p (zmap_blk sb i)) j \<and> 16384 * i + j < unat (max_data_zones sb)) [0..<16384]"
    by (intro filter_cong) auto
  then show ?thesis using assms unfolding free_from_def frees_def upt filter_map by (simp add: comp_def)
qed

lemma free_from_cong:
  "(\<And>r. 16384 * i \<le> r \<Longrightarrow> r < 16384 * (i + n) \<Longrightarrow> zbit sb p' r = zbit sb p r) \<Longrightarrow> free_from sb p' i n = free_from sb p i n"
  unfolding free_from_def by (rule filter_cong) auto

lemma in_free_from: "r \<in> set (free_from sb p i n) \<Longrightarrow> 16384 * i \<le> r \<and> r < 16384 * (i + n)"
  by (simp add: free_from_def)

text \<open>One bitmap block of a batch.\<close>

lemma grab_block:
  assumes "tfs_wf sb p" "i < unat (zmap_blocks sb)" "length zs \<le> cnt"
  defines "R \<equiv> take (cnt - length zs) (free_from sb p i 1)"
  shows "\<exists>buf'. grab_bytes cnt (first_data_zone sb) (max_data_zones sb) (of_nat i * of_nat (bits_per_block sb))
      (blk p (zmap_blk sb i)) zs = (buf', zs @ map (zone_no sb) R) \<and>
    zmap_upd sb p (put_blks p (zmap_blk sb i) buf') (\<lambda>r. zbit sb p r \<or> r \<in> set R) \<and> length buf' = 2048"
proof -
  let ?buf = "blk p (zmap_blk sb i)" and ?base = "of_nat i * of_nat (bits_per_block sb) :: u32"
  note wf = tfs_wfD [OF assms(1)]
  have i: "16384 * i + 16384 < 2 ^ 32" using assms(2) wf(8) by linarith
  have "?base = of_nat (16384 * i)" by (simp add: wf(3) mult.commute)
  moreover have "unat (of_nat (16384 * i) :: u32) = 16384 * i" using i by (intro unat_of_nat_u32) linarith
  ultimately have base: "unat ?base = 16384 * i" "?base = of_nat (16384 * i)" by simp_all
  let ?F = "frees (16384 * i) (unat (max_data_zones sb)) ?buf"
  have len: "length ?buf = 2048" using wf(1) by simp
  obtain buf' where buf': "grab_bytes cnt (first_data_zone sb) (max_data_zones sb) ?base ?buf zs =
      (buf', zs @ map (\<lambda>j. ?base + of_nat j + first_data_zone sb) (take (cnt - length zs) ?F))" "length buf' = 2048"
    "\<forall>j < 16384. bm buf' j \<longleftrightarrow> bm ?buf j \<or> j \<in> set (take (cnt - length zs) ?F)"
    using grab_bytes_eq [of ?base ?buf zs cnt "first_data_zone sb" "max_data_zones sb"] assms(3) i len unfolding base(1) by auto
  have R: "R = map (\<lambda>j. 16384 * i + j) (take (cnt - length zs) ?F)"
    unfolding R_def free_from_block [OF wf(1)] by (simp add: take_map)
  have "map (\<lambda>j. ?base + of_nat j + first_data_zone sb) js = map (zone_no sb) (map (\<lambda>j. 16384 * i + j) js)" for js
    unfolding base(2) by (simp add: zone_no_def)
  with buf'(1) R have res: "grab_bytes cnt (first_data_zone sb) (max_data_zones sb) ?base ?buf zs = (buf', zs @ map (zone_no sb) R)"
    by metis
  have "(if r div 16384 = i then bm buf' (r mod 16384) else zbit sb p r) \<longleftrightarrow> zbit sb p r \<or> r \<in> set R" for r
  proof (cases "r div 16384 = i")
    case True
    then have "r = 16384 * i + r mod 16384" by (metis mult_div_mod_eq)
    then have "r \<in> set R \<longleftrightarrow> r mod 16384 \<in> set (take (cnt - length zs) ?F)" unfolding R by (metis (mono_tags, lifting) add_left_cancel image_iff list.set_map)
    then show ?thesis using True buf'(3) by (simp add: zbit_def)
  next
    case False
    have "r \<notin> set R"
    proof
      assume "r \<in> set R"
      then have "r \<in> set (free_from sb p i 1)" unfolding R_def by (rule in_set_takeD)
      from in_free_from [OF this] False show False by (auto simp: div_nat_eqI)
    qed
    with False show ?thesis by simp
  qed
  then have "zmap_upd sb p (put_blks p (zmap_blk sb i) buf') (\<lambda>r. zbit sb p r \<or> r \<in> set R)"
    by (intro zmap_upd_cong [OF zmap_upd_put [OF assms(1,2) buf'(2)]]) blast
  with res buf'(2) show ?thesis by blast
qed

lemma allocate_zones_loop_eq:
  assumes "tfs_wf sb p" "i + n = unat (zmap_blocks sb)" "length zs \<le> cnt"
  shows "\<exists>p'. allocate_zones_loop sb cnt p (of_nat i) n zs =
      (Inr (zs @ map (zone_no sb) (take (cnt - length zs) (free_from sb p i n))), p') \<and>
    zmap_upd sb p p' (\<lambda>r. zbit sb p r \<or> r \<in> set (take (cnt - length zs) (free_from sb p i n)))"
  using assms
proof (induction n arbitrary: p i zs)
  case 0
  then show ?case by (simp add: free_from_def zmap_upd_refl)
next
  case (Suc n)
  show ?case
  proof (cases "length zs = cnt")
    case True
    with Suc.prems(1) show ?thesis by (simp add: zmap_upd_refl)
  next
    case False
    have i: "i < unat (zmap_blocks sb)" using Suc.prems(2) by simp
    let ?b = "zmap_blk sb i" and ?k = "cnt - length zs" and ?A = "free_from sb p i 1" and ?B = "free_from sb p (Suc i) n"
    let ?zs = "zs @ map (zone_no sb) (take ?k ?A)"
    obtain buf' where g: "grab_bytes cnt (first_data_zone sb) (max_data_zones sb) (of_nat i * of_nat (bits_per_block sb))
        (blk p ?b) zs = (buf', ?zs)" "zmap_upd sb p (put_blks p ?b buf') (\<lambda>r. zbit sb p r \<or> r \<in> set (take ?k ?A))"
      "length buf' = 2048"
      using grab_block [OF Suc.prems(1) i Suc.prems(3)] by blast
    note put = tfs_put [OF Suc.prems(1) zmap_blk_less [OF Suc.prems(1) i] g(3)]
    define p1 where "p1 = (if length ?zs \<noteq> length zs then put_blks p ?b buf' else p)"
    have step: "allocate_zones_loop sb cnt p (of_nat i) (Suc n) zs = allocate_zones_loop sb cnt p1 (of_nat (Suc i)) n ?zs"
      using False put(1,2) g(1) by (simp add: p1_def zmap_blk_def add.commute)
    have none: "take ?k ?A = []" if "length ?zs = length zs"
      using that by (metis add_cancel_right_right length_0_conv length_append length_map)
    have upd: "zmap_upd sb p p1 (\<lambda>r. zbit sb p r \<or> r \<in> set (take ?k ?A))"
      using g(2) none zmap_upd_refl [OF Suc.prems(1)] by (auto simp: p1_def)
    have "zbit sb p1 r = zbit sb p r" if "16384 * Suc i \<le> r" "r < 16384 * (Suc i + n)" for r
      using upd that Suc.prems(2) in_free_from [of r sb p i 1] in_set_takeD [of r ?k ?A] by (auto simp: zmap_upd_def)
    then have B: "free_from sb p1 (Suc i) n = ?B" by (rule free_from_cong)
    have k: "cnt - length ?zs = ?k - length ?A" "length ?zs \<le> cnt" using Suc.prems(3) by auto
    have wf1: "tfs_wf sb p1" using upd by (simp add: zmap_upd_def)
    obtain p' where p': "allocate_zones_loop sb cnt p1 (of_nat (Suc i)) n ?zs =
        (Inr (?zs @ map (zone_no sb) (take (?k - length ?A) ?B)), p')"
      "zmap_upd sb p1 p' (\<lambda>r. zbit sb p1 r \<or> r \<in> set (take (?k - length ?A) ?B))"
      using Suc.IH [OF wf1, of "Suc i" ?zs] Suc.prems(2) k unfolding B by auto
    have all: "take ?k (free_from sb p i (Suc n)) = take ?k ?A @ take (?k - length ?A) ?B"
      by (simp add: free_from_Suc [of sb p i n])
    have "zmap_upd sb p p' (\<lambda>r. zbit sb p r \<or> r \<in> set (take ?k (free_from sb p i (Suc n))))"
    proof (rule zmap_upd_cong [OF zmap_upd_trans [OF upd p'(2)]])
      fix r assume "r < 16384 * unat (zmap_blocks sb)"
      with upd show "(zbit sb p1 r \<or> r \<in> set (take (?k - length ?A) ?B)) = (zbit sb p r \<or> r \<in> set (take ?k (free_from sb p i (Suc n))))"
        unfolding all by (auto simp: zmap_upd_def)
    qed
    with p'(1) show ?thesis unfolding step all by simp
  qed
qed

text \<open>The single allocation is the batch of one.\<close>

lemma first_clear_free:
  assumes "part_wf p" "first_clear (blk p (zmap_blk sb i)) 0 = None"
  shows "free_from sb p i 1 = []"
proof -
  have "filter (\<lambda>j. \<not> bm (blk p (zmap_blk sb i)) j) [0..<16384] = []"
    using assms by (auto simp: first_clear_eq split: list.splits)
  then have "frees (16384 * i) (unat (max_data_zones sb)) (blk p (zmap_blk sb i)) = []"
    using assms(1) by (auto simp: frees_def filter_empty_conv)
  then show ?thesis unfolding free_from_block [OF assms(1)] by simp
qed

lemma filter_head:
  assumes "filter P [0..<n] = j # js"
  shows "P j" "j < n" "i < j \<Longrightarrow> \<not> P i"
proof -
  have "j \<in> set (filter P [0..<n])" unfolding assms by simp
  then show "P j" "j < n" by simp_all
  show "\<not> P i" if "i < j"
  proof
    assume "P i"
    with that \<open>j < n\<close> have "i \<in> set (filter P [0..<n])" by simp
    moreover have "sorted (j # js)" unfolding assms [symmetric] by (rule sorted_wrt_filter [OF sorted_upt])
    ultimately show False using that unfolding assms by auto
  qed
qed

lemma filter_upt_Cons:
  assumes "a \<le> r" "r < b" "P r" "\<And>x. a \<le> x \<Longrightarrow> x < r \<Longrightarrow> \<not> P x"
  shows "filter P [a..<b] = r # filter P [Suc r..<b]"
proof -
  have "[a..<b] = [a..<r] @ r # [Suc r..<b]"
    using assms(1,2) upt_add_eq_append [of a r "b - r"] by (simp add: upt_conv_Cons)
  moreover have "filter P [a..<r] = []" using assms(4) by (simp add: filter_empty_conv)
  ultimately show ?thesis using assms(3) by simp
qed

lemma allocate_zone_loop_eq:
  assumes "tfs_wf sb p" "i + n = unat (zmap_blocks sb)"
  shows "case free_from sb p i n of
      [] \<Rightarrow> allocate_zone_loop sb p (of_nat i) n = (Inl NoSpaceLeft, p)
    | r # rs \<Rightarrow> \<exists>p'. allocate_zone_loop sb p (of_nat i) n = (Inr (zone_no sb r), p') \<and>
        zmap_upd sb p p' (\<lambda>x. zbit sb p x \<or> x = r)"
  using assms
proof (induction n arbitrary: i)
  case 0
  then show ?case by (simp add: free_from_def)
next
  case (Suc n)
  note wf = tfs_wfD [OF Suc.prems(1)]
  have i: "i < unat (zmap_blocks sb)" using Suc.prems(2) by simp
  let ?b = "zmap_blk sb i" and ?mx = "unat (max_data_zones sb)"
  have b: "imap_blocks sb + 1 + of_nat i = ?b" by (simp add: zmap_blk_def)
  have len: "length (blk p ?b) = 2048" using wf(1) by simp
  have rd: "read_tfs_block p ?b = Inr (blk p ?b)"
    by (rule read_tfs_block_eq [OF wf(1) wf(4) [OF zmap_blk_less [OF Suc.prems(1) i]]])
  show ?case
  proof (cases "filter (\<lambda>j. \<not> bm (blk p ?b) j) [0..<16384]")
    case Nil
    then have none: "first_clear (blk p ?b) 0 = None" using len by (simp add: first_clear_eq)
    have next_free: "free_from sb p i (Suc n) = free_from sb p (Suc i) n"
      unfolding free_from_Suc [of sb p i n] first_clear_free [OF wf(1) none] by simp
    have "of_nat (Suc i) = (of_nat i + 1 :: u32)" by simp
    then have step: "allocate_zone_loop sb p (of_nat i) (Suc n) = allocate_zone_loop sb p (of_nat (Suc i)) n"
      unfolding allocate_zone_loop.simps b rd by (simp add: none add.commute)
    show ?thesis unfolding next_free step using Suc.prems(2) by (intro Suc.IH [OF Suc.prems(1)]) simp
  next
    case (Cons j js)
    note j = filter_head [OF Cons]
    define r where "r = 16384 * i + j"
    have some: "first_clear (blk p ?b) 0 = Some (j div 8, j mod 8)" using len Cons by (simp add: first_clear_eq)
    have bits: "zbit sb p (16384 * i + x) = bm (blk p ?b) x" if "x < 16384" for x using that by (simp add: zbit_def)
    have before: "zbit sb p x" if "16384 * i \<le> x" "x < r" for x
      using bits [of "x - 16384 * i"] j(2) j(3) [of "x - 16384 * i"] that by (simp add: r_def)
    have r: "r < 16384 * i + 16384" "\<not> zbit sb p r" using j bits [of j] by (simp_all add: r_def)
    have "r < 2 ^ 32" using r(1) i wf(8) by linarith
    moreover have "of_nat i * of_nat (bits_per_block sb) + of_nat (j div 8 * 8 + j mod 8) = (of_nat r :: u32)"
      unfolding wf(3) r_def div_mult_mod_eq by (simp add: mult.commute)
    ultimately have zone: "of_nat i * of_nat (bits_per_block sb) + of_nat (j div 8 * 8 + j mod 8) = (of_nat r :: u32)"
      "max_data_zones sb \<le> of_nat r \<longleftrightarrow> ?mx \<le> r"
      by (simp_all add: word_le_nat_alt unat_of_nat_u32)
    let ?buf = "(blk p ?b)[j div 8 := blk p ?b ! (j div 8) OR push_bit (j mod 8) 1]"
    note put = tfs_put [OF Suc.prems(1) zmap_blk_less [OF Suc.prems(1) i], of ?buf]
    have step: "allocate_zone_loop sb p (of_nat i) (Suc n) =
        (if ?mx \<le> r then (Inl NoSpaceLeft, p) else (Inr (zone_no sb r), put_blks p ?b ?buf))"
      unfolding allocate_zone_loop.simps b rd sum.case some option.case prod.case Let_def zone
      using put(2) len by (simp add: zone_no_def del: push_bit_of_1)
    show ?thesis
    proof (cases "?mx \<le> r")
      case True
      have "free_from sb p i (Suc n) = []" unfolding free_from_def filter_empty_conv
      proof
        fix x assume "x \<in> set [16384 * i..<16384 * (i + Suc n)]"
        then show "\<not> (\<not> zbit sb p x \<and> x < ?mx)" using before [of x] True by (cases "x < r") auto
      qed
      with True step show ?thesis by simp
    next
      case False
      have "free_from sb p i (Suc n) = r # filter (\<lambda>r. \<not> zbit sb p r \<and> r < ?mx) [Suc r..<16384 * (i + Suc n)]"
        unfolding free_from_def using r before False by (intro filter_upt_Cons) (auto simp: r_def)
      moreover have "zmap_upd sb p (put_blks p ?b ?buf) (\<lambda>x. zbit sb p x \<or> x = r)"
      proof (rule zmap_upd_cong [OF zmap_upd_put [OF Suc.prems(1) i]])
        fix x
        have "x = r \<longleftrightarrow> x div 16384 = i \<and> x mod 16384 = j" using j(2) by (auto simp: r_def)
        then show "(if x div 16384 = i then bm ?buf (x mod 16384) else zbit sb p x) = (zbit sb p x \<or> x = r)"
          using bm_set [of j "blk p ?b" "x mod 16384"] j(2) len by (auto simp: zbit_def simp del: push_bit_of_1)
      qed (simp add: len)
      ultimately show ?thesis using step False by auto
    qed
  qed
qed

subsection \<open>Release\<close>

lemma zone_no_nat:
  assumes "tfs_wf sb p" "r < unat (max_data_zones sb)"
  shows "unat (zone_no sb r) = unat (first_data_zone sb) + r" "unat (zone_no sb r) < unat (zones sb)"
proof -
  note wf = tfs_wfD [OF assms(1)]
  have "zone_no sb r = of_nat (unat (first_data_zone sb) + r)" by (simp add: zone_no_def)
  moreover have less: "unat (first_data_zone sb) + r < unat (zones sb)" using assms(2) wf(5,9) by linarith
  then have "unat (of_nat (unat (first_data_zone sb) + r) :: u32) = unat (first_data_zone sb) + r"
    using wf(7) by (intro unat_of_nat_u32) simp
  ultimately show "unat (zone_no sb r) = unat (first_data_zone sb) + r" "unat (zone_no sb r) < unat (zones sb)"
    using less by simp_all
qed

lemma dealloc_zone_eq:
  assumes "tfs_wf sb p" "r < unat (max_data_zones sb)" "r < 16384 * unat (zmap_blocks sb)"
  shows "\<exists>p'. dealloc_zone sb p (zone_no sb r) = Some (Inr (), p') \<and> zmap_upd sb p p' (\<lambda>x. zbit sb p x \<and> x \<noteq> r)"
proof -
  note wf = tfs_wfD [OF assms(1)]
  note z = zone_no_nat [OF assms(1,2)]
  let ?k = "r div 16384"
  have k: "?k < unat (zmap_blocks sb)" using assms(3) by (simp add: less_mult_imp_div_less mult.commute)
  have nle: "\<not> zone_no sb r < first_data_zone sb" using z(1) by (simp add: word_less_nat_alt)
  then have "unat (zone_no sb r - first_data_zone sb) = unat (zone_no sb r) - unat (first_data_zone sb)"
    by (intro unat_sub) simp
  then have rel: "unat (zone_no sb r - first_data_zone sb) = r" using z(1) by simp
  have b: "1 + imap_blocks sb + of_nat ?k = zmap_blk sb ?k" by (simp add: zmap_blk_def)
  let ?buf = "blk p (zmap_blk sb ?k)" and ?j = "r mod 16384"
  have len: "length ?buf = 2048" using wf(1) by simp
  let ?new = "?buf[?j div 8 := ?buf ! (?j div 8) AND NOT (push_bit (?j mod 8) 1)]"
  have j: "?j < 16384" by simp
  note put = tfs_put [OF assms(1) zmap_blk_less [OF assms(1) k], of ?new]
  have "?j div 8 < length ?buf" using j len by simp
  then have "dealloc_zone sb p (zone_no sb r) = Some (Inr (), put_blks p (zmap_blk sb ?k) ?new)"
    using put(1,2) len k nle unfolding dealloc_zone_def wf(3) Let_def rel b
    by (simp del: push_bit_of_1 add: not_le)
  moreover have "zmap_upd sb p (put_blks p (zmap_blk sb ?k) ?new) (\<lambda>x. zbit sb p x \<and> x \<noteq> r)"
  proof (rule zmap_upd_cong [OF zmap_upd_put [OF assms(1) k]])
    fix x
    have "x = r \<longleftrightarrow> x div 16384 = ?k \<and> x mod 16384 = ?j" by (metis div_mult_mod_eq)
    then show "(if x div 16384 = ?k then bm ?new (x mod 16384) else zbit sb p x) = (zbit sb p x \<and> x \<noteq> r)"
      using bm_clear [of ?j ?buf "x mod 16384"] j len by (auto simp: zbit_def simp del: push_bit_of_1)
  qed (simp add: len)
  ultimately show ?thesis by blast
qed

lemma dealloc_all_eq:
  assumes "tfs_wf sb p" "\<forall>r \<in> set R. r < unat (max_data_zones sb) \<and> r < 16384 * unat (zmap_blocks sb)"
  shows "\<exists>p'. dealloc_all sb p (map (zone_no sb) R) = Some p' \<and> zmap_upd sb p p' (\<lambda>x. zbit sb p x \<and> x \<notin> set R)"
  using assms
proof (induction R arbitrary: p)
  case (Cons r R)
  then obtain p1 where p1: "dealloc_zone sb p (zone_no sb r) = Some (Inr (), p1)" "zmap_upd sb p p1 (\<lambda>x. zbit sb p x \<and> x \<noteq> r)"
    using dealloc_zone_eq [of sb p r] by auto
  then obtain p2 where p2: "dealloc_all sb p1 (map (zone_no sb) R) = Some p2" "zmap_upd sb p1 p2 (\<lambda>x. zbit sb p1 x \<and> x \<notin> set R)"
    using Cons.IH [of p1] Cons.prems(2) by (auto simp: zmap_upd_def)
  have "zmap_upd sb p p2 (\<lambda>x. zbit sb p x \<and> x \<notin> set (r # R))"
    using p1(2) by (intro zmap_upd_cong [OF zmap_upd_trans [OF p1(2) p2(2)]]) (auto simp: zmap_upd_def)
  with p1(1) p2(1) show ?case by simp
qed (simp add: zmap_upd_refl)

section \<open>The operations\<close>

lemma in_free_zones:
  "r \<in> set (free_zones sb p) \<longleftrightarrow> \<not> zbit sb p r \<and> r < unat (max_data_zones sb) \<and> r < 16384 * unat (zmap_blocks sb)"
  by (auto simp: free_zones_def free_from_def)

lemma distinct_free_zones: "distinct (free_zones sb p)" "sorted (free_zones sb p)"
  unfolding free_zones_def free_from_def by (simp_all add: sorted_wrt_filter)

lemma allocate_zone_eq:
  assumes "tfs_wf sb p"
  shows "case free_zones sb p of
      [] \<Rightarrow> allocate_zone sb p = (Inl NoSpaceLeft, p)
    | r # rs \<Rightarrow> \<exists>p'. allocate_zone sb p = (Inr (zone_no sb r), p') \<and> zmap_upd sb p p' (\<lambda>x. zbit sb p x \<or> x = r)"
proof -
  have loop: "allocate_zone sb p = allocate_zone_loop sb p (of_nat 0) (unat (zmap_blocks sb))"
    by (simp add: allocate_zone_def)
  show ?thesis unfolding free_zones_def loop by (rule allocate_zone_loop_eq [OF assms]) simp
qed

lemma allocate_zones_eq:
  assumes "tfs_wf sb p"
  shows "\<exists>p'. allocate_zones sb cnt p =
      Some (if cnt \<le> length (free_zones sb p) then Inr (map (zone_no sb) (take cnt (free_zones sb p))) else Inl NoSpaceLeft, p') \<and>
    zmap_upd sb p p' (\<lambda>r. zbit sb p r \<or> cnt \<le> length (free_zones sb p) \<and> r \<in> set (take cnt (free_zones sb p)))"
proof -
  let ?F = "free_zones sb p"
  obtain p1 where p1: "allocate_zones_loop sb cnt p 0 (unat (zmap_blocks sb)) [] = (Inr (map (zone_no sb) (take cnt ?F)), p1)"
    "zmap_upd sb p p1 (\<lambda>r. zbit sb p r \<or> r \<in> set (take cnt ?F))"
    using allocate_zones_loop_eq [OF assms, of 0 "unat (zmap_blocks sb)" "[]" cnt] unfolding free_zones_def by auto
  show ?thesis
  proof (cases "cnt \<le> length ?F")
    case True
    with p1 show ?thesis by (auto simp: allocate_zones_def)
  next
    case False
    then have F: "take cnt ?F = ?F" by simp
    have wf1: "tfs_wf sb p1" using p1(2) by (simp add: zmap_upd_def)
    obtain p2 where p2: "dealloc_all sb p1 (map (zone_no sb) ?F) = Some p2" "zmap_upd sb p1 p2 (\<lambda>x. zbit sb p1 x \<and> x \<notin> set ?F)"
      using dealloc_all_eq [OF wf1, of ?F] by (auto simp: in_free_zones)
    have "zmap_upd sb p p2 (zbit sb p)"
      using p1(2) F by (intro zmap_upd_cong [OF zmap_upd_trans [OF p1(2) p2(2)]]) (auto simp: zmap_upd_def in_free_zones)
    with False F p1(1) p2(1) show ?thesis by (auto simp: allocate_zones_def)
  qed
qed

subsection \<open>Inodes\<close>

definition ibit :: "partition_dev \<Rightarrow> nat \<Rightarrow> bool" where
  "ibit p n = bm (blk p (1 + of_nat (n div 16384))) (n mod 16384)"

definition free_inodes_from :: "superblock \<Rightarrow> partition_dev \<Rightarrow> nat \<Rightarrow> nat \<Rightarrow> nat list" where
  "free_inodes_from sb p i n = filter (\<lambda>k. \<not> ibit p k \<and> k < unat (ninodes sb)) [16384 * i..<16384 * (i + n)]"

text \<open>What a change of the inode bitmap leaves alone, and the inodes in use after it.\<close>

definition imap_upd :: "superblock \<Rightarrow> partition_dev \<Rightarrow> partition_dev \<Rightarrow> (nat \<Rightarrow> bool) \<Rightarrow> bool" where
  "imap_upd sb p p' used \<longleftrightarrow> tfs_wf sb p' \<and>
    (\<forall>b. unat b < unat (zones sb) \<longrightarrow> b = 0 \<or> unat (imap_blocks sb) < unat b \<longrightarrow> blk p' b = blk p b) \<and>
    (\<forall>k < 16384 * unat (imap_blocks sb). ibit p' k = used k)"

lemma inode_bit_eq:
  "b + n \<le> 8 \<Longrightarrow> inode_bit tot base x b n =
    (case filter (\<lambda>j. \<not> bit x j \<and> base + j < tot) [b..<b + n] of [] \<Rightarrow> None | j # js \<Rightarrow> Some j)"
proof (induction n arbitrary: b)
  case (Suc n)
  then have upt: "[b..<Suc (b + n)] = b # [Suc b..<Suc (b + n)]" by (simp add: upt_conv_Cons del: upt_Suc)
  have "filter (\<lambda>j. \<not> bit x j \<and> base + j < tot) [Suc b..<Suc (b + n)] = []" if "tot \<le> base + b"
    using that by (auto simp: filter_empty_conv)
  with Suc show ?case by (simp add: upt and_bit_zero del: push_bit_of_1 upt_Suc)
qed simp

lemma inode_scan_eq:
  "inode_scan tot base xs i =
    (case filter (\<lambda>j. \<not> bm xs j \<and> base + i * 8 + j < tot) [0..<8 * length xs] of
       [] \<Rightarrow> None | j # js \<Rightarrow> Some (i + j div 8, j mod 8))"
proof (induction xs arbitrary: i)
  case (Cons x xs)
  let ?P = "\<lambda>j. \<not> bit x j \<and> base + i * 8 + j < tot"
  have low: "filter (\<lambda>j. \<not> bm (x # xs) j \<and> base + i * 8 + j < tot) [0..<8] = filter ?P [0..<8]"
    by (rule filter_cong) (simp_all add: bm_Cons)
  have high: "filter (\<lambda>j. \<not> bm (x # xs) j \<and> base + i * 8 + j < tot) (map (\<lambda>j. j + 8) js) =
      map (\<lambda>j. j + 8) (filter (\<lambda>j. \<not> bm xs j \<and> base + (i + 1) * 8 + j < tot) js)" for js
    by (simp add: filter_map comp_def bm_Cons algebra_simps)
  have full: "filter ?P [0..<8] = []" if "x = 0xFF"
    using that bit_ff by (simp add: filter_empty_conv)
  have scan: "(if x \<noteq> 0xFF then inode_bit tot (base + i * 8) x 0 8 else None) =
      (case filter ?P [0..<8] of [] \<Rightarrow> None | j # js \<Rightarrow> Some j)"
    using full inode_bit_eq [of 0 8 tot "base + i * 8" x] by simp
  show ?case
  proof (cases "filter ?P [0..<8]")
    case Nil
    then show ?thesis
      unfolding inode_scan.simps scan Cons.IH bits_Cons filter_append low high Nil by (simp add: add8 split: list.split)
  next
    case (Cons j js)
    then have "j \<in> set (filter ?P [0..<8])" by simp
    then have "j < 8" by simp
    with Cons show ?thesis unfolding inode_scan.simps scan bits_Cons filter_append low by simp
  qed
qed simp

lemma imap_blk:
  assumes "tfs_wf sb p" "i < unat (imap_blocks sb)"
  shows "unat (1 + of_nat i :: u32) = 1 + i" "unat (1 + of_nat i :: u32) < unat (zones sb)" "unat (of_nat i :: u32) = i"
proof -
  have "i < 2 ^ 32 - 1" "1 + i < unat (zones sb)" using assms tfs_wfD(6,7) [OF assms(1)] by simp_all
  moreover from this have "unat (of_nat (1 + i) :: u32) = 1 + i" by (intro unat_of_nat_u32) simp
  ultimately show "unat (1 + of_nat i :: u32) = 1 + i" "unat (1 + of_nat i :: u32) < unat (zones sb)"
    "unat (of_nat i :: u32) = i"
    by (simp_all add: unat_of_nat_u32)
qed

lemma imap_upd_put:
  assumes "tfs_wf sb p" "i < unat (imap_blocks sb)" "length buf = 2048"
  shows "imap_upd sb p (put_blks p (1 + of_nat i) buf) (\<lambda>k. if k div 16384 = i then bm buf (k mod 16384) else ibit p k)"
proof -
  note b = imap_blk [OF assms(1,2)]
  note put = tfs_put [OF assms(1) b(2) assms(3)]
  have "ibit (put_blks p (1 + of_nat i) buf) k = (if k div 16384 = i then bm buf (k mod 16384) else ibit p k)"
    if "k < 16384 * unat (imap_blocks sb)" for k
  proof -
    have "k div 16384 < unat (imap_blocks sb)" using that by (simp add: less_mult_imp_div_less mult.commute)
    note c = imap_blk [OF assms(1) this]
    have "1 + of_nat (k div 16384) = (1 + of_nat i :: u32) \<longleftrightarrow> k div 16384 = i" using b(1) c(1) by auto
    then show ?thesis using put(5) [OF c(2)] by (simp add: ibit_def)
  qed
  moreover have "blk (put_blks p (1 + of_nat i) buf) c = blk p c"
    if "unat c < unat (zones sb)" "c = 0 \<or> unat (imap_blocks sb) < unat c" for c
    using put(5) [OF that(1)] that(2) b(1) assms(2) by auto
  ultimately show ?thesis using put(3) by (simp add: imap_upd_def)
qed

lemma allocate_inode_loop_eq:
  assumes "tfs_wf sb p" "i + n = unat (imap_blocks sb)"
  shows "case free_inodes_from sb p i n of
      [] \<Rightarrow> allocate_inode_loop sb p (of_nat i) n = Some (Inl NoSpaceLeft, p)
    | k # ks \<Rightarrow> \<exists>p'. allocate_inode_loop sb p (of_nat i) n = Some (Inr (of_nat k), p') \<and>
        imap_upd sb p p' (\<lambda>x. ibit p x \<or> x = k)"
  using assms
proof (induction n arbitrary: i)
  case 0
  then show ?case by (simp add: free_inodes_from_def)
next
  case (Suc n)
  note wf = tfs_wfD [OF Suc.prems(1)]
  have i: "i < unat (imap_blocks sb)" using Suc.prems(2) by simp
  note b = imap_blk [OF Suc.prems(1) i]
  let ?buf = "blk p (1 + of_nat i)" and ?tot = "unat (ninodes sb)"
  have len: "length ?buf = 2048" using wf(1) by simp
  have rd: "read_tfs_block p (1 + of_nat i) = Inr ?buf" by (rule read_tfs_block_eq [OF wf(1) wf(4) [OF b(2)]])
  have base: "unat (of_nat i :: u32) * bits_per_block sb = 16384 * i" by (simp add: b(3) wf(3))
  let ?P = "\<lambda>j. \<not> bm ?buf j \<and> 16384 * i + j < ?tot" and ?Q = "\<lambda>k. \<not> ibit p k \<and> k < ?tot"
  have bits: "ibit p (16384 * i + j) = bm ?buf j" if "j < 16384" for j using that by (simp add: ibit_def)
  have scan: "inode_scan ?tot (16384 * i) (take (unat (block_size sb)) ?buf) 0 =
      (case filter ?P [0..<16384] of [] \<Rightarrow> None | j # js \<Rightarrow> Some (j div 8, j mod 8))"
    using len by (simp add: wf(10) inode_scan_eq split: list.split)
  show ?case
  proof (cases "filter ?P [0..<16384]")
    case Nil
    have "\<not> ?Q k" if "16384 * i \<le> k" "k < 16384 * i + 16384" for k
      using Nil bits [of "k - 16384 * i"] that by (auto simp: filter_empty_conv)
    then have none: "filter ?Q [16384 * i..<16384 * (i + 1)] = []" by (auto simp: filter_empty_conv)
    have "[16384 * i..<16384 * (i + Suc n)] = [16384 * i..<16384 * (i + 1)] @ [16384 * Suc i..<16384 * (Suc i + n)]"
      using upt_add_eq_append [of "16384 * i" "16384 * (i + 1)" "16384 * n"] by (simp add: algebra_simps)
    with none have next_free: "free_inodes_from sb p i (Suc n) = free_inodes_from sb p (Suc i) n"
      by (simp add: free_inodes_from_def)
    have "unat (block_size sb) = 2048" by (simp add: wf(10))
    moreover have "of_nat (Suc i) = (of_nat i + 1 :: u32)" by simp
    ultimately have step: "allocate_inode_loop sb p (of_nat i) (Suc n) = allocate_inode_loop sb p (of_nat (Suc i)) n"
      unfolding allocate_inode_loop.simps rd base Let_def using scan Nil len by (simp add: add.commute)
    show ?thesis unfolding next_free step using Suc.prems(2) by (intro Suc.IH [OF Suc.prems(1)]) simp
  next
    case (Cons j js)
    note j = filter_head [OF Cons]
    define k where "k = 16384 * i + j"
    let ?new = "?buf[j div 8 := ?buf ! (j div 8) OR push_bit (j mod 8) 1]"
    note put = tfs_put [OF Suc.prems(1) b(2), of ?new]
    have k: "16384 * i + j div 8 * 8 + j mod 8 = k" by (simp add: k_def)
    have step: "allocate_inode_loop sb p (of_nat i) (Suc n) = Some (Inr (of_nat k), put_blks p (1 + of_nat i) ?new)"
      unfolding allocate_inode_loop.simps rd base Let_def
      using scan Cons put(2) len k by (simp add: base Let_def del: push_bit_of_1)
    have Q: "\<not> ?Q x" if "16384 * i \<le> x" "x < k" for x
      using bits [of "x - 16384 * i"] j(2) j(3) [of "x - 16384 * i"] that by (simp add: k_def)
    have "?Q k" "k < 16384 * (i + Suc n)" "16384 * i \<le> k" using j(1,2) bits [of j] by (simp_all add: k_def)
    then have "free_inodes_from sb p i (Suc n) = k # filter ?Q [Suc k..<16384 * (i + Suc n)]"
      unfolding free_inodes_from_def using Q by (intro filter_upt_Cons) auto
    moreover have "imap_upd sb p (put_blks p (1 + of_nat i) ?new) (\<lambda>x. ibit p x \<or> x = k)"
      unfolding imap_upd_def
    proof (intro conjI allI impI)
      fix x assume "x < 16384 * unat (imap_blocks sb)"
      with imap_upd_put [OF Suc.prems(1) i, of ?new] len
      have "ibit (put_blks p (1 + of_nat i) ?new) x = (if x div 16384 = i then bm ?new (x mod 16384) else ibit p x)"
        by (simp add: imap_upd_def del: push_bit_of_1)
      moreover have "x = k \<longleftrightarrow> x div 16384 = i \<and> x mod 16384 = j" using j(2) by (auto simp: k_def)
      ultimately show "ibit (put_blks p (1 + of_nat i) ?new) x = (ibit p x \<or> x = k)"
        using bm_set [of j ?buf "x mod 16384"] j(2) len by (auto simp: ibit_def simp del: push_bit_of_1)
    qed (use imap_upd_put [OF Suc.prems(1) i, of ?new] len in \<open>auto simp: imap_upd_def simp del: push_bit_of_1\<close>)
    ultimately show ?thesis using step by auto
  qed
qed

lemma allocate_inode_eq:
  assumes "tfs_wf sb p"
  shows "case free_inodes_from sb p 0 (unat (imap_blocks sb)) of
      [] \<Rightarrow> allocate_inode sb p = Some (Inl NoSpaceLeft, p)
    | k # ks \<Rightarrow> \<exists>p'. allocate_inode sb p = Some (Inr (of_nat k), p') \<and> imap_upd sb p p' (\<lambda>x. ibit p x \<or> x = k)"
proof -
  have loop: "allocate_inode sb p = allocate_inode_loop sb p (of_nat 0) (unat (imap_blocks sb))"
    by (simp add: allocate_inode_def)
  show ?thesis unfolding loop by (rule allocate_inode_loop_eq [OF assms]) simp
qed

section \<open>Properties\<close>

text \<open>The zones the bitmap speaks about, and those in use.\<close>

definition data_zones :: "superblock \<Rightarrow> u32 set" where
  "data_zones sb = zone_no sb ` {r. r < unat (max_data_zones sb) \<and> r < 16384 * unat (zmap_blocks sb)}"

definition used_zones :: "superblock \<Rightarrow> partition_dev \<Rightarrow> u32 set" where
  "used_zones sb p = zone_no sb ` {r. r < unat (max_data_zones sb) \<and> r < 16384 * unat (zmap_blocks sb) \<and> zbit sb p r}"

text \<open>Every block outside the zone bitmap.\<close>

definition same_outside_zmap :: "superblock \<Rightarrow> partition_dev \<Rightarrow> partition_dev \<Rightarrow> bool" where
  "same_outside_zmap sb p p' \<longleftrightarrow> (\<forall>b. unat b < unat (zones sb) \<longrightarrow>
    unat b \<le> unat (imap_blocks sb) \<or> unat (imap_blocks sb) + unat (zmap_blocks sb) < unat b \<longrightarrow> blk p' b = blk p b)"

lemma zone_no_inj:
  assumes "tfs_wf sb p"
  shows "inj_on (zone_no sb) {r. r < unat (max_data_zones sb) \<and> r < n}"
  using zone_no_nat(1) [OF assms] by (intro inj_onI) (metis (mono_tags, lifting) add_left_cancel mem_Collect_eq)

lemma free_set:
  assumes "tfs_wf sb p"
  shows "zone_no sb ` set (free_zones sb p) = data_zones sb - used_zones sb p"
  unfolding data_zones_def used_zones_def
  by (subst inj_on_image_set_diff [OF zone_no_inj [OF assms, of "16384 * unat (zmap_blocks sb)"], symmetric])
    (auto simp: in_free_zones)

lemma upd_used:
  assumes "zmap_upd sb p p' (\<lambda>r. zbit sb p r \<or> r \<in> R)" "R \<subseteq> set (free_zones sb p)"
  shows "used_zones sb p' = used_zones sb p \<union> zone_no sb ` R" "tfs_wf sb p'" "same_outside_zmap sb p p'"
  using assms unfolding used_zones_def same_outside_zmap_def zmap_upd_def by (auto simp: in_free_zones)

lemma allocate_zones_cases:
  assumes "tfs_wf sb p"
  shows "\<exists>res p'. allocate_zones sb cnt p = Some (res, p') \<and> tfs_wf sb p' \<and> same_outside_zmap sb p p' \<and>
    ((\<exists>zs. res = Inr zs \<and> length zs = cnt \<and> distinct zs \<and> sorted (map unat zs) \<and>
        set zs \<subseteq> data_zones sb - used_zones sb p \<and> used_zones sb p' = used_zones sb p \<union> set zs) \<or>
     res = Inl NoSpaceLeft \<and> card (data_zones sb - used_zones sb p) < cnt \<and> used_zones sb p' = used_zones sb p)"
proof (cases "cnt \<le> length (free_zones sb p)")
  case True
  let ?R = "take cnt (free_zones sb p)"
  have sub: "set ?R \<subseteq> set (free_zones sb p)" by (rule set_take_subset)
  obtain p' where p': "allocate_zones sb cnt p = Some (Inr (map (zone_no sb) ?R), p')"
    "zmap_upd sb p p' (\<lambda>r. zbit sb p r \<or> r \<in> set ?R)"
    using allocate_zones_eq [OF assms, of cnt] True by auto
  have "inj_on (zone_no sb) (set ?R)"
    by (rule inj_on_subset [OF zone_no_inj [OF assms, of "16384 * unat (zmap_blocks sb)"]]) (use sub in \<open>auto simp: in_free_zones\<close>)
  then have "distinct (map (zone_no sb) ?R)" by (simp add: distinct_map distinct_free_zones)
  moreover have "map unat (map (zone_no sb) ?R) = map (\<lambda>r. unat (first_data_zone sb) + r) ?R"
    using sub zone_no_nat(1) [OF assms] by (auto simp: in_free_zones)
  then have "sorted (map unat (map (zone_no sb) ?R))"
    using sorted_wrt_take [OF distinct_free_zones(2) [of sb p], of cnt] by (simp only: sorted_map) simp
  moreover have "set (map (zone_no sb) ?R) \<subseteq> data_zones sb - used_zones sb p"
    using image_mono [OF sub, of "zone_no sb"] unfolding free_set [OF assms] by simp
  ultimately show ?thesis using True p'(1) upd_used [OF p'(2) sub]
    by (intro exI [of _ "Inr (map (zone_no sb) ?R)"] exI [of _ p']) simp
next
  case False
  then obtain p' where p': "allocate_zones sb cnt p = Some (Inl NoSpaceLeft, p')" "zmap_upd sb p p' (\<lambda>r. zbit sb p r \<or> r \<in> {})"
    using allocate_zones_eq [OF assms, of cnt] by auto
  have "card (data_zones sb - used_zones sb p) \<le> length (free_zones sb p)"
    unfolding free_set [OF assms, symmetric] by (metis card_image_le card_length finite_set le_trans)
  with False p'(1) upd_used [OF p'(2)] show ?thesis
    by (intro exI [of _ "Inl NoSpaceLeft"] exI [of _ p']) simp
qed


text \<open>A file system of eight blocks, all of them zero.\<close>

definition demo_sb :: superblock where
  "demo_sb = \<lparr>ninodes = 10, pad1 = 0, imap_blocks = 1, zmap_blocks = 1, first_data_zone = 4, log_zone_size = 0, pad2 = 0,
    max_size = 0x7FFFFFFF, zones = 8, magic = MAGIC, pad3 = 0, block_size = 2048, subversion = 0\<rparr>"

definition demo_part :: partition_dev where
  "demo_part = \<lparr>pd_inner = \<lparr>d_block_size = 512, d_block_count = 40, d_data = \<lambda>_. replicate 512 0, d_fails = \<lambda>_. False\<rparr>,
    pd_start_block = 8, pd_block_count = 32, pd_read_only = False\<rparr>"

lemma demo_tfs_wf: "tfs_wf demo_sb demo_part"
  by (simp add: tfs_wf_def demo_sb_def demo_part_def part_wf_def div_ceil_def blk_ok_def sect_ok_def)

lemma demo_blk: "blk demo_part b = replicate 2048 0"
proof -
  have "blk demo_part b = concat (map (\<lambda>_. replicate 512 0) [0..<4])"
    by (simp add: blk_def sect_def demo_part_def)
  also have "[0..<4] = [0, 1, 2, 3]" by (simp add: upt_rec)
  also have "concat (map (\<lambda>_. replicate 512 (0 :: u8)) [0, 1, 2, 3 :: nat]) = replicate 2048 0"
    by (simp add: replicate_add [symmetric])
  finally show ?thesis .
qed


end
