(* ===== verification/Tfs_Inode.thy ===== *)
theory Tfs_Inode
  imports Tfs_Alloc
begin

text \<open>
  Inodes of TwilightFS (\<^verbatim>\<open>twilight_fs/inode.rs\<close>, and \<^verbatim>\<open>read_inode\<close> and \<^verbatim>\<open>write_inode\<close> of \<^verbatim>\<open>twilight_fs/mod.rs\<close>): their
  packed layout of 204 bytes, the kinds of new inodes, the direct slots, and their place in the inode table.
\<close>

section \<open>Model\<close>

definition MODE_TYPE_MASK :: u16 where "MODE_TYPE_MASK = 0xF000"
definition MODE_PERM_MASK :: u16 where "MODE_PERM_MASK = 0x01FF"
definition MODE_DIR :: u16 where "MODE_DIR = 0x4000"
definition MODE_FILE :: u16 where "MODE_FILE = 0x8000"
definition MODE_SYMLINK :: u16 where "MODE_SYMLINK = 0xA000"
definition MODE_SOCKET :: u16 where "MODE_SOCKET = 0xC000"
definition IFLAG_ENCRYPTED :: u32 where "IFLAG_ENCRYPTED = 4"
definition IFLAG_INLINE_DATA :: u32 where "IFLAG_INLINE_DATA = 8"
definition INODE_INLINE_BYTES :: nat where "INODE_INLINE_BYTES = 64"
definition DIRECT_SLOT_COUNT :: nat where "DIRECT_SLOT_COUNT = 6"

text \<open>An extent is its first block and its length in blocks.\<close>

record inode =
  i_mode :: u16
  i_nlinks :: u16
  i_uid :: u32
  i_gid :: u32
  i_size :: u64
  i_access_time :: u64
  i_modified_time :: u64
  i_change_time :: u64
  i_created_time :: u64
  i_flags :: u32
  i_generation :: u64
  i_xattr_block :: u32
  i_pad0 :: u32
  i_direct :: "(u32 \<times> u32) list"
  i_indirect :: u32
  i_double_indirect :: u32
  i_triple_indirect :: u32
  i_inline_data :: "u8 list"
  i_checksum :: u32
  i_pad1 :: u32

definition inode_base :: "u32 \<Rightarrow> u32 \<Rightarrow> u16 \<Rightarrow> u64 \<Rightarrow> inode" where
  "inode_base user_id g_id mode now =
    \<lparr>i_mode = mode, i_nlinks = 1, i_uid = user_id, i_gid = g_id, i_size = 0, i_access_time = now, i_modified_time = now,
     i_change_time = now, i_created_time = now, i_flags = 0, i_generation = 0, i_xattr_block = 0, i_pad0 = 0,
     i_direct = replicate DIRECT_SLOT_COUNT (0, 0), i_indirect = 0, i_double_indirect = 0, i_triple_indirect = 0,
     i_inline_data = replicate INODE_INLINE_BYTES 0, i_checksum = 0, i_pad1 = 0\<rparr>"

definition new_file :: "u32 \<Rightarrow> u32 \<Rightarrow> u64 \<Rightarrow> u16 \<Rightarrow> inode" where
  "new_file user_id g_id now perms = inode_base user_id g_id (MODE_FILE OR (perms AND MODE_PERM_MASK)) now"

definition new_dir :: "u32 \<Rightarrow> u32 \<Rightarrow> u64 \<Rightarrow> u16 \<Rightarrow> inode" where
  "new_dir user_id g_id now perms =
    (inode_base user_id g_id (MODE_DIR OR (perms AND MODE_PERM_MASK)) now)\<lparr>i_nlinks := 2\<rparr>"

definition new_socket :: "u32 \<Rightarrow> u32 \<Rightarrow> u64 \<Rightarrow> u16 \<Rightarrow> inode" where
  "new_socket user_id g_id now perms = inode_base user_id g_id (MODE_SOCKET OR (perms AND MODE_PERM_MASK)) now"

definition new_symlink :: "u32 \<Rightarrow> u32 \<Rightarrow> u64 \<Rightarrow> inode" where
  "new_symlink user_id g_id now =
    (let i = inode_base user_id g_id (MODE_SYMLINK OR 0x1FF) now in i\<lparr>i_flags := i_flags i OR IFLAG_INLINE_DATA\<rparr>)"

definition is_dir :: "inode \<Rightarrow> bool" where "is_dir i \<longleftrightarrow> i_mode i AND MODE_TYPE_MASK = MODE_DIR"
definition is_file :: "inode \<Rightarrow> bool" where "is_file i \<longleftrightarrow> i_mode i AND MODE_TYPE_MASK = MODE_FILE"
definition is_symlink :: "inode \<Rightarrow> bool" where "is_symlink i \<longleftrightarrow> i_mode i AND MODE_TYPE_MASK = MODE_SYMLINK"
definition is_socket :: "inode \<Rightarrow> bool" where "is_socket i \<longleftrightarrow> i_mode i AND MODE_TYPE_MASK = MODE_SOCKET"

definition inline_data_bytes :: "inode \<Rightarrow> u8 list" where
  "inline_data_bytes i = take (min (unat (i_size i)) INODE_INLINE_BYTES) (i_inline_data i)"

definition direct_slot_get :: "inode \<Rightarrow> nat \<Rightarrow> u32" where
  "direct_slot_get i k =
    (if k \<ge> DIRECT_SLOT_COUNT then 0
     else let (start_block, block_len) = i_direct i ! k in if block_len = 0 then 0 else start_block)"

definition direct_slot_set :: "inode \<Rightarrow> nat \<Rightarrow> u32 \<Rightarrow> inode" where
  "direct_slot_set i k zone =
    (if k \<ge> DIRECT_SLOT_COUNT then i
     else i\<lparr>i_direct := (i_direct i)[k := if zone = 0 then (0, 0) else (zone, 1)]\<rparr>)"

subsection \<open>Layout\<close>

definition extent_bytes :: "u32 \<times> u32 \<Rightarrow> u8 list" where
  "extent_bytes e = le_bytes 4 (fst e) @ le_bytes 4 (snd e)"

definition extent_of_bytes :: "u8 list \<Rightarrow> u32 \<times> u32" where
  "extent_of_bytes bs = (le_word (take 4 bs), le_word (take 4 (drop 4 bs)))"

definition inode_bytes :: "inode \<Rightarrow> u8 list" where
  "inode_bytes i =
    le_bytes 2 (i_mode i) @ le_bytes 2 (i_nlinks i) @ le_bytes 4 (i_uid i) @ le_bytes 4 (i_gid i) @ le_bytes 8 (i_size i) @
    le_bytes 8 (i_access_time i) @ le_bytes 8 (i_modified_time i) @ le_bytes 8 (i_change_time i) @
    le_bytes 8 (i_created_time i) @ le_bytes 4 (i_flags i) @ le_bytes 8 (i_generation i) @ le_bytes 4 (i_xattr_block i) @
    le_bytes 4 (i_pad0 i) @ concat (map extent_bytes (i_direct i)) @ le_bytes 4 (i_indirect i) @
    le_bytes 4 (i_double_indirect i) @ le_bytes 4 (i_triple_indirect i) @ i_inline_data i @ le_bytes 4 (i_checksum i) @
    le_bytes 4 (i_pad1 i)"

definition inode_of_bytes :: "u8 list \<Rightarrow> inode" where
  "inode_of_bytes bs =
    \<lparr>i_mode = le_word (take 2 bs), i_nlinks = le_word (take 2 (drop 2 bs)), i_uid = le_word (take 4 (drop 4 bs)),
     i_gid = le_word (take 4 (drop 8 bs)), i_size = le_word (take 8 (drop 12 bs)),
     i_access_time = le_word (take 8 (drop 20 bs)), i_modified_time = le_word (take 8 (drop 28 bs)),
     i_change_time = le_word (take 8 (drop 36 bs)), i_created_time = le_word (take 8 (drop 44 bs)),
     i_flags = le_word (take 4 (drop 52 bs)), i_generation = le_word (take 8 (drop 56 bs)),
     i_xattr_block = le_word (take 4 (drop 64 bs)), i_pad0 = le_word (take 4 (drop 68 bs)),
     i_direct = map (\<lambda>k. extent_of_bytes (take 8 (drop (72 + 8 * k) bs))) [0..<DIRECT_SLOT_COUNT],
     i_indirect = le_word (take 4 (drop 120 bs)), i_double_indirect = le_word (take 4 (drop 124 bs)),
     i_triple_indirect = le_word (take 4 (drop 128 bs)), i_inline_data = take INODE_INLINE_BYTES (drop 132 bs),
     i_checksum = le_word (take 4 (drop 196 bs)), i_pad1 = le_word (take 4 (drop 200 bs))\<rparr>"

subsection \<open>The inode table\<close>

text \<open>A block size below the inode size panics in the division, one above the buffer in the slice.\<close>

definition read_inode :: "superblock \<Rightarrow> partition_dev \<Rightarrow> u32 \<Rightarrow> (string + inode) rs" where
  "read_inode sb p inode_num =
    (if inode_num = 0 \<or> unat inode_num > unat (ninodes sb) then Some (Inl ''Invalid inode number'')
     else if unat (block_size sb) div INODE_SIZE = 0 then None
     else case read_tfs_block p (inode_block sb inode_num) of
         Inl _ \<Rightarrow> Some (Inl ''Failed to read inode block'')
       | Inr buffer \<Rightarrow>
           let byte_offset = inode_offset sb inode_num in
           if byte_offset + INODE_SIZE > length buffer then None
           else Some (Inr (inode_of_bytes (take INODE_SIZE (drop byte_offset buffer)))))"

definition write_inode :: "superblock \<Rightarrow> partition_dev \<Rightarrow> u32 \<Rightarrow> inode \<Rightarrow> ((string + unit) \<times> partition_dev) rs" where
  "write_inode sb p inode_num i =
    (if inode_num = 0 \<or> unat inode_num > unat (ninodes sb) then Some (Inl ''Invalid inode number'', p)
     else if unat (block_size sb) div INODE_SIZE = 0 then None
     else
       let block_num = inode_block sb inode_num in
       case read_tfs_block p block_num of
         Inl _ \<Rightarrow> Some (Inl ''Failed to read inode block'', p)
       | Inr buffer \<Rightarrow>
           let byte_offset = inode_offset sb inode_num in
           if byte_offset + INODE_SIZE > length buffer then None
           else case write_tfs_block p block_num
               (take byte_offset buffer @ inode_bytes i @ drop (byte_offset + INODE_SIZE) buffer) of
             (Inl _, p') \<Rightarrow> Some (Inl ''Failed to write inode block'', p')
           | (Inr _, p') \<Rightarrow> Some (Inr (), p'))"

section \<open>Layout round trip\<close>

definition inode_wf :: "inode \<Rightarrow> bool" where
  "inode_wf i \<longleftrightarrow> length (i_direct i) = 6 \<and> length (i_inline_data i) = 64"

lemma length_extents: "length (concat (map extent_bytes es)) = 8 * length es"
  by (induction es) (simp_all add: extent_bytes_def)

lemma length_inode_bytes [simp]: "inode_wf i \<Longrightarrow> length (inode_bytes i) = 204"
  by (simp add: inode_bytes_def inode_wf_def length_extents)

lemma extent_round_trip: "extent_of_bytes (extent_bytes e) = e"
  by (simp add: extent_of_bytes_def extent_bytes_def)

lemma nth_extent:
  "k < length es \<Longrightarrow> take 8 (drop (8 * k) (concat (map extent_bytes es) @ rest)) = extent_bytes (es ! k)"
proof (induction es arbitrary: k)
  case (Cons e es)
  then show ?case by (cases k) (simp_all add: extent_bytes_def)
qed simp

lemma inode_of_inode_bytes:
  assumes "inode_wf i"
  shows "inode_of_bytes (inode_bytes i) = i"
proof -
  have len: "length (concat (map extent_bytes (i_direct i))) = 48" using assms by (simp add: length_extents inode_wf_def)
  have "take 8 (drop (72 + 8 * k) (inode_bytes i)) = extent_bytes (i_direct i ! k)" if "k < 6" for k
  proof -
    have "drop 72 (inode_bytes i) = concat (map extent_bytes (i_direct i)) @ le_bytes 4 (i_indirect i) @
      le_bytes 4 (i_double_indirect i) @ le_bytes 4 (i_triple_indirect i) @ i_inline_data i @ le_bytes 4 (i_checksum i) @
      le_bytes 4 (i_pad1 i)" by (simp add: inode_bytes_def)
    moreover have "drop (72 + 8 * k) (inode_bytes i) = drop (8 * k) (drop 72 (inode_bytes i))"
      by (simp only: drop_drop add.commute)
    ultimately show ?thesis
      using nth_extent [of k "i_direct i"] that assms unfolding inode_wf_def by (simp only:)
  qed
  then have "map (\<lambda>k. extent_of_bytes (take 8 (drop (72 + 8 * k) (inode_bytes i)))) [0..<6] = map (\<lambda>k. i_direct i ! k) [0..<6]"
    by (intro map_cong) (simp_all add: extent_round_trip)
  then have direct: "map (\<lambda>k. extent_of_bytes (take 8 (drop (72 + 8 * k) (inode_bytes i)))) [0..<6] = i_direct i"
    using assms map_nth [of "i_direct i"] unfolding inode_wf_def by (simp only:)
  obtain ds where ds: "concat (map extent_bytes (i_direct i)) = ds" "length ds = 48" using len by blast
  have "length (i_inline_data i) = 64" using assms by (simp add: inode_wf_def)
  with ds(2) show ?thesis
    unfolding inode_of_bytes_def DIRECT_SLOT_COUNT_def INODE_INLINE_BYTES_def direct unfolding inode_bytes_def ds(1)
    by simp
qed

section \<open>The table\<close>

definition valid_ino :: "superblock \<Rightarrow> u32 \<Rightarrow> bool" where
  "valid_ino sb n \<longleftrightarrow> n \<noteq> 0 \<and> unat n \<le> unat (ninodes sb)"

definition get_ino :: "superblock \<Rightarrow> partition_dev \<Rightarrow> u32 \<Rightarrow> inode" where
  "get_ino sb p n = inode_of_bytes (take 204 (drop (inode_offset sb n) (blk p (inode_block sb n))))"

lemma inode_place:
  assumes "tfs_wf sb p" "valid_ino sb n"
  shows "unat (inode_block sb n) = 1 + unat (imap_blocks sb) + unat (zmap_blocks sb) + (unat n - 1) div 10"
    "inode_offset sb n = (unat n - 1) mod 10 * 204" "unat (inode_block sb n) < unat (first_data_zone sb)"
    "unat (block_size sb) div INODE_SIZE = 10" "inode_offset sb n + 204 \<le> 2048"
proof -
  have n: "unat (n - 1) = unat n - 1" "1 \<le> unat n" using assms(2) by (auto simp: valid_ino_def unat_minus_one unat_gt_0 Suc_le_eq)
  have ten: "unat (block_size sb) div INODE_SIZE = 10" using tfs_wfD(10) [OF assms(1)] by (simp add: INODE_SIZE_def)
  then show "unat (block_size sb) div INODE_SIZE = 10" .
  have "(unat n - 1) div 10 < div_ceil (unat (ninodes sb)) 10"
    using div_le_mono [of "unat n - 1 + 10" "unat (ninodes sb) + 10 - 1" 10] assms(2) n(2)
    by (simp add: valid_ino_def div_ceil_def)
  moreover have "1 + unat (imap_blocks sb) + unat (zmap_blocks sb) + div_ceil (unat (ninodes sb)) 10 \<le> unat (first_data_zone sb)"
    using assms(1) by (simp add: tfs_wf_def)
  ultimately have less: "1 + unat (imap_blocks sb) + unat (zmap_blocks sb) + (unat n - 1) div 10 < unat (first_data_zone sb)"
    by linarith
  have "inode_block sb n = of_nat (1 + unat (imap_blocks sb) + unat (zmap_blocks sb) + (unat n - 1) div 10)"
    unfolding inode_block_def ten n(1) by (simp add: add.commute)
  moreover have "1 + unat (imap_blocks sb) + unat (zmap_blocks sb) + (unat n - 1) div 10 < 2 ^ 32"
    using less unat_u32_less [of "first_data_zone sb"] by linarith
  ultimately show blk: "unat (inode_block sb n) = 1 + unat (imap_blocks sb) + unat (zmap_blocks sb) + (unat n - 1) div 10"
    by (simp only: unat_of_nat_u32)
  with less show "unat (inode_block sb n) < unat (first_data_zone sb)" by simp
  show off: "inode_offset sb n = (unat n - 1) mod 10 * 204"
    unfolding inode_offset_def ten n(1) by (simp add: INODE_SIZE_def)
  have "(unat n - 1) mod 10 \<le> 9" by simp
  then show "inode_offset sb n + 204 \<le> 2048" unfolding off by linarith
qed

lemma same_place:
  assumes "tfs_wf sb p" "valid_ino sb n" "valid_ino sb m"
    "inode_block sb n = inode_block sb m" "inode_offset sb n = inode_offset sb m"
  shows "n = m"
proof -
  have "(unat n - 1) div 10 = (unat m - 1) div 10" "(unat n - 1) mod 10 = (unat m - 1) mod 10"
    using assms(4,5) inode_place [OF assms(1,2)] inode_place [OF assms(1,3)] by auto
  then have "unat n - 1 = unat m - 1" by (metis div_mult_mod_eq)
  moreover have "0 < unat n" "0 < unat m" using assms(2,3) by (auto simp: valid_ino_def unat_gt_0)
  ultimately show ?thesis by (simp add: word_unat_eq_iff)
qed

lemma apart:
  assumes "tfs_wf sb p" "valid_ino sb n" "valid_ino sb m" "inode_offset sb n \<noteq> inode_offset sb m"
  shows "inode_offset sb m + 204 \<le> inode_offset sb n \<or> inode_offset sb n + 204 \<le> inode_offset sb m"
proof -
  have gap: "b * 204 + 204 \<le> a * 204 \<or> a * 204 + 204 \<le> b * 204" if "a \<noteq> b" for a b :: nat
    using that by linarith
  show ?thesis
    using assms(4) unfolding inode_place(2) [OF assms(1,2)] inode_place(2) [OF assms(1,3)] by (intro gap) auto
qed

text \<open>Replacing one slice of a list.\<close>

definition patch :: "'a list \<Rightarrow> nat \<Rightarrow> 'a list \<Rightarrow> 'a list" where
  "patch xs i ys = take i xs @ ys @ drop (i + length ys) xs"

lemma length_patch [simp]: "i + length ys \<le> length xs \<Longrightarrow> length (patch xs i ys) = length xs"
  by (simp add: patch_def)

lemma take_drop_patch: "i + length ys \<le> length xs \<Longrightarrow> take (length ys) (drop i (patch xs i ys)) = ys"
  by (simp add: patch_def)

lemma take_drop_patch_other:
  assumes "i + length ys \<le> length xs" "j + n \<le> i \<or> i + length ys \<le> j"
  shows "take n (drop j (patch xs i ys)) = take n (drop j xs)"
  using assms(2)
proof
  assume "j + n \<le> i"
  with assms(1) show ?thesis by (simp add: take_drop patch_def)
next
  assume le: "i + length ys \<le> j"
  then have "drop j (patch xs i ys) = drop (j - (i + length ys)) (drop (i + length ys) xs)"
    using assms(1) by (simp add: patch_def)
  with le show ?thesis by simp
qed

lemma nth_patch:
  "i + length ys \<le> length xs \<Longrightarrow> k < length xs \<Longrightarrow>
    patch xs i ys ! k = (if i \<le> k \<and> k < i + length ys then ys ! (k - i) else xs ! k)"
  by (auto simp: patch_def nth_append)

text \<open>What a change of the inode table leaves alone, and the table after it.\<close>

definition table_upd :: "superblock \<Rightarrow> partition_dev \<Rightarrow> partition_dev \<Rightarrow> (u32 \<Rightarrow> inode) \<Rightarrow> bool" where
  "table_upd sb p p' f \<longleftrightarrow> tfs_wf sb p' \<and>
    (\<forall>b. unat b < unat (zones sb) \<longrightarrow> unat b \<le> unat (imap_blocks sb) + unat (zmap_blocks sb) \<or> unat (first_data_zone sb) \<le> unat b \<longrightarrow>
       blk p' b = blk p b) \<and>
    (\<forall>n. valid_ino sb n \<longrightarrow> get_ino sb p' n = f n)"

lemma read_inode_eq:
  assumes "tfs_wf sb p" "valid_ino sb n"
  shows "read_inode sb p n = Some (Inr (get_ino sb p n))"
proof -
  note pl = inode_place [OF assms]
  note wf = tfs_wfD [OF assms(1)]
  have "unat (inode_block sb n) < unat (zones sb)" using pl(3) wf(9) by simp
  from read_tfs_block_eq [OF wf(1) wf(4) [OF this]] show ?thesis
    using assms(2) pl(4,5) wf(1) by (simp add: read_inode_def valid_ino_def get_ino_def INODE_SIZE_def)
qed

lemma write_inode_eq:
  assumes "tfs_wf sb p" "valid_ino sb n" "inode_wf i"
  shows "\<exists>p'. write_inode sb p n i = Some (Inr (), p') \<and> table_upd sb p p' ((get_ino sb p)(n := i))"
proof -
  note pl = inode_place [OF assms(1,2)]
  note wf = tfs_wfD [OF assms(1)]
  have b: "unat (inode_block sb n) < unat (zones sb)" using pl(3) wf(9) by simp
  let ?buf = "blk p (inode_block sb n)" and ?o = "inode_offset sb n"
  let ?new = "patch ?buf ?o (inode_bytes i)"
  have len: "length ?buf = 2048" "length (inode_bytes i) = 204" using wf(1) assms(3) by simp_all
  have "length ?new = 2048" using pl(5) len by simp
  note put = tfs_put [OF assms(1) b this]
  let ?p = "put_blks p (inode_block sb n) ?new"
  have "write_inode sb p n i = Some (Inr (), ?p)"
    using assms(2) put(1,2) pl(4,5) len by (simp add: write_inode_def valid_ino_def INODE_SIZE_def patch_def Let_def)
  moreover have "get_ino sb ?p m = ((get_ino sb p)(n := i)) m" if m: "valid_ino sb m" for m
  proof -
    have bm: "unat (inode_block sb m) < unat (zones sb)" using inode_place(3) [OF assms(1) m] wf(9) by simp
    consider "m = n" | "inode_block sb m = inode_block sb n" "inode_offset sb n \<noteq> inode_offset sb m"
      | "inode_block sb m \<noteq> inode_block sb n" using same_place [OF assms(1) m assms(2)] by metis
    then show ?thesis
    proof cases
      case 1
      then show ?thesis using put(5) [OF b] pl(5) len take_drop_patch [of ?o "inode_bytes i" ?buf] assms(3)
        by (simp add: get_ino_def inode_of_inode_bytes)
    next
      case 2
      then have "m \<noteq> n" by auto
      with 2 show ?thesis
        using put(5) [OF bm] pl(5) len apart [OF assms(1,2) m 2(2)]
          take_drop_patch_other [of ?o "inode_bytes i" ?buf "inode_offset sb m" 204] by (auto simp: get_ino_def)
    next
      case 3
      then have "m \<noteq> n" by auto
      with 3 show ?thesis using put(5) [OF bm] pl(5) len by (simp add: get_ino_def)
    qed
  qed
  moreover have "blk ?p c = blk p c" if "unat c < unat (zones sb)"
    "unat c \<le> unat (imap_blocks sb) + unat (zmap_blocks sb) \<or> unat (first_data_zone sb) \<le> unat c" for c
    using put(5) [OF that(1)] that(2) pl(1,3,5) len by auto
  ultimately show ?thesis using put(3) pl(5) len by (simp add: table_upd_def)
qed

section \<open>Properties\<close>



end
