(* ===== verification/Spec2Isabelle.thy ===== *)
theory Spec2Isabelle
  imports Frame_Alloc Kernel_Steps Pipe Memfd Fd_Syscalls Sessions Tfs_Inode
begin

text \<open>
  Twilight OS: a verification library.
\<close>

end
